(* ===== verification/Prelude.thy ===== *)
theory Prelude
  imports "HOL-Library.Word" "HOL-Library.Monad_Syntax"
begin

unbundle bit_operations_syntax

text \<open>
  Shared ground of the development: the C integer types as words, byte-addressed physical
  memory with bulk loads and stores, little-endian encoding of machine words, the paging
  macros of \<^verbatim>\<open>kernel/riscv.h\<close>, and the way a kernel panic is represented.

  A kernel operation that can panic has a result of type \<open>'a option\<close>. The value \<open>None\<close> means
  that the code called \<open>panic\<close> (which never returns) and \<open>Some\<close> carries the result
  together with the new state. Operations are composed with the do-notation of the option
  monad, so a panic in a callee ends the caller too, as it does in the kernel.
\<close>

section \<open>Types\<close>

type_synonym u8 = "8 word"
type_synonym u16 = "16 word"
type_synonym u32 = "32 word"
type_synonym u64 = "64 word"
type_synonym phys = "u64 \<Rightarrow> u8"

named_theorems kdefs \<open>definitions of kernel operations that proofs unfold\<close>
named_theorems page_simps \<open>rewriting of page arithmetic\<close>

text \<open>\<open>panic msg\<close> is the panicking result; the message documents which panic it is.\<close>

definition panic :: "string \<Rightarrow> 'a option" where
  "panic msg = None"

lemma panic_eq_None [simp]: "panic msg = None"
  by (simp add: panic_def)

lemmas bind_Some_iff = bind_eq_Some_conv

section \<open>Physical memory\<close>

text \<open>Bytes are stored from address \<open>a\<close> upwards; addresses wrap around at $2^{64}$.\<close>

definition store_bytes :: "phys \<Rightarrow> u64 \<Rightarrow> u8 list \<Rightarrow> phys" where
  "store_bytes m a bs = (\<lambda>x. if unat (x - a) < length bs then bs ! unat (x - a) else m x)"

definition load_bytes :: "phys \<Rightarrow> u64 \<Rightarrow> nat \<Rightarrow> u8 list" where
  "load_bytes m a n = map (\<lambda>i. m (a + of_nat i)) [0..<n]"

definition fill_bytes :: "phys \<Rightarrow> u64 \<Rightarrow> u8 \<Rightarrow> nat \<Rightarrow> phys" where
  "fill_bytes m a c n = (\<lambda>x. if unat (x - a) < n then c else m x)"

lemma length_load_bytes [simp]: "length (load_bytes m a n) = n"
  by (simp add: load_bytes_def)

lemma nth_load_bytes [simp]: "i < n \<Longrightarrow> load_bytes m a n ! i = m (a + of_nat i)"
  by (simp add: load_bytes_def)

lemma fill_bytes_eq_store: "fill_bytes m a c n = store_bytes m a (replicate n c)"
  by (auto simp: fill_bytes_def store_bytes_def fun_eq_iff)

lemma unat_of_nat_64 [simp]: "n < 2 ^ 64 \<Longrightarrow> unat (of_nat n :: u64) = n"
  by (simp add: unat_of_nat take_bit_nat_eq_self)

lemma unat_less_64: "unat (x :: u64) < 18446744073709551616"
  using unsigned_less [of x, where ?'a = nat] by simp

lemma load_store_same:
  assumes "length bs \<le> 2 ^ 64"
  shows "load_bytes (store_bytes m a bs) a (length bs) = bs"
proof (rule nth_equalityI)
  fix i assume "i < length (load_bytes (store_bytes m a bs) a (length bs))"
  then have i: "i < length bs" by simp
  with assms have "unat (of_nat i :: u64) = i" by simp
  with i show "load_bytes (store_bytes m a bs) a (length bs) ! i = bs ! i"
    by (simp add: store_bytes_def)
qed simp

text \<open>A load sees only the bytes of its range.\<close>

lemma load_bytes_cong:
  "(\<And>i. i < n \<Longrightarrow> m (a + of_nat i) = m' (a + of_nat i)) \<Longrightarrow> load_bytes m a n = load_bytes m' a n"
  by (simp add: load_bytes_def)

section \<open>Little-endian words\<close>

definition word_bytes :: "nat \<Rightarrow> 'a::len word \<Rightarrow> u8 list" where
  "word_bytes n w = map (\<lambda>i. ucast (drop_bit (8 * i) w)) [0..<n]"

fun bytes_word :: "u8 list \<Rightarrow> 'a::len word" where
  "bytes_word [] = 0"
| "bytes_word (b # bs) = ucast b OR push_bit 8 (bytes_word bs)"

lemma length_word_bytes [simp]: "length (word_bytes n w) = n"
  by (simp add: word_bytes_def)

lemma bit_u8_large [simp]: "8 \<le> n \<Longrightarrow> \<not> bit (b :: u8) n"
  using bit_imp_le_length [of b n] by auto

lemma bit_bytes_word:
  "bit (bytes_word bs :: 'a::len word) i \<longleftrightarrow>
     i < LENGTH('a) \<and> i div 8 < length bs \<and> bit (bs ! (i div 8)) (i mod 8)"
proof (induction bs arbitrary: i)
  case (Cons b bs)
  show ?case
  proof (cases "i < 8")
    case True
    then show ?thesis by (auto simp: bit_simps)
  next
    case False
    then obtain j where j: "i = j + 8" by (metis add.commute le_add_diff_inverse not_less)
    have "i div 8 = Suc (j div 8)" "i mod 8 = j mod 8" by (auto simp: j)
    then show ?thesis using False Cons.IH [of j] by (auto simp: bit_simps j)
  qed
qed simp

lemma bytes_word_word_bytes:
  "LENGTH('a) \<le> 8 * n \<Longrightarrow> bytes_word (word_bytes n w) = (w :: 'a::len word)"
  by (rule bit_word_eqI)
    (auto simp: bit_bytes_word word_bytes_def bit_simps less_mult_imp_div_less mult.commute)

lemma word_bytes_bytes_word:
  assumes "length bs = n" "8 * n \<le> LENGTH('a::len)"
  shows "word_bytes n (bytes_word bs :: 'a word) = bs"
proof (rule nth_equalityI)
  fix i assume "i < length (word_bytes n (bytes_word bs :: 'a word))"
  then have i: "i < n" by simp
  show "word_bytes n (bytes_word bs :: 'a word) ! i = bs ! i"
  proof (rule bit_word_eqI)
    fix k assume k: "k < LENGTH(8)"
    then have "(8 * i + k) div 8 = i" "(8 * i + k) mod 8 = k" by auto
    moreover have "8 * i + k < LENGTH('a)" using i k assms(2) by auto
    ultimately show "bit (word_bytes n (bytes_word bs :: 'a word) ! i) k = bit (bs ! i) k"
      using i k assms(1) by (auto simp: word_bytes_def bit_simps bit_bytes_word add.commute)
  qed
qed (simp add: assms)

definition load64 :: "phys \<Rightarrow> u64 \<Rightarrow> u64" where
  "load64 m a = bytes_word (load_bytes m a 8)"

definition store64 :: "phys \<Rightarrow> u64 \<Rightarrow> u64 \<Rightarrow> phys" where
  "store64 m a v = store_bytes m a (word_bytes 8 v)"

lemma load64_store64_same [simp]: "load64 (store64 m a v) a = v"
  using load_store_same [of "word_bytes 8 v" m a]
  by (simp add: load64_def store64_def bytes_word_word_bytes)

text \<open>The signed reading of a word.\<close>

lemma sint_alt:
  fixes x :: "'a::len word"
  shows "sint x = (if uint x < 2 ^ (LENGTH('a) - 1) then uint x else uint x - 2 ^ LENGTH('a))"
proof -
  obtain n where n: "LENGTH('a) = Suc n" using len_gt_0 gr0_implies_Suc by blast
  have s: "sint x = (uint x + 2 ^ n) mod 2 ^ Suc n - 2 ^ n"
    using int_word_sint [of "uint x", where ?'a = 'a] n by simp
  have b: "0 \<le> uint x" "uint x < 2 ^ Suc n" using n uint_lt2p [of x] by auto
  show ?thesis
  proof (cases "uint x < 2 ^ n")
    case True
    then have "(uint x + 2 ^ n) mod 2 ^ Suc n = uint x + 2 ^ n"
      using b by (intro mod_pos_pos_trivial) auto
    then show ?thesis using True n s by simp
  next
    case False
    then have "(uint x + 2 ^ n - 2 ^ Suc n) mod 2 ^ Suc n = uint x + 2 ^ n - 2 ^ Suc n"
      using b by (intro mod_pos_pos_trivial) auto
    then have "(uint x + 2 ^ n) mod 2 ^ Suc n = uint x + 2 ^ n - 2 ^ Suc n"
      by (simp only: minus_mod_self2)
    then show ?thesis using False n s by simp
  qed
qed

section \<open>Pages\<close>

text \<open>
  The macros of \<^verbatim>\<open>kernel/riscv.h\<close>: a page is 4096 bytes, \<open>PGROUNDUP\<close> and
  \<open>PGROUNDDOWN\<close> align an address, and a virtual address splits into three nine-bit
  page-table indices and a twelve-bit offset (Sv39).
\<close>

abbreviation (input) PGSIZE :: u64 where "PGSIZE \<equiv> 4096"
abbreviation (input) MAXVA :: u64 where "MAXVA \<equiv> 0x4000000000"
abbreviation (input) TRAMPOLINE :: u64 where "TRAMPOLINE \<equiv> 0x3FFFFFF000"
abbreviation (input) TRAPFRAME :: u64 where "TRAPFRAME \<equiv> 0x3FFFFFE000"
abbreviation (input) KERNBASE :: u64 where "KERNBASE \<equiv> 0x80000000"
abbreviation (input) PHYSTOP :: u64 where "PHYSTOP \<equiv> 0x88000000"

definition PGROUNDUP :: "u64 \<Rightarrow> u64" where
  "PGROUNDUP sz = (sz + PGSIZE - 1) AND NOT (PGSIZE - 1)"

definition PGROUNDDOWN :: "u64 \<Rightarrow> u64" where
  "PGROUNDDOWN a = a AND NOT (PGSIZE - 1)"

definition PX :: "nat \<Rightarrow> u64 \<Rightarrow> u64" where
  "PX level va = drop_bit (12 + 9 * level) va AND 0x1FF"

text \<open>The flag bits and the address field of a page-table entry.\<close>

abbreviation (input) PTE_V :: u64 where "PTE_V \<equiv> 1"
abbreviation (input) PTE_R :: u64 where "PTE_R \<equiv> 2"
abbreviation (input) PTE_W :: u64 where "PTE_W \<equiv> 4"
abbreviation (input) PTE_X :: u64 where "PTE_X \<equiv> 8"
abbreviation (input) PTE_U :: u64 where "PTE_U \<equiv> 16"

definition PA2PTE :: "u64 \<Rightarrow> u64" where
  "PA2PTE pa = push_bit 10 (drop_bit 12 pa)"

definition PTE2PA :: "u64 \<Rightarrow> u64" where
  "PTE2PA pte = push_bit 12 (drop_bit 10 pte)"

definition PTE_FLAGS :: "u64 \<Rightarrow> u64" where
  "PTE_FLAGS pte = pte AND 0x3FF"

subsection \<open>Rounding\<close>

lemma and_not_4095: "a AND NOT 4095 = a - a mod (4096 :: u64)"
proof -
  have "a AND mask 12 = take_bit 12 a" by (simp add: take_bit_eq_mask)
  moreover have "(a AND NOT (mask 12)) + (a AND mask 12) = a"
    by (subst disjunctive_add) (auto simp: bit_simps, rule bit_word_eqI, auto simp: bit_simps)
  ultimately have "a AND NOT (mask 12) = a - take_bit 12 a" by (metis add_diff_cancel_right')
  then show ?thesis by (simp add: mask_eq_exp_minus_1 take_bit_eq_mod)
qed

lemma PGROUNDDOWN_alt: "PGROUNDDOWN a = a - a mod 4096"
  unfolding PGROUNDDOWN_def using and_not_4095 [of a] by simp

lemma PGROUNDUP_alt: "PGROUNDUP a = PGROUNDDOWN (a + 4095)"
  by (simp add: PGROUNDUP_def PGROUNDDOWN_def algebra_simps)

lemma unat_PGROUNDDOWN: "unat (PGROUNDDOWN a) = unat a div 4096 * 4096"
proof -
  have "a mod 4096 \<le> a" by (simp add: word_le_nat_alt unat_mod)
  then have "unat (a - a mod 4096) = unat a - unat a mod 4096" by (simp add: unat_sub unat_mod)
  then show ?thesis
    unfolding PGROUNDDOWN_alt by (simp only: minus_mod_eq_div_mult)
qed

lemma unat_PGROUNDUP:
  assumes "unat a \<le> 2 ^ 64 - 4096"
  shows "unat (PGROUNDUP a) = (unat a + 4095) div 4096 * 4096"
proof -
  have "unat (a + 4095) = unat a + 4095"
    using assms by (subst unat_add_lem [THEN iffD1]) auto
  then show ?thesis by (simp add: PGROUNDUP_alt unat_PGROUNDDOWN)
qed

definition aligned :: "u64 \<Rightarrow> bool" where
  "aligned a \<longleftrightarrow> a mod PGSIZE = 0"

lemma aligned_unat: "aligned a \<longleftrightarrow> unat a mod 4096 = 0"
  by (simp add: aligned_def word_unat_eq_iff unat_mod)

lemma aligned_PGROUNDDOWN [simp]: "aligned (PGROUNDDOWN a)"
  by (simp add: aligned_unat unat_PGROUNDDOWN)

lemma aligned_PGROUNDUP [simp]: "aligned (PGROUNDUP a)"
  by (simp add: PGROUNDUP_alt)

lemma PGROUNDDOWN_aligned [simp]: "aligned a \<Longrightarrow> PGROUNDDOWN a = a"
  by (simp add: word_unat_eq_iff unat_PGROUNDDOWN aligned_unat minus_mod_eq_div_mult [symmetric])

lemma aligned_0 [simp]: "aligned 0"
  by (simp add: aligned_unat)

lemma aligned_add [intro]: "aligned a \<Longrightarrow> aligned b \<Longrightarrow> aligned (a + b)"
proof -
  assume "aligned a" "aligned b"
  then have "(unat a + unat b) mod 4096 = 0" by (auto simp: aligned_unat)
  moreover have "unat (a + b) = (unat a + unat b) mod 2 ^ 64" by (simp add: unat_word_ariths)
  ultimately show ?thesis by (simp add: aligned_unat mod_mod_cancel)
qed

lemma aligned_PGSIZE [simp]: "aligned 4096"
  by (simp add: aligned_unat)

subsection \<open>Bytes of a page\<close>

text \<open>The page that holds a byte is found by rounding its address down.\<close>

lemma aligned_unat_add:
  assumes "aligned pa" "k < 4096"
  shows "unat (pa + of_nat k) = unat pa + k"
proof -
  obtain q where q: "unat pa = 4096 * q"
    using assms(1) by (auto simp: aligned_unat elim: dvdE)
  have "4096 * q < 18446744073709551616" using unat_less_64 [of pa] q by simp
  then have "unat pa + k < 18446744073709551616" using assms(2) q by simp
  then show ?thesis using assms(2) by (subst unat_add_lem [THEN iffD1]) auto
qed

lemma PGROUNDDOWN_byte [simp]:
  assumes "aligned pa" "k < 4096"
  shows "PGROUNDDOWN (pa + of_nat k) = pa"
proof -
  have "(unat pa + k) div 4096 * 4096 = unat pa"
    using assms by (auto simp: aligned_unat)
  then show ?thesis
    by (simp add: word_unat_eq_iff unat_PGROUNDDOWN aligned_unat_add [OF assms])
qed

lemma in_page_iff:
  assumes "aligned pa"
  shows "unat (x - pa) < 4096 \<longleftrightarrow> PGROUNDDOWN x = pa"
proof
  assume "unat (x - pa) < 4096"
  moreover have "x = pa + of_nat (unat (x - pa))" by simp
  ultimately show "PGROUNDDOWN x = pa" using PGROUNDDOWN_byte [OF assms] by metis
next
  assume "PGROUNDDOWN x = pa"
  then have "x - pa = x mod 4096" by (auto simp: PGROUNDDOWN_alt)
  then show "unat (x - pa) < 4096" by (simp add: unat_mod)
qed

text \<open>Two stores and loads in different pages, or at different eight-byte cells of one page,
  do not interfere.\<close>

lemma cell_frame:
  assumes "aligned pa" "aligned pb" "i < 512" "j < 512" "pa \<noteq> pb \<or> i \<noteq> j" "k < 8"
  shows "\<not> unat (pb + 8 * of_nat j + of_nat k - (pa + 8 * of_nat i)) < 8"
proof
  let ?x = "pb + 8 * of_nat j + of_nat k :: u64" and ?a = "pa + 8 * of_nat i :: u64"
  assume less: "unat (?x - ?a) < 8"
  define l where "l = unat (?x - ?a)"
  have "?x = ?a + of_nat l" by (simp add: l_def)
  then have eq: "pb + of_nat (8 * j + k) = pa + of_nat (8 * i + l)" by (simp add: algebra_simps)
  have "8 * j + k < 4096" "8 * i + l < 4096" using assms less l_def by auto
  then have "pb = pa"
    using arg_cong [OF eq, of PGROUNDDOWN] assms(1,2)
    by (metis PGROUNDDOWN_byte)
  then have "8 * j + k = 8 * i + l"
    using eq \<open>8 * j + k < 4096\<close> \<open>8 * i + l < 4096\<close> assms(1,2) aligned_unat_add
    by (metis add_left_cancel)
  then have "j = i" using assms(6) less l_def by presburger
  then show False using \<open>pb = pa\<close> assms(5) by simp
qed

lemma load64_store64_cell:
  assumes "aligned pa" "aligned pb" "i < 512" "j < 512" "pa \<noteq> pb \<or> i \<noteq> j"
  shows "load64 (store64 m (pa + 8 * of_nat i) v) (pb + 8 * of_nat j) = load64 m (pb + 8 * of_nat j)"
  unfolding load64_def store64_def
  by (rule arg_cong [where f = bytes_word], rule load_bytes_cong)
    (use cell_frame [OF assms] in \<open>auto simp: store_bytes_def\<close>)

lemma load64_page_cong:
  assumes "aligned pa" "i < 512" "\<And>x. PGROUNDDOWN x = pa \<Longrightarrow> m x = m' x"
  shows "load64 m (pa + 8 * of_nat i) = load64 m' (pa + 8 * of_nat i)"
  unfolding load64_def
proof (rule arg_cong [where f = bytes_word], rule load_bytes_cong)
  fix k :: nat assume "k < 8"
  then have "8 * i + k < 4096" using assms(2) by simp
  then have "PGROUNDDOWN (pa + of_nat (8 * i + k)) = pa" using assms(1) by (rule PGROUNDDOWN_byte [rotated])
  then show "m (pa + 8 * of_nat i + of_nat k) = m' (pa + 8 * of_nat i + of_nat k)"
    using assms(3) [of "pa + of_nat (8 * i + k)"] by (simp add: algebra_simps)
qed

text \<open>A page filled with one byte, and a word stored in a page, change that page only.\<close>

lemma memory_off_page_fill:
  "aligned pa \<Longrightarrow> PGROUNDDOWN x \<noteq> pa \<Longrightarrow> fill_bytes m pa c 4096 x = m x"
  by (simp add: fill_bytes_def in_page_iff)

lemma fill_page_same: "aligned pa \<Longrightarrow> PGROUNDDOWN x = pa \<Longrightarrow> fill_bytes m pa c 4096 x = c"
  by (simp add: fill_bytes_def in_page_iff)

lemma memory_off_page_store64:
  assumes "aligned pa" "i < 512" "PGROUNDDOWN x \<noteq> pa"
  shows "store64 m (pa + 8 * of_nat i) v x = m x"
proof -
  have "\<not> unat (x - (pa + 8 * of_nat i)) < 8"
  proof
    assume l: "unat (x - (pa + 8 * of_nat i)) < 8"
    define k where "k = unat (x - (pa + 8 * of_nat i))"
    have "x = pa + of_nat (8 * i + k)" by (simp add: k_def algebra_simps)
    moreover have "8 * i + k < 4096" using l assms(2) k_def by simp
    ultimately show False using assms(1,3) PGROUNDDOWN_byte by blast
  qed
  then show ?thesis by (simp add: store64_def store_bytes_def)
qed

lemma memory_off_page_store_bytes:
  assumes "aligned pa" "length bs \<le> 4096" "PGROUNDDOWN x \<noteq> pa"
  shows "store_bytes m pa bs x = m x"
proof -
  have "\<not> unat (x - pa) < 4096" using assms(1,3) by (simp add: in_page_iff)
  then show ?thesis using assms(2) by (simp add: store_bytes_def)
qed

text \<open>\<open>same_off P m m'\<close>: the memories differ at most on the pages in \<open>P\<close>.\<close>

definition same_off :: "u64 set \<Rightarrow> phys \<Rightarrow> phys \<Rightarrow> bool" where
  "same_off P m m' \<longleftrightarrow> (\<forall>x. PGROUNDDOWN x \<notin> P \<longrightarrow> m' x = m x)"

lemma same_off_refl [simp, intro]: "same_off P m m"
  by (simp add: same_off_def)

lemma same_off_trans: "same_off P m m' \<Longrightarrow> same_off Q m' m'' \<Longrightarrow> same_off (P \<union> Q) m m''"
  by (auto simp: same_off_def)

lemma same_off_mono: "same_off P m m' \<Longrightarrow> P \<subseteq> Q \<Longrightarrow> same_off Q m m'"
  by (auto simp: same_off_def)

lemma same_off_fill: "aligned pa \<Longrightarrow> same_off {pa} m (fill_bytes m pa c 4096)"
  by (simp add: same_off_def memory_off_page_fill)

lemma same_off_store64: "aligned pa \<Longrightarrow> i < 512 \<Longrightarrow> same_off {pa} m (store64 m (pa + 8 * of_nat i) v)"
  by (simp add: same_off_def memory_off_page_store64)

lemma load64_same_off:
  "same_off P m m' \<Longrightarrow> aligned pa \<Longrightarrow> pa \<notin> P \<Longrightarrow> i < 512 \<Longrightarrow>
     load64 m' (pa + 8 * of_nat i) = load64 m (pa + 8 * of_nat i)"
  by (rule load64_page_cong) (auto simp: same_off_def)

end
