(* ===== verification/CString.thy ===== *)
theory CString
  imports Prelude
begin

text \<open>
  The byte and string routines of \<^verbatim>\<open>kernel/string.c\<close> and those of \<^verbatim>\<open>user/ulib.c\<close>.
  Routines that write memory act on physical memory one byte at a time, in the order of the
  C loops. Routines that only read take the bytes behind a pointer as a function from the
  offset to the byte, so they apply to memory and to local arrays alike. The lemmas relate
  the loops to the bulk operations of the prelude.
\<close>

section \<open>Writing memory\<close>

fun memset_loop :: "phys \<Rightarrow> u64 \<Rightarrow> u8 \<Rightarrow> nat \<Rightarrow> nat \<Rightarrow> phys" where
  "memset_loop m dst c i 0 = m"
| "memset_loop m dst c i (Suc k) = memset_loop (m(dst + of_nat i := c)) dst c (Suc i) k"

definition memset :: "phys \<Rightarrow> u64 \<Rightarrow> u8 \<Rightarrow> u32 \<Rightarrow> phys" where
  "memset m dst c n = memset_loop m dst c 0 (unat n)"

fun copy_fwd :: "phys \<Rightarrow> u64 \<Rightarrow> u64 \<Rightarrow> nat \<Rightarrow> phys" where
  "copy_fwd m d s 0 = m"
| "copy_fwd m d s (Suc n) = copy_fwd (m(d := m s)) (d + 1) (s + 1) n"

fun copy_bwd :: "phys \<Rightarrow> u64 \<Rightarrow> u64 \<Rightarrow> nat \<Rightarrow> phys" where
  "copy_bwd m d s 0 = m"
| "copy_bwd m d s (Suc n) = copy_bwd (m(d - 1 := m (s - 1))) (d - 1) (s - 1) n"

definition memmove :: "phys \<Rightarrow> u64 \<Rightarrow> u64 \<Rightarrow> u32 \<Rightarrow> phys" where
  "memmove m dst src n =
     (if n = 0 then m
      else if src < dst \<and> dst < src + ucast n
      then copy_bwd m (dst + ucast n) (src + ucast n) (unat n)
      else copy_fwd m dst src (unat n))"

definition memcpy :: "phys \<Rightarrow> u64 \<Rightarrow> u64 \<Rightarrow> u32 \<Rightarrow> phys" where
  "memcpy m dst src n = memmove m dst src n"

text \<open>The user library's version compares the pointers only, and its count is a signed int.\<close>

definition umemmove :: "phys \<Rightarrow> u64 \<Rightarrow> u64 \<Rightarrow> u32 \<Rightarrow> phys" where
  "umemmove m vdst vsrc n =
     (if vdst < vsrc then copy_fwd m vdst vsrc (nat (sint n))
      else copy_bwd m (vdst + scast n) (vsrc + scast n) (nat (sint n)))"

section \<open>Reading\<close>

fun memcmp :: "(nat \<Rightarrow> u8) \<Rightarrow> (nat \<Rightarrow> u8) \<Rightarrow> nat \<Rightarrow> int" where
  "memcmp s1 s2 0 = 0"
| "memcmp s1 s2 (Suc n) =
     (if s1 0 \<noteq> s2 0 then uint (s1 0) - uint (s2 0)
      else memcmp (\<lambda>i. s1 (Suc i)) (\<lambda>i. s2 (Suc i)) n)"

fun strncmp :: "(nat \<Rightarrow> u8) \<Rightarrow> (nat \<Rightarrow> u8) \<Rightarrow> nat \<Rightarrow> int" where
  "strncmp p q 0 = 0"
| "strncmp p q (Suc n) =
     (if p 0 \<noteq> 0 \<and> p 0 = q 0 then strncmp (\<lambda>i. p (Suc i)) (\<lambda>i. q (Suc i)) n
      else uint (p 0) - uint (q 0))"

text \<open>\<open>strncpy s t n\<close> writes exactly \<open>n\<close> bytes, which are its result: \<open>t\<close> up to and
  including a NUL byte, then zeros.\<close>

fun strncpy :: "(nat \<Rightarrow> u8) \<Rightarrow> nat \<Rightarrow> u8 list" where
  "strncpy t 0 = []"
| "strncpy t (Suc n) =
     t 0 # (if t 0 \<noteq> 0 then strncpy (\<lambda>i. t (Suc i)) n else replicate n 0)"

text \<open>\<open>safestrcpy\<close> returns the bytes it writes: at most \<open>n - 1\<close> bytes of \<open>t\<close>, then a NUL.
  The loop leaves \<open>s\<close> one past the copied NUL, so a string that fits is followed by two.\<close>

fun safestrcpy_loop :: "(nat \<Rightarrow> u8) \<Rightarrow> nat \<Rightarrow> u8 list" where
  "safestrcpy_loop t 0 = [0]"
| "safestrcpy_loop t (Suc k) =
     t 0 # (if t 0 \<noteq> 0 then safestrcpy_loop (\<lambda>i. t (Suc i)) k else [0])"

definition safestrcpy :: "(nat \<Rightarrow> u8) \<Rightarrow> int \<Rightarrow> u8 list" where
  "safestrcpy t n = (if n \<le> 0 then [] else safestrcpy_loop t (nat (n - 1)))"

partial_function (option) strlen_from :: "(nat \<Rightarrow> u8) \<Rightarrow> nat \<Rightarrow> nat option" where
  "strlen_from s n = (if s n = 0 then Some n else strlen_from s (Suc n))"

definition strlen :: "(nat \<Rightarrow> u8) \<Rightarrow> nat option" where
  "strlen s = strlen_from s 0"

partial_function (option) strcmp :: "(nat \<Rightarrow> u8) \<Rightarrow> (nat \<Rightarrow> u8) \<Rightarrow> int option" where
  "strcmp p q =
     (if p 0 \<noteq> 0 \<and> p 0 = q 0 then strcmp (\<lambda>i. p (Suc i)) (\<lambda>i. q (Suc i))
      else Some (uint (p 0) - uint (q 0)))"

partial_function (option) strchr_from :: "(nat \<Rightarrow> u8) \<Rightarrow> u8 \<Rightarrow> nat \<Rightarrow> nat option option" where
  "strchr_from s c i =
     (if s i = 0 then Some None
      else if s i = c then Some (Some i) else strchr_from s c (Suc i))"

definition strchr :: "(nat \<Rightarrow> u8) \<Rightarrow> u8 \<Rightarrow> nat option option" where
  "strchr s c = strchr_from s c 0"

text \<open>\<open>atoi\<close> accumulates in a C int.\<close>

partial_function (option) atoi_loop :: "(nat \<Rightarrow> u8) \<Rightarrow> u32 \<Rightarrow> u32 option" where
  "atoi_loop s n =
     (if 48 \<le> s 0 \<and> s 0 \<le> 57
      then atoi_loop (\<lambda>i. s (Suc i)) (n * 10 + ucast (s 0) - 48)
      else Some n)"

definition atoi :: "(nat \<Rightarrow> u8) \<Rightarrow> u32 option" where
  "atoi s = atoi_loop s 0"

text \<open>A C string as the bytes before the NUL, and a list as the bytes behind a pointer.\<close>

definition cstr :: "u8 list \<Rightarrow> nat \<Rightarrow> u8" where
  "cstr bs i = (if i < length bs then bs ! i else 0)"

definition str :: "string \<Rightarrow> u8 list" where
  "str cs = map (\<lambda>c. word_of_nat (of_char c)) cs"

lemma cstr_Cons_0 [simp]: "cstr (b # bs) 0 = b" "cstr [] i = 0"
  by (simp_all add: cstr_def)

lemma cstr_Cons_Suc [simp]: "cstr (b # bs) (Suc i) = cstr bs i"
  by (simp add: cstr_def)

section \<open>The loops compute the bulk operations\<close>

lemma eq_offset_iff: "i < 2 ^ 64 \<Longrightarrow> x = a + of_nat i \<longleftrightarrow> unat (x - a) = i" for x a :: u64
proof
  assume "i < 2 ^ 64" "unat (x - a) = i"
  then have "x - a = of_nat i" by (simp add: word_unat_eq_iff)
  then show "x = a + of_nat i" by (simp add: algebra_simps)
qed simp

lemma memset_loop_eq:
  assumes "i + k \<le> 2 ^ 64"
  shows "memset_loop m dst c i k =
     (\<lambda>x. if i \<le> unat (x - dst) \<and> unat (x - dst) < i + k then c else m x)"
  using assms
proof (induction k arbitrary: m i)
  case (Suc k)
  have "(x = dst + of_nat i) = (unat (x - dst) = i)" for x
    using Suc.prems by (intro eq_offset_iff) simp
  then show ?case using Suc by (auto simp: fun_eq_iff)
qed (auto simp: fun_eq_iff)

lemma memset_eq: "memset m dst c n = fill_bytes m dst c (unat n)"
proof -
  have "unat n \<le> 2 ^ 64" using unsigned_less [of n, where ?'a = nat] by simp
  then show ?thesis by (auto simp: memset_def memset_loop_eq fill_bytes_def fun_eq_iff)
qed

text \<open>\<open>copied\<close> is what a correct copy leaves in memory: the old bytes of the source range at the
  destination, every other byte unchanged.\<close>

definition copied :: "phys \<Rightarrow> u64 \<Rightarrow> u64 \<Rightarrow> nat \<Rightarrow> phys" where
  "copied m d s n = (\<lambda>x. if unat (x - d) < n then m (s + (x - d)) else m x)"

lemma copied_eq_store: "copied m d s n = store_bytes m d (load_bytes m s n)"
  by (auto simp: copied_def store_bytes_def fun_eq_iff)

lemma unat_minus_1: "x \<noteq> 0 \<Longrightarrow> unat (x - 1) = unat x - 1" for x :: u64
  by (rule unat_minus_one)

text \<open>A forward copy is right unless the destination starts inside the rest of the source, a
  backward copy unless the source starts inside the destination.\<close>

lemma copy_fwd_eq:
  assumes "n < 2 ^ 64" "d = s \<or> n \<le> unat (d - s)"
  shows "copy_fwd m d s n = copied m d s n"
  using assms
proof (induction n arbitrary: m d s)
  case 0
  then show ?case by (simp add: copied_def)
next
  case (Suc n)
  let ?m = "m(d := m s)"
  have IH: "copy_fwd ?m (d + 1) (s + 1) n = copied ?m (d + 1) (s + 1) n"
    using Suc.prems by (intro Suc.IH) auto
  have "copied ?m (d + 1) (s + 1) n x = copied m d s (Suc n) x" for x
  proof (cases "x = d")
    case True
    then show ?thesis using Suc.prems(1) by (simp add: copied_def unsigned_minus_1_eq_mask mask_eq_exp_minus_1)
  next
    case False
    then have u: "unat (x - (d + 1)) = unat (x - d) - 1" and pos: "0 < unat (x - d)"
      using unat_minus_1 [of "x - d"] by (auto simp: diff_diff_eq unat_gt_0)
    have "s + (x - d) \<noteq> d" if "unat (x - d) < Suc n"
    proof (cases "d = s")
      case True
      then show ?thesis using False by simp
    next
      case ds: False
      show ?thesis
      proof
        assume "s + (x - d) = d"
        then have "d - s = x - d" by (metis add_diff_cancel_left')
        then show False using that ds Suc.prems(2) by auto
      qed
    qed
    moreover have "s + 1 + (x - (d + 1)) = s + (x - d)" by simp
    moreover have "(unat (x - d) - 1 < n) = (unat (x - d) < Suc n)" using pos by auto
    ultimately show ?thesis using False u by (simp add: copied_def)
  qed
  then show ?case using IH by auto
qed

lemma copy_bwd_eq:
  assumes "n < 2 ^ 64" "d = s \<or> n \<le> unat (s - d)"
  shows "copy_bwd m (d + of_nat n) (s + of_nat n) n = copied m d s n"
  using assms
proof (induction n arbitrary: m)
  case 0
  then show ?case by (simp add: copied_def)
next
  case (Suc n)
  let ?m = "m(d + of_nat n := m (s + of_nat n))"
  have IH: "copy_bwd ?m (d + of_nat n) (s + of_nat n) n = copied ?m d s n"
    using Suc.prems by (intro Suc.IH) auto
  have "copied ?m d s n x = copied m d s (Suc n) x" for x
  proof -
    have xe: "x = d + of_nat n \<longleftrightarrow> unat (x - d) = n"
      using Suc.prems by (intro eq_offset_iff) simp
    have "s + (x - d) \<noteq> d + of_nat n" if "unat (x - d) < n"
    proof (cases "d = s")
      case True
      then show ?thesis using xe that by simp
    next
      case False
      show ?thesis
      proof
        assume "s + (x - d) = d + of_nat n"
        then have "s - d = of_nat n - (x - d)" by (simp add: algebra_simps)
        also have "\<dots> = of_nat (n - unat (x - d))" using that by simp
        finally have "unat (s - d) = n - unat (x - d)" using Suc.prems(1) by simp
        then show False using that False Suc.prems(2) by auto
      qed
    qed
    then show ?thesis using xe by (auto simp: copied_def)
  qed
  then show ?case using IH by (auto simp: algebra_simps)
qed

lemma unat_ucast_32 [simp]: "unat (ucast (n :: u32) :: u64) = unat n"
proof -
  have "unat n < 2 ^ 32" using unsigned_less [of n, where ?'a = nat] by simp
  then show ?thesis by (simp add: unsigned_ucast_eq take_bit_nat_eq_self)
qed


lemma unat_minus_nat: "b \<le> a \<Longrightarrow> unat (a - b) = unat a - unat b" for a b :: u64
  by (rule unat_sub)

lemma unat_minus_wrap: "a < b \<Longrightarrow> unat (a - b) = 2 ^ 64 - (unat b - unat a)" for a b :: u64
  by (simp add: unat_sub_if' word_less_nat_alt not_le)

lemma memmove_eq_copied:
  assumes "unat src + unat n < 2 ^ 64" "unat dst + unat n \<le> 2 ^ 64"
  shows "memmove m dst src n = copied m dst src (unat n)"
proof -
  have n64: "unat n < 2 ^ 64" using assms(1) by simp
  have sn: "unat (src + ucast n) = unat src + unat n"
    using assms(1) by (simp add: unat_word_ariths)
  consider "n = 0" | "n \<noteq> 0" "src < dst \<and> dst < src + ucast n"
    | "n \<noteq> 0" "\<not> (src < dst \<and> dst < src + ucast n)" by blast
  then show ?thesis
  proof cases
    case 1
    then show ?thesis by (simp add: memmove_def copied_def)
  next
    case 2
    then have "unat n \<le> unat (src - dst)"
      using assms by (simp add: unat_minus_wrap word_less_nat_alt sn)
    then have "copy_bwd m (dst + of_nat (unat n)) (src + of_nat (unat n)) (unat n) = copied m dst src (unat n)"
      using n64 by (intro copy_bwd_eq) auto
    moreover have "(of_nat (unat n) :: u64) = ucast n" by (simp add: word_unat_eq_iff)
    ultimately show ?thesis using 2 by (simp add: memmove_def)
  next
    case 3
    have "dst = src \<or> unat n \<le> unat (dst - src)"
    proof (cases "src < dst")
      case True
      then have "unat src + unat n \<le> unat dst" using 3 by (simp add: word_less_nat_alt sn)
      then show ?thesis using True by (intro disjI2) (simp add: unat_minus_nat less_imp_le)
    next
      case False
      then show ?thesis using assms by (auto simp: unat_minus_wrap word_less_nat_alt not_less
            le_less word_unat_eq_iff)
    qed
    then have "copy_fwd m dst src (unat n) = copied m dst src (unat n)"
      using n64 by (intro copy_fwd_eq) auto
    then show ?thesis using 3 by (auto simp: memmove_def)
  qed
qed

section \<open>Strings\<close>

lemma strlen_from_cstr:
  assumes "0 \<notin> set bs"
  shows "j \<le> length bs \<Longrightarrow> strlen_from (cstr bs) j = Some (length bs)"
proof (induction "length bs - j" arbitrary: j)
  case 0
  then show ?case by (simp add: strlen_from.simps [of _ j] cstr_def)
next
  case (Suc d)
  then have j: "j < length bs" by arith
  then have "bs ! j \<in> set bs" by simp
  then have "bs ! j \<noteq> 0" using assms by metis
  moreover have "strlen_from (cstr bs) (Suc j) = Some (length bs)" using Suc j by simp
  ultimately show ?case using j by (subst strlen_from.simps) (simp add: cstr_def)
qed

lemma strlen_cstr: "0 \<notin> set bs \<Longrightarrow> strlen (cstr bs) = Some (length bs)"
  using strlen_from_cstr [of bs 0] by (simp add: strlen_def)

lemma strncmp_refl: "strncmp p p n = 0"
  by (induction n arbitrary: p) auto

lemma strncmp_cstr_iff:
  "0 \<notin> set a \<Longrightarrow> 0 \<notin> set b \<Longrightarrow> strncmp (cstr a) (cstr b) n = 0 \<longleftrightarrow> take n a = take n b"
proof (induction n arbitrary: a b)
  case (Suc n)
  show ?case
    by (cases a; cases b) (use Suc in \<open>auto simp: word_uint_eq_iff [symmetric] uint_0_iff\<close>)
qed simp

lemma length_strncpy [simp]: "length (strncpy t n) = n"
  by (induction n arbitrary: t) auto

lemma strncpy_cstr:
  "0 \<notin> set bs \<Longrightarrow> strncpy (cstr bs) n = take n bs @ replicate (n - length bs) 0"
proof (induction n arbitrary: bs)
  case (Suc n)
  show ?case by (cases bs) (use Suc in auto)
qed simp

lemma length_safestrcpy: "0 < n \<Longrightarrow> length (safestrcpy t n) \<le> nat n"
proof -
  assume "0 < n"
  moreover have "length (safestrcpy_loop t k) \<le> Suc k" for k t
    by (induction k arbitrary: t) auto
  from this [of t "nat (n - 1)"] have "length (safestrcpy_loop t (nat (n - 1))) \<le> nat (n - 1) + 1"
    by simp
  ultimately show ?thesis by (simp add: safestrcpy_def nat_diff_distrib)
qed

section \<open>Properties\<close>

text \<open>C10: \<open>memmove\<close> copies correctly even when source and destination overlap: afterwards
  the destination holds the bytes the source held before the call, and no other byte of
  memory has changed. Neither range may run past the end of the address space.\<close>

theorem memmove_correct:
  assumes "unat src + unat n < 2 ^ 64" "unat dst + unat n \<le> 2 ^ 64"
  shows "load_bytes (memmove m dst src n) dst (unat n) = load_bytes m src (unat n) \<and>
    (\<forall>x. unat (x - dst) < unat n \<or> memmove m dst src n x = m x)"
proof -
  have "unat n < 2 ^ 64" using assms(1) by simp
  then have "load_bytes (memmove m dst src n) dst (unat n) = load_bytes m src (unat n)"
    using load_store_same [of "load_bytes m src (unat n)" m dst]
    by (simp add: memmove_eq_copied [OF assms] copied_eq_store)
  then show ?thesis by (simp add: memmove_eq_copied [OF assms] copied_def)
qed

text \<open>Five bytes moved up by two, onto themselves.\<close>

theorem memmove_correct_witness:
  "load_bytes (memmove (\<lambda>a. ucast a) 102 100 5) 102 5 = [100, 101, 102, 103, 104]"
  using memmove_correct [of 100 5 102 "\<lambda>a. ucast a"]
  by (simp add: load_bytes_def upt_rec)

end
