(* ===== verification/KPrintf.thy ===== *)
theory KPrintf
  imports CString
begin

text \<open>
  Formatted output: \<open>printint\<close>, \<open>printptr\<close> and the format interpreter of
  \<^verbatim>\<open>kernel/printf.c\<close>, and their counterparts in \<^verbatim>\<open>user/printf.c\<close>. The result of each
  function is the sequence of bytes it sends, in order. A format string is the list of its
  bytes before the NUL. A variadic argument is the 64-bit register that carries it, or a
  string pointer; using an argument that was not passed has no defined behaviour and is the
  result \<open>None\<close>.
\<close>

datatype vararg = Reg u64 | Ptr "u8 list option"

section \<open>Numbers\<close>

text \<open>The tables \<open>digits[]\<close> of the two files: lower case in the kernel, upper case in the library.\<close>

definition kdigit :: "nat \<Rightarrow> u8" where
  "kdigit d = str ''0123456789abcdef'' ! d"

definition udigit :: "nat \<Rightarrow> u8" where
  "udigit d = str ''0123456789ABCDEF'' ! d"

text \<open>The do-while loop that fills \<open>buf\<close> with the digits, least significant first.\<close>

function digits_loop :: "(nat \<Rightarrow> u8) \<Rightarrow> nat \<Rightarrow> nat \<Rightarrow> u8 list" where
  "digits_loop dg base x =
     dg (x mod base) # (if x div base \<noteq> 0 \<and> 1 < base then digits_loop dg base (x div base) else [])"
  by pat_completeness auto
termination
  by (relation "measure (\<lambda>(dg, base, x). x)") (auto simp: div_greater_zero_iff intro!: div_less_dividend)

declare digits_loop.simps [simp del]

text \<open>The contents of \<open>buf\<close> after the digit loop and the sign; \<open>x = -xx\<close> is the negation of an
  unsigned 64-bit value.\<close>

definition printint_buf :: "(nat \<Rightarrow> u8) \<Rightarrow> u64 \<Rightarrow> nat \<Rightarrow> bool \<Rightarrow> u8 list" where
  "printint_buf dg xx base sign =
     (let neg = sign \<and> sint xx < 0;
          x = (if neg then - xx else xx)
      in digits_loop dg base (unat x) @ (if neg then [45] else []))"

definition printint :: "u64 \<Rightarrow> nat \<Rightarrow> bool \<Rightarrow> u8 list" where
  "printint xx base sign = rev (printint_buf kdigit xx base sign)"

definition uprintint :: "u64 \<Rightarrow> nat \<Rightarrow> bool \<Rightarrow> u8 list" where
  "uprintint xx base sg = rev (printint_buf udigit xx base sg)"

fun printptr_loop :: "(nat \<Rightarrow> u8) \<Rightarrow> u64 \<Rightarrow> nat \<Rightarrow> u8 list" where
  "printptr_loop dg x 0 = []"
| "printptr_loop dg x (Suc k) = dg (unat (drop_bit 60 x)) # printptr_loop dg (push_bit 4 x) k"

definition printptr :: "u64 \<Rightarrow> u8 list" where
  "printptr x = [48, 120] @ printptr_loop kdigit x 16"

definition uprintptr :: "u64 \<Rightarrow> u8 list" where
  "uprintptr x = [48, 120] @ printptr_loop udigit x 16"

text \<open>\<open>consputc\<close> sends one character; the code \<open>BACKSPACE\<close> erases the last one.\<close>

definition consputc :: "u32 \<Rightarrow> u8 list" where
  "consputc c = (if c = 0x100 then [8, 32, 8] else [ucast c])"

section \<open>The kernel's format interpreter\<close>

definition byte_at :: "u8 list \<Rightarrow> nat \<Rightarrow> u8" where
  "byte_at cs i = (if i < length cs then cs ! i else 0)"

text \<open>\<open>va_arg(ap, int)\<close> takes the low 32 bits of the register, sign extended on the way to
  \<open>long long\<close>; \<open>va_arg(ap, uint32)\<close> is zero extended.\<close>

definition va_int :: "u64 \<Rightarrow> u64" where
  "va_int r = scast (ucast r :: u32)"

definition va_uint :: "u64 \<Rightarrow> u64" where
  "va_uint r = ucast (ucast r :: u32)"

text \<open>
  One conversion, the chain of tests on \<open>c0\<close>, \<open>c1\<close>, \<open>c2\<close> that both interpreters have: the bytes
  it prints, how many bytes of the format it takes after the \<open>%\<close>, and the arguments left. The
  parameters are the file's own \<open>printint\<close>, \<open>printptr\<close> and character output.
\<close>

definition next_reg :: "vararg list \<Rightarrow> (u64 \<Rightarrow> u8 list) \<Rightarrow> nat \<Rightarrow> (u8 list \<times> nat \<times> vararg list) option" where
  "next_reg ap f k = (case ap of Reg r # ap' \<Rightarrow> Some (f r, k, ap') | _ \<Rightarrow> None)"

definition conv :: "(u64 \<Rightarrow> nat \<Rightarrow> bool \<Rightarrow> u8 list) \<Rightarrow> (u64 \<Rightarrow> u8 list) \<Rightarrow> (u32 \<Rightarrow> u8 list) \<Rightarrow>
    u8 \<Rightarrow> u8 \<Rightarrow> u8 \<Rightarrow> vararg list \<Rightarrow> (u8 list \<times> nat \<times> vararg list) option" where
  "conv pint pptr pchar c0 c1 c2 ap =
    (if c0 = 100 then next_reg ap (\<lambda>r. pint (va_int r) 10 True) 1
     else if c0 = 108 \<and> c1 = 100 then next_reg ap (\<lambda>r. pint r 10 True) 2
     else if c0 = 108 \<and> c1 = 108 \<and> c2 = 100 then next_reg ap (\<lambda>r. pint r 10 True) 3
     else if c0 = 117 then next_reg ap (\<lambda>r. pint (va_uint r) 10 False) 1
     else if c0 = 108 \<and> c1 = 117 then next_reg ap (\<lambda>r. pint r 10 False) 2
     else if c0 = 108 \<and> c1 = 108 \<and> c2 = 117 then next_reg ap (\<lambda>r. pint r 10 False) 3
     else if c0 = 120 then next_reg ap (\<lambda>r. pint (va_uint r) 16 False) 1
     else if c0 = 108 \<and> c1 = 120 then next_reg ap (\<lambda>r. pint r 16 False) 2
     else if c0 = 108 \<and> c1 = 108 \<and> c2 = 120 then next_reg ap (\<lambda>r. pint r 16 False) 3
     else if c0 = 112 then next_reg ap pptr 1
     else if c0 = 99 then next_reg ap (\<lambda>r. pchar (ucast r)) 1
     else if c0 = 115 then
       (case ap of
          Ptr p # ap' \<Rightarrow> Some (case p of None \<Rightarrow> str ''(null)'' | Some s \<Rightarrow> s, 1, ap')
        | _ \<Rightarrow> None)
     else if c0 = 37 then Some ([37], 1, ap)
     else Some ([37, c0], 1, ap))"

function kprintf :: "u8 list \<Rightarrow> vararg list \<Rightarrow> u8 list option" where
  "kprintf [] ap = Some []"
| "kprintf (cx # fmt) ap =
    (if cx \<noteq> 37 then map_option ((@) (consputc (ucast cx))) (kprintf fmt ap)
     else
       let c0 = byte_at fmt 0;
           c1 = (if c0 \<noteq> 0 then byte_at fmt 1 else 0);
           c2 = (if c1 \<noteq> 0 then byte_at fmt 2 else 0) in
       if c0 = 0 then Some []
       else case conv printint printptr consputc c0 c1 c2 ap of
         None \<Rightarrow> None
       | Some (out, k, ap') \<Rightarrow> map_option ((@) out) (kprintf (drop k fmt) ap'))"
  by pat_completeness auto
termination
  by (relation "measure (\<lambda>(fmt, ap). length fmt)") auto

section \<open>The user library's format interpreter\<close>

text \<open>\<open>vprintf\<close> of \<^verbatim>\<open>user/printf.c\<close> walks the format with a state, 0 or \<open>'%'\<close>. A \<open>%\<close> at the
  end of the format leaves the loop in the second state with nothing printed.\<close>

function uvprintf :: "u8 list \<Rightarrow> bool \<Rightarrow> vararg list \<Rightarrow> u8 list option" where
  "uvprintf [] pct ap = Some []"
| "uvprintf (c0 # fmt) pct ap =
    (if \<not> pct then
       (if c0 = 37 then uvprintf fmt True ap
        else map_option ((@) [c0]) (uvprintf fmt False ap))
     else
       let c1 = (if c0 \<noteq> 0 then byte_at fmt 0 else 0);
           c2 = (if c1 \<noteq> 0 then byte_at fmt 1 else 0) in
       case conv uprintint uprintptr (\<lambda>c. [ucast c]) c0 c1 c2 ap of
         None \<Rightarrow> None
       | Some (out, k, ap') \<Rightarrow> map_option ((@) out) (uvprintf (drop (k - 1) fmt) False ap'))"
  by pat_completeness auto
termination
  by (relation "measure (\<lambda>(fmt, pct, ap). length fmt)") auto

section \<open>Correctness of the numbers\<close>

text \<open>Reading digits back, most significant first.\<close>

definition digit_val :: "u8 \<Rightarrow> nat" where
  "digit_val c = (if c < 58 then unat c - 48 else if c < 91 then unat c - 55 else unat c - 87)"

definition read_num :: "nat \<Rightarrow> u8 list \<Rightarrow> nat" where
  "read_num base cs = foldl (\<lambda>n c. n * base + digit_val c) 0 cs"

lemma digit_val_kdigit: "d < 16 \<Longrightarrow> digit_val (kdigit d) = d"
proof -
  have "\<forall>d<16. digit_val (kdigit d) = d" by code_simp
  then show "d < 16 \<Longrightarrow> digit_val (kdigit d) = d" by blast
qed

lemma digit_val_udigit: "d < 16 \<Longrightarrow> digit_val (udigit d) = d"
proof -
  have "\<forall>d<16. digit_val (udigit d) = d" by code_simp
  then show "d < 16 \<Longrightarrow> digit_val (udigit d) = d" by blast
qed

lemma read_num_snoc: "read_num base (cs @ [c]) = read_num base cs * base + digit_val c"
  by (simp add: read_num_def)

lemma read_num_digits_loop:
  assumes "1 < base" "\<And>d. d < base \<Longrightarrow> digit_val (dg d) = d"
  shows "read_num base (rev (digits_loop dg base x)) = x"
proof (induction x rule: less_induct)
  case (less x)
  show ?case
  proof (cases "x div base = 0")
    case True
    then have "x mod base = x" using assms(1) by (auto simp: div_eq_0_iff)
    then show ?thesis using True assms
      by (subst digits_loop.simps) (simp add: read_num_def div_eq_0_iff)
  next
    case False
    then have "x div base < x" using assms(1)
      by (auto simp: div_greater_zero_iff intro!: div_less_dividend)
    then have "read_num base (rev (digits_loop dg base (x div base))) = x div base" by (rule less)
    then show ?thesis using False assms
      by (subst digits_loop.simps) (simp add: read_num_snoc)
  qed
qed

lemma length_digits_loop:
  assumes "1 < base" "x < base ^ n" "0 < n"
  shows "length (digits_loop dg base x) \<le> n"
  using assms(2,3)
proof (induction n arbitrary: x)
  case (Suc n)
  show ?case
  proof (cases "x div base = 0")
    case True
    then show ?thesis by (subst digits_loop.simps) simp
  next
    case False
    then have "base \<le> x" by (metis assms(1) div_less linorder_not_less)
    then have "0 < n" using Suc.prems by (cases n) auto
    moreover have "x div base < base ^ n" using Suc.prems by (simp add: less_mult_imp_div_less mult.commute)
    ultimately show ?thesis using Suc.IH by (subst digits_loop.simps) auto
  qed
qed simp

lemma unat_neg: "unat (- x) = (if x = 0 then 0 else 18446744073709551616 - unat x)" for x :: u64
  using unat_sub_if' [of 0 x] by (simp add: word_le_nat_alt unat_eq_0)

lemma sint_neg_unat:
  fixes x :: u64
  assumes "sint x < 0"
  shows "9223372036854775808 \<le> unat x"
proof -
  have "9223372036854775808 \<le> uint x" using assms by (auto simp: sint_alt split: if_splits)
  then have "9223372036854775808 \<le> int (unat x)" by simp
  then show ?thesis by linarith
qed

text \<open>Every number fits in the 20 bytes of \<open>buf\<close>, the sign included.\<close>

lemma printint_buf_fits:
  assumes "base = 10 \<or> base = 16"
  shows "length (printint_buf dg xx base sg) \<le> 20"
proof (cases "sg \<and> sint xx < 0")
  case True
  then have "unat (- xx) \<le> 9223372036854775808"
    using sint_neg_unat [of xx] by (auto simp: unat_neg)
  then have "unat (- xx) < base ^ 19" using assms by auto
  then have "length (digits_loop dg base (unat (- xx))) \<le> 19"
    using assms by (intro length_digits_loop) auto
  then show ?thesis using True by (simp add: printint_buf_def)
next
  case False
  have "unat xx < base ^ 20" using unat_less_64 [of xx] assms by auto
  then have "length (digits_loop dg base (unat xx)) \<le> 20"
    using assms by (intro length_digits_loop) auto
  then show ?thesis using False by (auto simp: printint_buf_def)
qed

text \<open>A signed decimal as the reader of the output sees it.\<close>

definition read_int :: "u8 list \<Rightarrow> int" where
  "read_int cs = (case cs of [] \<Rightarrow> 0 | c # r \<Rightarrow> if c = 45 then - int (read_num 10 r) else int (read_num 10 cs))"

lemma digits_loop_not_Nil: "digits_loop dg base x \<noteq> []"
  by (subst digits_loop.simps) simp

lemma set_digits_loop: "0 < base \<Longrightarrow> set (digits_loop dg base x) \<subseteq> dg ` {..<base}"
proof (induction x rule: less_induct)
  case (less x)
  have "set (digits_loop dg base (x div base)) \<subseteq> dg ` {..<base}" if "x div base \<noteq> 0" "1 < base"
    using that less by (intro less.IH) (auto simp: div_greater_zero_iff intro!: div_less_dividend)
  then show ?case using less.prems by (subst digits_loop.simps) auto
qed

lemma kdigit_no_minus: "d < 16 \<Longrightarrow> kdigit d \<noteq> 45 \<and> udigit d \<noteq> 45"
proof -
  have "\<forall>d<16. kdigit d \<noteq> 45 \<and> udigit d \<noteq> 45" by code_simp
  then show "d < 16 \<Longrightarrow> kdigit d \<noteq> 45 \<and> udigit d \<noteq> 45" by blast
qed

lemma read_int_digits:
  "45 \<notin> set ds \<Longrightarrow> ds \<noteq> [] \<Longrightarrow> read_int ds = int (read_num 10 ds)"
  by (cases ds) (auto simp: read_int_def)

lemma read_int_printint_buf:
  assumes dg: "\<And>d. d < 10 \<Longrightarrow> digit_val (dg d) = d \<and> dg d \<noteq> 45"
  shows "read_int (rev (printint_buf dg xx 10 True)) = sint xx"
proof (cases "sint xx < 0")
  case True
  have "read_num 10 (rev (digits_loop dg 10 (unat (- xx)))) = unat (- xx)"
    using dg by (intro read_num_digits_loop) auto
  moreover have "sint xx = uint xx - 18446744073709551616"
    using True by (auto simp: sint_alt split: if_splits)
  moreover have "xx \<noteq> 0" using True by auto
  ultimately show ?thesis using True unat_less_64 [of xx]
    by (simp add: printint_buf_def read_int_def unat_neg of_nat_diff)
next
  case False
  have "45 \<notin> set (digits_loop dg 10 (unat xx))" using set_digits_loop [of 10 dg] dg by fastforce
  moreover have "read_num 10 (rev (digits_loop dg 10 (unat xx))) = unat xx"
    using dg by (intro read_num_digits_loop) auto
  moreover have "sint xx = uint xx"
    using False uint_lt2p [of xx] by (auto simp: sint_alt not_less split: if_splits)
  ultimately show ?thesis using False digits_loop_not_Nil
    by (simp add: printint_buf_def read_int_digits)
qed

lemmas digit_facts = digit_val_kdigit digit_val_udigit kdigit_no_minus

section \<open>Properties\<close>

text \<open>C11: the decimal output of the kernel's \<open>printint\<close> denotes the signed value it was
  given, for every 64-bit argument including the most negative one, and the characters
  produced in base 10 or 16 never overflow the buffer \<open>buf[20]\<close>.\<close>

theorem printint_denotes:
  "read_int (printint xx 10 True) = sint xx \<and>
   length (printint xx 10 sg) \<le> 20 \<and> length (printint xx 16 sg) \<le> 20"
  using read_int_printint_buf [of kdigit xx] digit_facts
    printint_buf_fits [of 10 kdigit xx sg] printint_buf_fits [of 16 kdigit xx sg]
  by (auto simp: printint_def)

end
