(* ===== verification/KState.thy ===== *)
theory KState
  imports KPrintf
begin

text \<open>
  The kernel state shared by memory management, processes and traps. It is a chain of
  records: \<open>mach\<close> holds what the page allocator and the page-table code touch, \<open>kproc\<close> adds
  the process table and the globals of \<^verbatim>\<open>kernel/proc.c\<close>, \<^verbatim>\<open>kernel/trap.c\<close> and
  \<^verbatim>\<open>kernel/crear_memoria_compartida.c\<close>. Operations are stated on the record schemes, so an
  operation of a lower layer applies to the states of the layers above it.

  A pointer into a kernel table (\<open>struct proc *\<close>, \<open>struct file *\<close>, \<open>struct inode *\<close>) is the
  optional index of the entry, with \<open>None\<close> for the null pointer. The trap frame of a process
  lives in the physical page \<open>p_trapframe\<close> and its registers are read and written there.
  Flags that the code only sets to 0 or 1 and only tests for zero are booleans.
\<close>

section \<open>Addresses the linker provides\<close>

record symtab =
  sym_end :: u64
  sym_etext :: u64
  sym_trampoline :: u64
  sym_uservec :: u64
  sym_userret :: u64
  sym_forkret :: u64
  sym_usertrap :: u64
  sym_kernelvec :: u64

section \<open>The machine\<close>

record mach =
  pmem :: phys
  freelist :: u64
  sym :: symtab
  conout :: "u8 list"
  kernel_pagetable :: u64
  satp :: u64

section \<open>Processes\<close>

datatype procstate = UNUSED | USED | SLEEPING | RUNNABLE | RUNNING | ZOMBIE

text \<open>The objects whose addresses serve as sleep channels.\<close>

datatype chan =
    ChProc nat
  | ChTicks
  | ChPipeRead u64
  | ChPipeWrite u64
  | ChLog
  | ChBufLock nat
  | ChInodeLock nat
  | ChCons
  | ChUartTx
  | ChDiskFree
  | ChBuf nat

record kcontext =
  ctx_ra :: u64
  ctx_sp :: u64
  ctx_s :: "u64 list"

record vregion =
  vr_start :: u64
  vr_size :: u32
  vr_active :: bool

record proc =
  p_shm_va :: u64
  p_usar_memoria_compartida :: bool
  p_trace_mask :: u32
  p_map_ro_va :: u64
  p_state :: procstate
  p_chan :: "chan option"
  p_killed :: bool
  p_xstate :: u32
  p_pid :: u32
  p_parent :: "nat option"
  p_kstack :: u64
  p_sz :: u64
  p_pagetable :: u64
  p_trapframe :: u64
  p_context :: kcontext
  p_ofile :: "nat option list"
  p_cwd :: "nat option"
  p_name :: "u8 list"
  p_pagefault_count :: u32
  p_vr :: vregion

abbreviation (input) NPROC :: nat where "NPROC \<equiv> 64"
abbreviation (input) NOFILE :: nat where "NOFILE \<equiv> 16"

record kproc = mach +
  procs :: "proc list"
  cur :: "nat option"
  nextpid :: u32
  initproc :: "nat option"
  ticks :: u32
  shared_page :: u64
  refcount :: u32

type_synonym 'a ks = "'a kproc_scheme"

section \<open>Access\<close>

definition setp :: "nat \<Rightarrow> (proc \<Rightarrow> proc) \<Rightarrow> 'a kproc_scheme \<Rightarrow> 'a kproc_scheme" where
  "setp i f s = s\<lparr>procs := (procs s)[i := f (procs s ! i)]\<rparr>"

definition getp :: "'a kproc_scheme \<Rightarrow> nat \<Rightarrow> proc" where
  "getp s i = procs s ! i"

text \<open>The process running on this CPU; dereferencing a null \<open>myproc()\<close> is a kernel fault.\<close>

definition myproc :: "'a kproc_scheme \<Rightarrow> nat option" where
  "myproc s = cur s"

lemma setp_simps [simp]:
  "pmem (setp i f s) = pmem s" "freelist (setp i f s) = freelist s" "sym (setp i f s) = sym s"
  "conout (setp i f s) = conout s" "kernel_pagetable (setp i f s) = kernel_pagetable s"
  "satp (setp i f s) = satp s" "cur (setp i f s) = cur s" "nextpid (setp i f s) = nextpid s"
  "initproc (setp i f s) = initproc s" "ticks (setp i f s) = ticks s"
  "shared_page (setp i f s) = shared_page s" "refcount (setp i f s) = refcount s"
  "length (procs (setp i f s)) = length (procs s)"
  by (simp_all add: setp_def)

lemma getp_setp: "i < length (procs s) \<Longrightarrow> getp (setp i f s) j = (if i = j then f (getp s i) else getp s j)"
  by (simp add: getp_def setp_def nth_list_update)

lemma getp_setp_same [simp]: "i < length (procs s) \<Longrightarrow> getp (setp i f s) i = f (getp s i)"
  by (simp add: getp_setp)

lemma getp_setp_other [simp]: "i \<noteq> j \<Longrightarrow> getp (setp i f s) j = getp s j"
  by (simp add: getp_def setp_def)

text \<open>The kernel's \<open>printf\<close> appends to the console output.\<close>

definition kprint :: "string \<Rightarrow> vararg list \<Rightarrow> 'a mach_scheme \<Rightarrow> 'a mach_scheme option" where
  "kprint fmt ap s = map_option (\<lambda>bs. s\<lparr>conout := conout s @ bs\<rparr>) (kprintf (str fmt) ap)"

text \<open>Byte offsets of the trap frame's registers (\<^verbatim>\<open>struct trapframe\<close>, \<^verbatim>\<open>kernel/proc.h\<close>).\<close>

abbreviation (input) TF_kernel_satp :: u64 where "TF_kernel_satp \<equiv> 0"
abbreviation (input) TF_kernel_sp :: u64 where "TF_kernel_sp \<equiv> 8"
abbreviation (input) TF_kernel_trap :: u64 where "TF_kernel_trap \<equiv> 16"
abbreviation (input) TF_epc :: u64 where "TF_epc \<equiv> 24"
abbreviation (input) TF_kernel_hartid :: u64 where "TF_kernel_hartid \<equiv> 32"
abbreviation (input) TF_sp :: u64 where "TF_sp \<equiv> 48"
abbreviation (input) TF_a0 :: u64 where "TF_a0 \<equiv> 112"
abbreviation (input) TF_a1 :: u64 where "TF_a1 \<equiv> 120"
abbreviation (input) TF_a2 :: u64 where "TF_a2 \<equiv> 128"
abbreviation (input) TF_a3 :: u64 where "TF_a3 \<equiv> 136"
abbreviation (input) TF_a4 :: u64 where "TF_a4 \<equiv> 144"
abbreviation (input) TF_a5 :: u64 where "TF_a5 \<equiv> 152"
abbreviation (input) TF_a7 :: u64 where "TF_a7 \<equiv> 168"

definition tf_get :: "'a kproc_scheme \<Rightarrow> nat \<Rightarrow> u64 \<Rightarrow> u64" where
  "tf_get s i off = load64 (pmem s) (p_trapframe (getp s i) + off)"

definition tf_set :: "nat \<Rightarrow> u64 \<Rightarrow> u64 \<Rightarrow> 'a kproc_scheme \<Rightarrow> 'a kproc_scheme" where
  "tf_set i off v s = s\<lparr>pmem := store64 (pmem s) (p_trapframe (getp s i) + off) v\<rparr>"

end
