(* ===== verification/Kalloc.thy ===== *)
theory Kalloc
  imports KState
begin

text \<open>
  The physical page allocator, \<^verbatim>\<open>kernel/kalloc.c\<close>. Free pages form a linked list through
  their own first eight bytes (\<open>struct run\<close>), headed by \<open>kmem.freelist\<close>. The lock that
  protects the list makes each operation atomic. The representation predicate \<open>free_rep\<close>
  relates the linked list to the list of free pages it stands for, and the locale
  \<open>page_allocator\<close> states what the rest of the kernel relies on.
\<close>

section \<open>Operations\<close>

definition kfree :: "u64 \<Rightarrow> 'a mach_scheme \<Rightarrow> 'a mach_scheme option" where
  "kfree pa s =
     (if pa mod PGSIZE \<noteq> 0 \<or> pa < sym_end (sym s) \<or> PHYSTOP \<le> pa then panic ''kfree''
      else
        let m = memset (pmem s) pa 1 4096;
            m = store64 m pa (freelist s)
        in Some (s\<lparr>pmem := m, freelist := pa\<rparr>))"

definition kalloc :: "'a mach_scheme \<Rightarrow> u64 \<times> 'a mach_scheme" where
  "kalloc s =
     (let r = freelist s;
          s = (if r \<noteq> 0 then s\<lparr>freelist := load64 (pmem s) r\<rparr> else s);
          s = (if r \<noteq> 0 then s\<lparr>pmem := memset (pmem s) r 5 4096\<rparr> else s)
      in (r, s))"

text \<open>The loop of \<open>freerange\<close>. It ends because \<open>kfree\<close> panics at \<open>PHYSTOP\<close> at the latest.\<close>

function freerange_loop :: "u64 \<Rightarrow> u64 \<Rightarrow> 'a mach_scheme \<Rightarrow> 'a mach_scheme option" where
  "freerange_loop p pa_end s =
     (if p + PGSIZE \<le> pa_end
      then Option.bind (kfree p s) (\<lambda>s. freerange_loop (p + PGSIZE) pa_end s)
      else Some s)"
  by pat_completeness auto
termination
proof (relation "measure (\<lambda>(p, e, s). 0x88001000 - unat p)")
  fix p pa_end :: u64 and s s' :: "'a mach_scheme"
  assume "kfree p s = Some s'"
  then have "p < 0x88000000" by (auto simp: kfree_def Let_def split: if_splits)
  then have "unat p < 0x88000000" by (simp add: word_less_nat_alt)
  moreover from this have "unat (p + 4096) = unat p + 4096"
    by (subst unat_add_lem [THEN iffD1]) auto
  ultimately show "((p + 4096, pa_end, s'), p, pa_end, s) \<in> measure (\<lambda>(p, e, s). 0x88001000 - unat p)"
    by simp
qed simp

declare freerange_loop.simps [simp del]

definition freerange :: "u64 \<Rightarrow> u64 \<Rightarrow> 'a mach_scheme \<Rightarrow> 'a mach_scheme option" where
  "freerange pa_start pa_end s = freerange_loop (PGROUNDUP pa_start) pa_end s"

definition kinit :: "'a mach_scheme \<Rightarrow> 'a mach_scheme option" where
  "kinit s = freerange (sym_end (sym s)) PHYSTOP s"

section \<open>The free list\<close>

text \<open>\<open>free_rep a ps m\<close>: starting at address \<open>a\<close>, the links stored in memory \<open>m\<close> run through
  exactly the pages \<open>ps\<close>.\<close>

fun free_rep :: "u64 \<Rightarrow> u64 list \<Rightarrow> phys \<Rightarrow> bool" where
  "free_rep a [] m \<longleftrightarrow> a = 0"
| "free_rep a (p # ps) m \<longleftrightarrow> a = p \<and> p \<noteq> 0 \<and> free_rep (load64 m p) ps m"

definition page_in_ram :: "'a mach_scheme \<Rightarrow> u64 \<Rightarrow> bool" where
  "page_in_ram s p \<longleftrightarrow> aligned p \<and> p \<noteq> 0 \<and> sym_end (sym s) \<le> p \<and> p < PHYSTOP"

definition kmem_inv :: "'a mach_scheme \<Rightarrow> u64 set \<Rightarrow> bool" where
  "kmem_inv s F \<longleftrightarrow>
     (\<forall>p\<in>F. page_in_ram s p) \<and>
     (\<exists>ps. free_rep (freelist s) ps (pmem s) \<and> distinct ps \<and> set ps = F)"

lemma page_in_ram_aligned [simp, dest]: "page_in_ram s p \<Longrightarrow> aligned p"
  by (simp add: page_in_ram_def)

lemma page_in_ram_cong: "sym s' = sym s \<Longrightarrow> page_in_ram s' p = page_in_ram s p"
  by (simp add: page_in_ram_def)

lemma load64_link: "same_off P m m' \<Longrightarrow> aligned p \<Longrightarrow> p \<notin> P \<Longrightarrow> load64 m' p = load64 m p"
  using load64_same_off [of P m m' p 0] by simp

lemma free_rep_same_off:
  "same_off P m m' \<Longrightarrow> \<forall>p\<in>set ps. aligned p \<and> p \<notin> P \<Longrightarrow> free_rep a ps m' = free_rep a ps m"
  by (induction ps arbitrary: a) (auto simp: load64_link)

text \<open>The list is unaffected by writes to pages that are not free.\<close>

lemma kmem_inv_frame:
  assumes "kmem_inv s F" "same_off P (pmem s) (pmem s')" "P \<inter> F = {}"
    and "freelist s' = freelist s" "sym s' = sym s"
  shows "kmem_inv s' F"
proof -
  obtain ps where ps: "free_rep (freelist s) ps (pmem s)" "distinct ps" "set ps = F"
    using assms(1) by (auto simp: kmem_inv_def)
  moreover have "\<forall>p\<in>set ps. aligned p \<and> p \<notin> P"
    using assms(1,3) ps(3) by (auto simp: kmem_inv_def)
  ultimately have "free_rep (freelist s') ps (pmem s')"
    using free_rep_same_off [OF assms(2)] assms(4) by auto
  then show ?thesis
    using assms(1,5) ps by (auto simp: kmem_inv_def page_in_ram_def)
qed

lemma memset_page [simp]: "memset m pa c 4096 = fill_bytes m pa (ucast c) 4096"
  by (simp add: memset_eq)

lemma kalloc_empty: "kmem_inv s {} \<Longrightarrow> kalloc s = (0, s)"
  by (auto simp: kmem_inv_def kalloc_def)

lemma kalloc_take:
  assumes "kmem_inv s F" "F \<noteq> {}"
  obtains r s' where "kalloc s = (r, s')" "r \<in> F" "r \<noteq> 0" "kmem_inv s' (F - {r})"
    "s' = s\<lparr>freelist := freelist s', pmem := fill_bytes (pmem s) r 5 4096\<rparr>"
proof -
  obtain ps where ps: "free_rep (freelist s) ps (pmem s)" "distinct ps" "set ps = F"
    using assms(1) by (auto simp: kmem_inv_def)
  then obtain r qs where qs: "ps = r # qs" using assms(2) by (cases ps) auto
  have r: "freelist s = r" "r \<noteq> 0" "r \<in> F" "aligned r" "free_rep (load64 (pmem s) r) qs (pmem s)"
    using ps qs assms(1) by (auto simp: kmem_inv_def)
  let ?m = "fill_bytes (pmem s) r 5 4096"
  let ?s = "s\<lparr>freelist := load64 (pmem s) r, pmem := ?m\<rparr>"
  have "\<forall>p\<in>set qs. aligned p \<and> p \<notin> {r}"
    using ps qs assms(1) by (auto simp: kmem_inv_def)
  then have "free_rep (load64 (pmem s) r) qs ?m"
    using r(5) free_rep_same_off [OF same_off_fill [OF r(4)]] by blast
  moreover have "set qs = F - {r}" "distinct qs" using ps qs by auto
  ultimately have "kmem_inv ?s (F - {r})"
    using assms(1) by (auto simp: kmem_inv_def page_in_ram_def)
  moreover have "kalloc s = (r, ?s)" using r by (simp add: kalloc_def)
  ultimately show thesis using that [of r ?s] r by simp
qed

lemma kfree_give:
  assumes "kmem_inv s F" "page_in_ram s p" "p \<notin> F"
  obtains s' where "kfree p s = Some s'" "kmem_inv s' (insert p F)"
    "s' = s\<lparr>freelist := p, pmem := store64 (fill_bytes (pmem s) p 1 4096) p (freelist s)\<rparr>"
proof -
  obtain ps where ps: "free_rep (freelist s) ps (pmem s)" "distinct ps" "set ps = F"
    using assms(1) by (auto simp: kmem_inv_def)
  let ?m = "store64 (fill_bytes (pmem s) p 1 4096) p (freelist s)"
  let ?s = "s\<lparr>freelist := p, pmem := ?m\<rparr>"
  have p: "aligned p" "p \<noteq> 0" "sym_end (sym s) \<le> p" "p < PHYSTOP"
    using assms(2) by (auto simp: page_in_ram_def)
  have off: "same_off {p} (pmem s) ?m"
    using same_off_trans [OF same_off_fill [OF p(1)] same_off_store64 [OF p(1), of 0]] by simp
  have "\<forall>q\<in>set ps. aligned q \<and> q \<notin> {p}"
    using ps assms(1,3) by (auto simp: kmem_inv_def)
  then have "free_rep p (p # ps) ?m"
    using ps(1) p free_rep_same_off [OF off] by simp
  moreover have "distinct (p # ps)" "set (p # ps) = insert p F" using ps assms(3) by auto
  ultimately have "kmem_inv ?s (insert p F)"
    using assms(1,2) unfolding kmem_inv_def page_in_ram_def
    by (intro conjI exI [of _ "p # ps"]) auto
  moreover have "kfree p s = Some ?s"
    using p by (simp add: kfree_def aligned_def not_le not_less Let_def)
  ultimately show thesis using that [of ?s] by simp
qed

section \<open>The allocator's interface\<close>

text \<open>
  What the kernel relies on: allocation hands out a free page and only touches that page,
  freeing takes back a page that is not free, and every free page is a page of memory.
\<close>

locale page_allocator =
  fixes rep :: "'s \<Rightarrow> u64 set \<Rightarrow> bool"
    and mem :: "'s \<Rightarrow> phys"
    and valid :: "'s \<Rightarrow> u64 \<Rightarrow> bool"
    and alloc :: "'s \<Rightarrow> u64 \<times> 's"
    and free :: "u64 \<Rightarrow> 's \<Rightarrow> 's option"
  assumes alloc_none: "rep s {} \<Longrightarrow> alloc s = (0, s)"
    and alloc_some: "rep s F \<Longrightarrow> F \<noteq> {} \<Longrightarrow> alloc s = (r, s') \<Longrightarrow>
      r \<in> F \<and> r \<noteq> 0 \<and> rep s' (F - {r}) \<and> same_off {r} (mem s) (mem s') \<and> valid s' = valid s"
    and free_some: "rep s F \<Longrightarrow> valid s p \<Longrightarrow> p \<notin> F \<Longrightarrow>
      \<exists>s'. free p s = Some s' \<and> rep s' (insert p F) \<and> same_off {p} (mem s) (mem s') \<and>
        valid s' = valid s"
    and rep_valid: "rep s F \<Longrightarrow> p \<in> F \<Longrightarrow> valid s p"
    and rep_finite: "rep s F \<Longrightarrow> finite F"

text \<open>A client that allocates \<open>n\<close> pages in a row, and one that frees a list of pages.\<close>

fun alloc_many :: "('s \<Rightarrow> u64 \<times> 's) \<Rightarrow> nat \<Rightarrow> 's \<Rightarrow> u64 list \<times> 's" where
  "alloc_many alloc 0 s = ([], s)"
| "alloc_many alloc (Suc n) s =
     (let (r, s) = alloc s; (rs, s) = alloc_many alloc n s in (r # rs, s))"

fun free_many :: "(u64 \<Rightarrow> 's \<Rightarrow> 's option) \<Rightarrow> u64 list \<Rightarrow> 's \<Rightarrow> 's option" where
  "free_many free [] s = Some s"
| "free_many free (p # ps) s = Option.bind (free p s) (free_many free ps)"

context page_allocator
begin

lemma alloc_many_distinct:
  "rep s F \<Longrightarrow> n \<le> card F \<Longrightarrow> alloc_many alloc n s = (rs, s') \<Longrightarrow>
     length rs = n \<and> distinct rs \<and> set rs \<subseteq> F \<and> 0 \<notin> set rs \<and> rep s' (F - set rs) \<and>
     same_off (set rs) (mem s) (mem s') \<and> valid s' = valid s"
proof (induction n arbitrary: s F rs)
  case (Suc n)
  obtain r t where a: "alloc s = (r, t)" by fastforce
  obtain qs where qs: "alloc_many alloc n t = (qs, s')" "rs = r # qs"
    using Suc.prems(3) a by (auto split: prod.splits)
  have ne: "F \<noteq> {}" using Suc.prems(2) by auto
  note r = alloc_some [OF Suc.prems(1) ne a]
  have "n \<le> card (F - {r})" using r Suc.prems(2) rep_finite [OF Suc.prems(1)] by simp
  with Suc.IH [OF _ this qs(1)] r
  have IH: "length qs = n" "distinct qs" "set qs \<subseteq> F - {r}" "0 \<notin> set qs"
    "rep s' (F - {r} - set qs)" "same_off (set qs) (mem t) (mem s')" "valid s' = valid t"
    by auto
  moreover have "F - {r} - set qs = F - set rs" using qs by auto
  moreover have "same_off (set rs) (mem s) (mem s')"
    using same_off_trans [of "{r}" "mem s" "mem t" "set qs" "mem s'"] r IH(6) qs by simp
  ultimately show ?case using r qs by auto
qed auto

lemma alloc_exhausted: "rep s F \<Longrightarrow> alloc s = (0, s') \<Longrightarrow> F = {} \<and> s' = s"
  using alloc_none alloc_some by (metis prod.inject)

lemma free_many_all:
  "rep s F \<Longrightarrow> distinct ps \<Longrightarrow> \<forall>p\<in>set ps. valid s p \<Longrightarrow> set ps \<inter> F = {} \<Longrightarrow>
     \<exists>s'. free_many free ps s = Some s' \<and> rep s' (set ps \<union> F) \<and> valid s' = valid s"
proof (induction ps arbitrary: s F)
  case (Cons p ps)
  from free_some [of s F p] Cons.prems obtain t where
    t: "free p s = Some t" "rep t (insert p F)" "valid t = valid s" by auto
  then show ?case using Cons.IH [of t "insert p F"] Cons.prems by auto
qed auto

end

interpretation kmem: page_allocator kmem_inv pmem page_in_ram kalloc kfree
proof unfold_locales
  fix s s' :: "'a mach_scheme" and F r
  assume "kmem_inv s F" "F \<noteq> {}" "kalloc s = (r, s')"
  then show "r \<in> F \<and> r \<noteq> 0 \<and> kmem_inv s' (F - {r}) \<and> same_off {r} (pmem s) (pmem s') \<and>
      page_in_ram s' = page_in_ram s"
  proof -
    obtain q t where t: "kalloc s = (q, t)" "q \<in> F" "q \<noteq> 0" "kmem_inv t (F - {q})"
      "t = s\<lparr>freelist := freelist t, pmem := fill_bytes (pmem s) q 5 4096\<rparr>"
      using kalloc_take [OF \<open>kmem_inv s F\<close> \<open>F \<noteq> {}\<close>] by metis
    have "aligned q" using t(2) \<open>kmem_inv s F\<close> by (auto simp: kmem_inv_def)
    then have "same_off {q} (pmem s) (pmem t)" by (subst t(5)) (simp add: same_off_fill)
    moreover have "page_in_ram t = page_in_ram s"
      by (subst t(5)) (simp add: page_in_ram_def fun_eq_iff)
    ultimately show ?thesis using t \<open>kalloc s = (r, s')\<close> by auto
  qed
next
  fix s :: "'a mach_scheme" and F p
  assume a: "kmem_inv s F" "page_in_ram s p" "p \<notin> F"
  then obtain t where t: "kfree p s = Some t" "kmem_inv t (insert p F)"
    "t = s\<lparr>freelist := p, pmem := store64 (fill_bytes (pmem s) p 1 4096) p (freelist s)\<rparr>"
    by (rule kfree_give)
  have p: "aligned p" using a(2) by simp
  then have "same_off {p} (pmem s) (pmem t)"
    using same_off_trans [OF same_off_fill [OF p] same_off_store64 [OF p, of 0]] t(3) by simp
  moreover have "page_in_ram t = page_in_ram s"
    by (subst t(3)) (simp add: page_in_ram_def fun_eq_iff)
  ultimately show "\<exists>s'. kfree p s = Some s' \<and> kmem_inv s' (insert p F) \<and>
      same_off {p} (pmem s) (pmem s') \<and> page_in_ram s' = page_in_ram s"
    using t by blast
qed (auto simp: kmem_inv_def kalloc_empty)

section \<open>Initialisation\<close>

definition pages_from :: "u64 \<Rightarrow> u64 set" where
  "pages_from p = {q. aligned q \<and> p \<le> q \<and> q < PHYSTOP}"

lemma aligned_gap: "aligned p \<Longrightarrow> aligned q \<Longrightarrow> p < q \<Longrightarrow> unat p + 4096 \<le> unat q"
proof -
  assume "aligned p" "aligned q" "p < q"
  then obtain i j where "unat p = 4096 * i" "unat q = 4096 * j" "unat p < unat q"
    by (auto simp: aligned_unat word_less_nat_alt elim!: dvdE)
  then show ?thesis by auto
qed

lemma pages_from_step:
  assumes "aligned p" "p < PHYSTOP"
  shows "pages_from p = insert p (pages_from (p + PGSIZE))"
proof -
  have u: "unat (p + PGSIZE) = unat p + 4096"
    using assms(2) by (subst unat_add_lem [THEN iffD1]) (auto simp: word_less_nat_alt)
  have "q = p \<or> p + PGSIZE \<le> q" if "aligned q" "p \<le> q" for q
    using aligned_gap [OF assms(1) that(1)] that(2) u
    by (cases "p = q") (auto simp: word_le_nat_alt word_less_nat_alt word_unat_eq_iff)
  moreover have "p \<le> q" if "p + PGSIZE \<le> q" for q using that u by (simp add: word_le_nat_alt)
  ultimately show ?thesis using assms by (auto simp: pages_from_def)
qed

lemma freerange_loop_frees:
  "kmem_inv s F \<Longrightarrow> aligned p \<Longrightarrow> p \<noteq> 0 \<Longrightarrow> sym_end (sym s) \<le> p \<Longrightarrow> p \<le> PHYSTOP \<Longrightarrow>
     F \<inter> pages_from p = {} \<Longrightarrow>
     \<exists>s'. freerange_loop p PHYSTOP s = Some s' \<and> kmem_inv s' (F \<union> pages_from p) \<and> sym s' = sym s"
proof (induction p "PHYSTOP" s arbitrary: F rule: freerange_loop.induct)
  case (1 p s)
  show ?case
  proof (cases "p < PHYSTOP")
    case True
    have up: "unat (p + PGSIZE) = unat p + 4096"
      using True by (subst unat_add_lem [THEN iffD1]) (auto simp: word_less_nat_alt)
    then have le: "p + PGSIZE \<le> PHYSTOP" "p + PGSIZE \<noteq> 0" "p \<le> p + PGSIZE"
      using aligned_gap [OF "1.prems"(2) _ True] True
      by (auto simp: word_le_nat_alt word_unat_eq_iff aligned_unat word_less_nat_alt)
    have ram: "page_in_ram s p" "p \<notin> F"
      using "1.prems" True by (auto simp: page_in_ram_def pages_from_def)
    obtain t where t: "kfree p s = Some t" "kmem_inv t (insert p F)"
      "t = s\<lparr>freelist := p, pmem := store64 (fill_bytes (pmem s) p 1 4096) p (freelist s)\<rparr>"
      using kfree_give [OF "1.prems"(1) ram] by metis
    have sym: "sym t = sym s" by (subst t(3)) simp
    have "p \<notin> pages_from (p + PGSIZE)"
      using up by (auto simp: pages_from_def word_le_nat_alt)
    then have disj: "insert p F \<inter> pages_from (p + PGSIZE) = {}"
      using "1.prems"(6) pages_from_step [OF "1.prems"(2) True] by auto
    have "aligned (p + PGSIZE)" "sym_end (sym t) \<le> p + PGSIZE"
      using "1.prems"(2,4) sym le(3) by auto
    with "1.hyps" [OF le(1) t(1,2)] disj le obtain s' where
      "freerange_loop (p + PGSIZE) PHYSTOP t = Some s'"
      "kmem_inv s' (insert p F \<union> pages_from (p + PGSIZE))" "sym s' = sym t" by blast
    then show ?thesis
      using t(1) le(1) sym pages_from_step [OF "1.prems"(2) True]
      by (subst freerange_loop.simps) auto
  next
    case False
    then have "p = PHYSTOP" using "1.prems"(5) by simp
    then have "pages_from p = {}" "\<not> p + PGSIZE \<le> PHYSTOP" by (auto simp: pages_from_def)
    then show ?thesis using "1.prems"(1) by (subst freerange_loop.simps) auto
  qed
qed

section \<open>Properties\<close>

text \<open>C8: \<open>kinit\<close> succeeds on every machine whose kernel image ends in RAM, and leaves
  exactly the whole pages between the end of the kernel and \<open>PHYSTOP\<close> on the free list.\<close>

theorem kinit_frees_all:
  assumes "freelist s = 0" "KERNBASE \<le> sym_end (sym s)" "sym_end (sym s) \<le> PHYSTOP"
  shows "\<exists>s'. kinit s = Some s' \<and> kmem_inv s' (pages_from (PGROUNDUP (sym_end (sym s))))"
proof -
  let ?e = "sym_end (sym s)" and ?p = "PGROUNDUP (sym_end (sym s))"
  have e: "0x80000000 \<le> unat ?e" "unat ?e \<le> 0x88000000"
    using assms(2,3) by (auto simp: word_le_nat_alt)
  then have u: "unat ?p = (unat ?e + 4095) div 4096 * 4096" by (intro unat_PGROUNDUP) simp
  have "?e \<le> ?p" using u by (simp add: word_le_nat_alt)
  moreover have "?p \<noteq> 0" using u e(1) by (auto simp: word_unat_eq_iff)
  moreover have "(unat ?e + 4095) div 4096 \<le> 0x88000"
    using e(2) by (simp add: div_le_mono [of "unat ?e + 4095" "0x88000FFF" 4096, simplified])
  then have "?p \<le> PHYSTOP" using u by (simp add: word_le_nat_alt)
  moreover have "kmem_inv s {}" using assms(1) by (auto simp: kmem_inv_def intro: exI [of _ "[]"])
  ultimately show ?thesis
    using freerange_loop_frees [of s "{}" ?p] by (auto simp: kinit_def freerange_def)
qed

definition boot_mach :: mach where
  "boot_mach = \<lparr>pmem = (\<lambda>_. 0), freelist = 0,
     sym = \<lparr>sym_end = 0x80021d40, sym_etext = 0x80008000, sym_trampoline = 0x80007000,
       sym_uservec = 0x80007000, sym_userret = 0x8000709c, sym_forkret = 0x80001a10,
       sym_usertrap = 0x80002470, sym_kernelvec = 0x80005a10\<rparr>,
     conout = [], kernel_pagetable = 0, satp = 0\<rparr>"

theorem kinit_frees_all_witness:
  "\<exists>s'. kinit boot_mach = Some s' \<and> kmem_inv s' (pages_from (PGROUNDUP 0x80021d40))"
  using kinit_frees_all [of boot_mach] by (simp add: boot_mach_def)

text \<open>C9: as long as enough pages are free, allocating \<open>n\<close> pages in a row returns \<open>n\<close>
  different non-null pages that were free, removes exactly those from the free list, and
  changes no byte outside them.\<close>

theorem kalloc_many_distinct:
  assumes "kmem_inv s F" "n \<le> card F" "alloc_many kalloc n s = (rs, s')"
  shows "length rs = n \<and> distinct rs \<and> set rs \<subseteq> F \<and> 0 \<notin> set rs \<and>
    kmem_inv s' (F - set rs) \<and> same_off (set rs) (pmem s) (pmem s')"
  using kmem.alloc_many_distinct [OF assms] by simp

text \<open>A machine with the two free pages \<open>0x87FFE000\<close> and \<open>0x87FFF000\<close>.\<close>

definition two_free :: mach where
  "two_free = boot_mach\<lparr>pmem := store64 (\<lambda>_. 0) 0x87FFF000 0x87FFE000, freelist := 0x87FFF000\<rparr>"

lemma two_free_inv: "kmem_inv two_free {0x87FFF000, 0x87FFE000}"
proof -
  have "load64 (store64 (\<lambda>_. 0) 0x87FFF000 0x87FFE000) 0x87FFE000 = (0::u64)"
    by (simp add: load64_def store64_def load_bytes_def store_bytes_def upt_rec word_bytes_def)
  then have "free_rep (freelist two_free) [0x87FFF000, 0x87FFE000] (pmem two_free)"
    by (simp add: two_free_def)
  then show ?thesis unfolding kmem_inv_def
    by (intro conjI exI [of _ "[0x87FFF000, 0x87FFE000]"])
      (auto simp: page_in_ram_def two_free_def boot_mach_def aligned_def)
qed

theorem kalloc_many_distinct_witness:
  "2 \<le> card {0x87FFF000, 0x87FFE000 :: u64} \<and>
   distinct (fst (alloc_many kalloc 2 two_free)) \<and>
   kmem_inv (snd (alloc_many kalloc 2 two_free))
     ({0x87FFF000, 0x87FFE000} - set (fst (alloc_many kalloc 2 two_free)))"
  using kalloc_many_distinct [OF two_free_inv, of 2 "fst (alloc_many kalloc 2 two_free)"
      "snd (alloc_many kalloc 2 two_free)"] by simp

end
