(* ===== verification/VM.thy ===== *)
theory VM
  imports Kalloc
begin

text \<open>
  Virtual memory, \<^verbatim>\<open>kernel/vm.c\<close>: three-level page tables in physical memory, user address
  spaces, copying between user and kernel memory, and lazy allocation. \<open>walk\<close> returns the
  address of a page-table entry, with 0 for the null pointer; functions that return 0 or -1
  in the source return an \<open>int\<close> here. Kernel buffers that \<open>copyout\<close>, \<open>copyin\<close> and
  \<open>copyinstr\<close> read or fill are byte lists: the bytes to copy, or the bytes that reached the
  buffer. Loops over addresses stop because \<open>walk\<close> panics beyond \<open>MAXVA\<close>.
\<close>

section \<open>Walking page tables\<close>

fun walk_from :: "nat \<Rightarrow> u64 \<Rightarrow> u64 \<Rightarrow> bool \<Rightarrow> 'a mach_scheme \<Rightarrow> u64 \<times> 'a mach_scheme" where
  "walk_from 0 pagetable va alloc s = (pagetable + 8 * PX 0 va, s)"
| "walk_from (Suc l) pagetable va alloc s =
     (let pte = pagetable + 8 * PX (Suc l) va;
          v = load64 (pmem s) pte
      in if v AND PTE_V \<noteq> 0 then walk_from l (PTE2PA v) va alloc s
         else if \<not> alloc then (0, s)
         else let (pg, s) = kalloc s
              in if pg = 0 then (0, s)
                 else let m = memset (pmem s) pg 0 4096;
                          m = store64 m pte (PA2PTE pg OR PTE_V)
                      in walk_from l pg va alloc (s\<lparr>pmem := m\<rparr>))"

definition walk :: "u64 \<Rightarrow> u64 \<Rightarrow> bool \<Rightarrow> 'a mach_scheme \<Rightarrow> (u64 \<times> 'a mach_scheme) option" where
  "walk pagetable va alloc s =
     (if MAXVA \<le> va then panic ''walk'' else Some (walk_from 2 pagetable va alloc s))"

definition walkaddr :: "u64 \<Rightarrow> u64 \<Rightarrow> 'a mach_scheme \<Rightarrow> u64 option" where
  "walkaddr pagetable va s =
     (if MAXVA \<le> va then Some 0
      else do {
        (pte, s) \<leftarrow> walk pagetable va False s;
        if pte = 0 then Some 0
        else let v = load64 (pmem s) pte
             in if v AND PTE_V = 0 then Some 0
                else if v AND PTE_U = 0 then Some 0
                else Some (PTE2PA v)
      })"

definition ismapped :: "u64 \<Rightarrow> u64 \<Rightarrow> 'a mach_scheme \<Rightarrow> bool option" where
  "ismapped pagetable va s = do {
     (pte, s) \<leftarrow> walk pagetable va False s;
     if pte = 0 then Some False
     else Some (load64 (pmem s) pte AND PTE_V \<noteq> 0)
   }"

lemma walk_below: "walk pt va alloc s = Some r \<Longrightarrow> va < MAXVA"
  by (auto simp: walk_def split: if_splits)

lemma page_step_decreases:
  fixes a :: u64
  assumes "a < MAXVA"
  shows "0x4000001000 - unat (a + 4096) < 0x4000001000 - unat a"
proof -
  have "unat a < 0x4000000000" using assms by (simp add: word_less_nat_alt)
  moreover from this have "unat (a + 4096) = unat a + 4096"
    by (subst unat_add_lem [THEN iffD1]) auto
  ultimately show ?thesis by simp
qed

section \<open>Adding and removing mappings\<close>

function mappages_loop ::
  "u64 \<Rightarrow> u64 \<Rightarrow> u64 \<Rightarrow> u64 \<Rightarrow> u64 \<Rightarrow> 'a mach_scheme \<Rightarrow> (int \<times> 'a mach_scheme) option" where
  "mappages_loop pagetable a last_a pa perm s = do {
     (pte, s) \<leftarrow> walk pagetable a True s;
     if pte = 0 then Some (- 1, s)
     else if load64 (pmem s) pte AND PTE_V \<noteq> 0 then panic ''mappages: remap''
     else let s = s\<lparr>pmem := store64 (pmem s) pte (PA2PTE pa OR perm OR PTE_V)\<rparr>
          in if a = last_a then Some (0, s)
             else mappages_loop pagetable (a + PGSIZE) last_a (pa + PGSIZE) perm s
   }"
  by pat_completeness auto
termination
  by (relation "measure (\<lambda>(pt, a, _). 0x4000001000 - unat a)")
    (auto dest: walk_below intro: page_step_decreases)

declare mappages_loop.simps [simp del]

definition mappages ::
  "u64 \<Rightarrow> u64 \<Rightarrow> u64 \<Rightarrow> u64 \<Rightarrow> u64 \<Rightarrow> 'a mach_scheme \<Rightarrow> (int \<times> 'a mach_scheme) option" where
  "mappages pagetable va sz pa perm s =
     (if va mod PGSIZE \<noteq> 0 then panic ''mappages: va not aligned''
      else if sz mod PGSIZE \<noteq> 0 then panic ''mappages: size not aligned''
      else if sz = 0 then panic ''mappages: size''
      else mappages_loop pagetable va (va + sz - PGSIZE) pa perm s)"

definition uvmcreate :: "'a mach_scheme \<Rightarrow> u64 \<times> 'a mach_scheme" where
  "uvmcreate s =
     (let (pagetable, s) = kalloc s
      in if pagetable = 0 then (0, s)
         else (pagetable, s\<lparr>pmem := memset (pmem s) pagetable 0 4096\<rparr>))"

definition unmap_one :: "u64 \<Rightarrow> bool \<Rightarrow> 'a mach_scheme \<Rightarrow> 'a mach_scheme option" where
  "unmap_one pte do_free s =
     (if pte = 0 then Some s
      else let v = load64 (pmem s) pte
           in if v AND PTE_V = 0 then Some s
              else do {
                s \<leftarrow> (if do_free then kfree (PTE2PA v) s else Some s);
                Some (s\<lparr>pmem := store64 (pmem s) pte 0\<rparr>)
              })"

function uvmunmap_loop :: "u64 \<Rightarrow> u64 \<Rightarrow> u64 \<Rightarrow> bool \<Rightarrow> 'a mach_scheme \<Rightarrow> 'a mach_scheme option" where
  "uvmunmap_loop pagetable a va_end do_free s =
     (if a < va_end then do {
        (pte, s) \<leftarrow> walk pagetable a False s;
        s \<leftarrow> unmap_one pte do_free s;
        uvmunmap_loop pagetable (a + PGSIZE) va_end do_free s
      } else Some s)"
  by pat_completeness auto
termination
  by (relation "measure (\<lambda>(pt, a, _). 0x4000001000 - unat a)")
    (auto dest: walk_below intro: page_step_decreases)

declare uvmunmap_loop.simps [simp del]

definition uvmunmap :: "u64 \<Rightarrow> u64 \<Rightarrow> u64 \<Rightarrow> bool \<Rightarrow> 'a mach_scheme \<Rightarrow> 'a mach_scheme option" where
  "uvmunmap pagetable va npages do_free s =
     (if va mod PGSIZE \<noteq> 0 then panic ''uvmunmap: not aligned''
      else uvmunmap_loop pagetable va (va + npages * PGSIZE) do_free s)"

section \<open>Growing and shrinking\<close>

text \<open>\<open>npages\<close> is an \<open>int\<close> that becomes a \<open>uint64\<close> argument: truncated, then sign-extended.\<close>

definition uvmdealloc :: "u64 \<Rightarrow> u64 \<Rightarrow> u64 \<Rightarrow> 'a mach_scheme \<Rightarrow> (u64 \<times> 'a mach_scheme) option" where
  "uvmdealloc pagetable oldsz newsz s =
     (if oldsz \<le> newsz then Some (oldsz, s)
      else do {
        s \<leftarrow> (if PGROUNDUP newsz < PGROUNDUP oldsz
              then let npages = (ucast ((PGROUNDUP oldsz - PGROUNDUP newsz) div PGSIZE) :: u32)
                   in uvmunmap pagetable (PGROUNDUP newsz) (scast npages) True s
              else Some s);
        Some (newsz, s)
      })"

function uvmalloc_loop ::
  "u64 \<Rightarrow> u64 \<Rightarrow> u64 \<Rightarrow> u64 \<Rightarrow> u64 \<Rightarrow> 'a mach_scheme \<Rightarrow> (u64 \<times> 'a mach_scheme) option" where
  "uvmalloc_loop pagetable oldsz a newsz xperm s =
     (if a < newsz then
        (let (mem, s) = kalloc s
         in if mem = 0 then do { (_, s) \<leftarrow> uvmdealloc pagetable a oldsz s; Some (0, s) }
            else let s = s\<lparr>pmem := memset (pmem s) mem 0 4096\<rparr>
                 in do {
                   (r, s) \<leftarrow> mappages pagetable a PGSIZE mem (PTE_R OR PTE_U OR xperm) s;
                   if r \<noteq> 0 then do {
                     s \<leftarrow> kfree mem s;
                     (_, s) \<leftarrow> uvmdealloc pagetable a oldsz s;
                     Some (0, s)
                   } else uvmalloc_loop pagetable oldsz (a + PGSIZE) newsz xperm s
                 })
      else Some (newsz, s))"
  by pat_completeness auto
termination
proof (relation "measure (\<lambda>(pt, oldsz, a, _). 0x4000001000 - unat a)", goal_cases)
  case (2 pagetable oldsz a newsz xperm s x mem s1 s2 y r s3)
  then have "mappages_loop pagetable a (a + 4096 - 4096) mem (PTE_R OR PTE_U OR xperm) s2 = Some y"
    by (auto simp: mappages_def split: if_splits)
  then have "a < MAXVA"
    by (subst (asm) mappages_loop.simps) (auto simp: bind_Some_iff dest: walk_below)
  then show ?case by (simp add: page_step_decreases)
qed simp

declare uvmalloc_loop.simps [simp del]

definition uvmalloc ::
  "u64 \<Rightarrow> u64 \<Rightarrow> u64 \<Rightarrow> u64 \<Rightarrow> 'a mach_scheme \<Rightarrow> (u64 \<times> 'a mach_scheme) option" where
  "uvmalloc pagetable oldsz newsz xperm s =
     (if newsz < oldsz then Some (oldsz, s)
      else uvmalloc_loop pagetable (PGROUNDUP oldsz) (PGROUNDUP oldsz) newsz xperm s)"

section \<open>Freeing an address space\<close>

text \<open>\<open>freewalk_at pt i\<close> is the loop of \<open>freewalk\<close> from index \<open>i\<close> on. The recursion ends on
  well-formed tables; on others the value may be \<open>None\<close> because it does not.\<close>

partial_function (option) freewalk_at :: "u64 \<Rightarrow> nat \<Rightarrow> 'a mach_scheme \<Rightarrow> 'a mach_scheme option" where
  "freewalk_at pagetable i s =
     (if i < 512 then
        (let pte = load64 (pmem s) (pagetable + 8 * of_nat i)
         in if pte AND PTE_V \<noteq> 0 \<and> pte AND (PTE_R OR PTE_W OR PTE_X) = 0
            then Option.bind (freewalk_at (PTE2PA pte) 0 s)
                   (\<lambda>s. freewalk_at pagetable (Suc i)
                      (s\<lparr>pmem := store64 (pmem s) (pagetable + 8 * of_nat i) 0\<rparr>))
            else if pte AND PTE_V \<noteq> 0 then panic ''freewalk: leaf''
            else freewalk_at pagetable (Suc i) s)
      else kfree pagetable s)"

definition freewalk :: "u64 \<Rightarrow> 'a mach_scheme \<Rightarrow> 'a mach_scheme option" where
  "freewalk pagetable s = freewalk_at pagetable 0 s"

definition uvmfree :: "u64 \<Rightarrow> u64 \<Rightarrow> 'a mach_scheme \<Rightarrow> 'a mach_scheme option" where
  "uvmfree pagetable sz s = do {
     s \<leftarrow> (if 0 < sz then uvmunmap pagetable 0 (PGROUNDUP sz div PGSIZE) True s else Some s);
     freewalk pagetable s
   }"

section \<open>Copying an address space\<close>

function uvmcopy_loop :: "u64 \<Rightarrow> u64 \<Rightarrow> u64 \<Rightarrow> u64 \<Rightarrow> 'a mach_scheme \<Rightarrow> (int \<times> 'a mach_scheme) option" where
  "uvmcopy_loop old new i sz s =
     (if i < sz then do {
        (pte, s) \<leftarrow> walk old i False s;
        if pte = 0 then uvmcopy_loop old new (i + PGSIZE) sz s
        else let v = load64 (pmem s) pte
             in if v AND PTE_V = 0 then uvmcopy_loop old new (i + PGSIZE) sz s
                else let pa = PTE2PA v;
                         flags = PTE_FLAGS v;
                         (mem, s) = kalloc s
                     in if mem = 0 then do {
                          s \<leftarrow> uvmunmap new 0 (i div PGSIZE) True s;
                          Some (- 1, s)
                        }
                        else let s = s\<lparr>pmem := memmove (pmem s) mem pa 4096\<rparr>
                             in do {
                               (r, s) \<leftarrow> mappages new i PGSIZE mem flags s;
                               if r \<noteq> 0 then do {
                                 s \<leftarrow> kfree mem s;
                                 s \<leftarrow> uvmunmap new 0 (i div PGSIZE) True s;
                                 Some (- 1, s)
                               } else uvmcopy_loop old new (i + PGSIZE) sz s
                             }
      } else Some (0, s))"
  by pat_completeness auto
termination
  by (relation "measure (\<lambda>(old, new, i, _). 0x4000001000 - unat i)")
    (auto dest: walk_below intro: page_step_decreases)

declare uvmcopy_loop.simps [simp del]

definition uvmcopy :: "u64 \<Rightarrow> u64 \<Rightarrow> u64 \<Rightarrow> 'a mach_scheme \<Rightarrow> (int \<times> 'a mach_scheme) option" where
  "uvmcopy old new sz s = uvmcopy_loop old new 0 sz s"

definition uvmclear :: "u64 \<Rightarrow> u64 \<Rightarrow> 'a mach_scheme \<Rightarrow> 'a mach_scheme option" where
  "uvmclear pagetable va s = do {
     (pte, s) \<leftarrow> walk pagetable va False s;
     if pte = 0 then panic ''uvmclear''
     else Some (s\<lparr>pmem := store64 (pmem s) pte (load64 (pmem s) pte AND NOT PTE_U)\<rparr>)
   }"

section \<open>Lazy allocation and copying to and from user memory\<close>

text \<open>\<open>vmfault\<close> dereferences \<open>myproc()\<close>, which is null when no process runs.\<close>

definition vmfault :: "u64 \<Rightarrow> u64 \<Rightarrow> 'a kproc_scheme \<Rightarrow> (u64 \<times> 'a kproc_scheme) option" where
  "vmfault pagetable va s = do {
     i \<leftarrow> myproc s;
     let p = getp s i;
     if p_sz p \<le> va then Some (0, s)
     else do {
       let va = PGROUNDDOWN va;
       mapped \<leftarrow> ismapped pagetable va s;
       if mapped then Some (0, s)
       else let (mem, s) = kalloc s
            in if mem = 0 then Some (0, s)
               else let s = s\<lparr>pmem := memset (pmem s) mem 0 4096\<rparr>
                    in do {
                      (r, s) \<leftarrow> mappages (p_pagetable p) va PGSIZE mem (PTE_W OR PTE_U OR PTE_R) s;
                      if r \<noteq> 0 then do { s \<leftarrow> kfree mem s; Some (0, s) }
                      else Some (mem, s)
                    }
     }
   }"

lemma room_in_page: "unat (4096 - (a - PGROUNDDOWN a)) = 4096 - unat a mod 4096"
  for a :: u64
proof -
  have "a - PGROUNDDOWN a = a mod 4096" by (simp add: PGROUNDDOWN_alt)
  moreover have "a mod 4096 \<le> 4096" by (simp add: word_le_nat_alt unat_mod)
  ultimately show ?thesis by (simp add: unat_sub unat_mod)
qed

lemma room_in_page_pos: "0 < unat (4096 - (a - PGROUNDDOWN a))" for a :: u64
  by (simp add: room_in_page)

text \<open>The user page of \<open>va0\<close>, faulted in when it is missing; 0 when there is none.\<close>

definition user_page :: "u64 \<Rightarrow> u64 \<Rightarrow> 'a kproc_scheme \<Rightarrow> (u64 \<times> 'a kproc_scheme) option" where
  "user_page pagetable va0 s = do {
     pa0 \<leftarrow> walkaddr pagetable va0 s;
     if pa0 = 0 then vmfault pagetable va0 s else Some (pa0, s)
   }"

text \<open>A null \<open>pte\<close> in \<open>copyout\<close> would be dereferenced, which is a kernel fault.\<close>

function copyout :: "u64 \<Rightarrow> u64 \<Rightarrow> u8 list \<Rightarrow> 'a kproc_scheme \<Rightarrow> (int \<times> 'a kproc_scheme) option" where
  "copyout pagetable dstva src s =
     (if src = [] then Some (0, s)
      else let va0 = PGROUNDDOWN dstva
           in if MAXVA \<le> va0 then Some (- 1, s)
              else do {
                (pa0, s) \<leftarrow> user_page pagetable va0 s;
                if pa0 = 0 then Some (- 1, s)
                else do {
                  (pte, s) \<leftarrow> walk pagetable va0 False s;
                  if pte = 0 then panic ''kerneltrap''
                  else if load64 (pmem s) pte AND PTE_W = 0 then Some (- 1, s)
                  else let n = min (unat (PGSIZE - (dstva - va0))) (length src)
                       in copyout pagetable (va0 + PGSIZE) (drop n src)
                            (s\<lparr>pmem := store_bytes (pmem s) (pa0 + (dstva - va0)) (take n src)\<rparr>)
                }
              })"
  by pat_completeness auto
termination
  by (relation "measure (\<lambda>(pt, dstva, src, s). length src)") (auto simp: room_in_page_pos)

declare copyout.simps [simp del]

text \<open>\<open>copyin\<close> returns the bytes that reached \<open>dst\<close>, all \<open>len\<close> of them on success.\<close>

function copyin :: "u64 \<Rightarrow> u64 \<Rightarrow> nat \<Rightarrow> 'a kproc_scheme \<Rightarrow> (int \<times> u8 list \<times> 'a kproc_scheme) option" where
  "copyin pagetable srcva len s =
     (if len = 0 then Some (0, [], s)
      else let va0 = PGROUNDDOWN srcva
           in do {
             (pa0, s) \<leftarrow> user_page pagetable va0 s;
             if pa0 = 0 then Some (- 1, [], s)
             else let n = min (unat (PGSIZE - (srcva - va0))) len;
                      bs = load_bytes (pmem s) (pa0 + (srcva - va0)) n
                  in do {
                    (r, rest, s) \<leftarrow> copyin pagetable (va0 + PGSIZE) (len - n) s;
                    Some (r, bs @ rest, s)
                  }
           })"
  by pat_completeness auto
termination
  by (relation "measure (\<lambda>(pt, srcva, len, s). len)") (auto simp: room_in_page_pos)

declare copyin.simps [simp del]

text \<open>The inner loop of \<open>copyinstr\<close>: at most \<open>n\<close> bytes from \<open>p\<close>, up to and including a zero
  byte; the flag is \<open>got_null\<close>.\<close>

fun copystr_page :: "phys \<Rightarrow> u64 \<Rightarrow> nat \<Rightarrow> u8 list \<times> bool" where
  "copystr_page m p 0 = ([], False)"
| "copystr_page m p (Suc n) =
     (if m p = 0 then ([0], True)
      else let (bs, got) = copystr_page m (p + 1) n in (m p # bs, got))"

function copyinstr :: "u64 \<Rightarrow> u64 \<Rightarrow> nat \<Rightarrow> 'a mach_scheme \<Rightarrow> (int \<times> u8 list) option" where
  "copyinstr pagetable srcva max_n s =
     (if max_n = 0 then Some (- 1, [])
      else let va0 = PGROUNDDOWN srcva
           in do {
             pa0 \<leftarrow> walkaddr pagetable va0 s;
             if pa0 = 0 then Some (- 1, [])
             else let n = min (unat (PGSIZE - (srcva - va0))) max_n;
                      (bs, got_null) = copystr_page (pmem s) (pa0 + (srcva - va0)) n
                  in if got_null then Some (0, bs)
                     else do {
                       (r, rest) \<leftarrow> copyinstr pagetable (va0 + PGSIZE) (max_n - n) s;
                       Some (r, bs @ rest)
                     }
           })"
  by pat_completeness auto
termination
  by (relation "measure (\<lambda>(pt, srcva, max_n, s). max_n)") (auto simp: room_in_page_pos)

declare copyinstr.simps [simp del]

section \<open>Printing a page table\<close>

definition flag_str :: "u64 \<Rightarrow> u64 \<Rightarrow> string \<Rightarrow> vararg" where
  "flag_str pte b c = Ptr (Some (str (if pte AND b \<noteq> 0 then c else ''-'')))"

function vmprint_table :: "nat \<Rightarrow> string \<Rightarrow> u64 \<Rightarrow> nat list \<Rightarrow> 'a mach_scheme \<Rightarrow> 'a mach_scheme option" where
  "vmprint_table d pre pt [] s = Some s"
| "vmprint_table d pre pt (i # is) s =
     (let pte = load64 (pmem s) (pt + 8 * of_nat i);
          pa = PTE2PA pte
      in do {
        s \<leftarrow> (if pte AND PTE_V = 0 then Some s
              else do {
                s \<leftarrow> kprint (pre @ ''%d: pte 0x%lx pa 0x%lx [%s%s%s%s]'' @ [CHR 0x0A])
                       [Reg (of_nat i), Reg pte, Reg pa, flag_str pte PTE_R ''R'',
                        flag_str pte PTE_W ''W'', flag_str pte PTE_X ''X'', flag_str pte PTE_U ''U''] s;
                (if 0 < d \<and> pte AND (PTE_R OR PTE_W OR PTE_X) = 0
                 then vmprint_table (d - 1) (''.. '' @ pre) pa [0..<512] s
                 else Some s)
              });
        vmprint_table d pre pt is s
      })"
  by pat_completeness auto
termination
  by (relation "measures [\<lambda>(d, pre, pt, is, s). d, \<lambda>(d, pre, pt, is, s). length is]") auto

definition vmprint :: "u64 \<Rightarrow> 'a mach_scheme \<Rightarrow> 'a mach_scheme option" where
  "vmprint pagetable s = vmprint_table 2 ''..'' pagetable [0..<512] s"

section \<open>The kernel's page table\<close>

abbreviation (input) UART0 :: u64 where "UART0 \<equiv> 0x10000000"
abbreviation (input) VIRTIO0 :: u64 where "VIRTIO0 \<equiv> 0x10001000"
abbreviation (input) PLIC :: u64 where "PLIC \<equiv> 0x0c000000"

definition KSTACK :: "nat \<Rightarrow> u64" where
  "KSTACK p = TRAMPOLINE - (of_nat p + 1) * 2 * PGSIZE"

definition kvmmap :: "u64 \<Rightarrow> u64 \<Rightarrow> u64 \<Rightarrow> u64 \<Rightarrow> u64 \<Rightarrow> 'a mach_scheme \<Rightarrow> 'a mach_scheme option" where
  "kvmmap kpgtbl va pa sz perm s = do {
     (r, s) \<leftarrow> mappages kpgtbl va sz pa perm s;
     if r \<noteq> 0 then panic ''kvmmap'' else Some s
   }"

fun mapstacks_loop :: "u64 \<Rightarrow> nat list \<Rightarrow> 'a mach_scheme \<Rightarrow> 'a mach_scheme option" where
  "mapstacks_loop kpgtbl [] s = Some s"
| "mapstacks_loop kpgtbl (p # ps) s =
     (let (pa, s) = kalloc s
      in if pa = 0 then panic ''kalloc''
         else do {
           s \<leftarrow> kvmmap kpgtbl (KSTACK p) pa PGSIZE (PTE_R OR PTE_W) s;
           mapstacks_loop kpgtbl ps s
         })"

definition proc_mapstacks :: "u64 \<Rightarrow> 'a mach_scheme \<Rightarrow> 'a mach_scheme option" where
  "proc_mapstacks kpgtbl s = mapstacks_loop kpgtbl [0..<NPROC] s"

definition kvmmake :: "'a mach_scheme \<Rightarrow> (u64 \<times> 'a mach_scheme) option" where
  "kvmmake s =
     (let (kpgtbl, s) = kalloc s;
          s = s\<lparr>pmem := memset (pmem s) kpgtbl 0 4096\<rparr>;
          etext = sym_etext (sym s)
      in do {
        s \<leftarrow> kvmmap kpgtbl UART0 UART0 PGSIZE (PTE_R OR PTE_W) s;
        s \<leftarrow> kvmmap kpgtbl VIRTIO0 VIRTIO0 PGSIZE (PTE_R OR PTE_W) s;
        s \<leftarrow> kvmmap kpgtbl 0x100000 0x100000 PGSIZE (PTE_R OR PTE_W) s;
        s \<leftarrow> kvmmap kpgtbl PLIC PLIC 0x4000000 (PTE_R OR PTE_W) s;
        s \<leftarrow> kvmmap kpgtbl KERNBASE KERNBASE (etext - KERNBASE) (PTE_R OR PTE_X) s;
        s \<leftarrow> kvmmap kpgtbl etext etext (PHYSTOP - etext) (PTE_R OR PTE_W) s;
        s \<leftarrow> kvmmap kpgtbl TRAMPOLINE (sym_trampoline (sym s)) PGSIZE (PTE_R OR PTE_X) s;
        s \<leftarrow> proc_mapstacks kpgtbl s;
        Some (kpgtbl, s)
      })"

definition kvminit :: "'a mach_scheme \<Rightarrow> 'a mach_scheme option" where
  "kvminit s = do {
     (kpgtbl, s) \<leftarrow> kvmmake s;
     Some (s\<lparr>kernel_pagetable := kpgtbl\<rparr>)
   }"

definition MAKE_SATP :: "u64 \<Rightarrow> u64" where
  "MAKE_SATP pagetable = push_bit 60 8 OR drop_bit 12 pagetable"

definition kvminithart :: "'a mach_scheme \<Rightarrow> 'a mach_scheme" where
  "kvminithart s = s\<lparr>satp := MAKE_SATP (kernel_pagetable s)\<rparr>"

end
