(* ===== verification/VM_Table.thy ===== *)
theory VM_Table
  imports VM "HOL-Library.Sublist"
begin

text \<open>
  Page tables as trees. \<open>tbl m root p\<close> is the page that holds the table reached from \<open>root\<close>
  along the indices \<open>p\<close>, \<open>lookup m root va\<close> the leaf entry of an address. A table is
  well-formed when its pages are pages of RAM and no page serves two nodes. The lemmas say
  how a store to one entry, or to any page outside the table, changes the tree, and what
  \<open>walk\<close> returns.
\<close>

section \<open>Trees\<close>

definition pte_at :: "phys \<Rightarrow> u64 \<Rightarrow> nat \<Rightarrow> u64" where
  "pte_at m a i = load64 m (a + 8 * of_nat i)"

definition next_tbl :: "phys \<Rightarrow> nat \<Rightarrow> u64 \<Rightarrow> u64 option" where
  "next_tbl m i a = (let v = pte_at m a i in if v AND PTE_V \<noteq> 0 then Some (PTE2PA v) else None)"

fun tbl :: "phys \<Rightarrow> u64 \<Rightarrow> nat list \<Rightarrow> u64 option" where
  "tbl m a [] = Some a"
| "tbl m a (i # p) = Option.bind (next_tbl m i a) (\<lambda>b. tbl m b p)"

definition valid_path :: "nat list \<Rightarrow> bool" where
  "valid_path p \<longleftrightarrow> length p \<le> 2 \<and> (\<forall>i\<in>set p. i < 512)"

definition pt_pages :: "phys \<Rightarrow> u64 \<Rightarrow> u64 set" where
  "pt_pages m root = {a. \<exists>p. valid_path p \<and> tbl m root p = Some a}"

definition pt_wf :: "u64 set \<Rightarrow> phys \<Rightarrow> u64 \<Rightarrow> bool" where
  "pt_wf R m root \<longleftrightarrow>
     (\<forall>p a. valid_path p \<longrightarrow> tbl m root p = Some a \<longrightarrow> a \<in> R \<and> aligned a \<and> a \<noteq> 0) \<and>
     (\<forall>p q a. valid_path p \<longrightarrow> valid_path q \<longrightarrow> tbl m root p = Some a \<longrightarrow> tbl m root q = Some a \<longrightarrow> p = q)"

definition vpath :: "u64 \<Rightarrow> nat list" where
  "vpath va = [unat (PX 2 va), unat (PX 1 va)]"

definition vidx :: "u64 \<Rightarrow> nat" where
  "vidx va = unat (PX 0 va)"

definition lookup :: "phys \<Rightarrow> u64 \<Rightarrow> u64 \<Rightarrow> u64" where
  "lookup m root va = (case tbl m root (vpath va) of None \<Rightarrow> 0 | Some a \<Rightarrow> pte_at m a (vidx va))"

lemma tbl_append: "tbl m a (p @ q) = Option.bind (tbl m a p) (\<lambda>b. tbl m b q)"
  by (induction p arbitrary: a) (auto intro: Option.bind_cong)

lemma tbl_snoc: "tbl m a (p @ [i]) = Option.bind (tbl m a p) (next_tbl m i)"
  by (simp add: tbl_append)

lemma unat_PX_less [simp]: "unat (PX l va) < 512"
proof -
  have "PX l va = take_bit 9 (drop_bit (12 + 9 * l) va)"
    by (simp add: PX_def take_bit_eq_mask mask_eq_exp_minus_1)
  then have "unat (PX l va) = unat (drop_bit (12 + 9 * l) va) mod 512"
    by (simp add: take_bit_eq_mod unat_mod)
  then show ?thesis by simp
qed

lemma valid_vpath [simp]: "valid_path (vpath va)"
  by (simp add: valid_path_def vpath_def)

lemma vidx_less [simp]: "vidx va < 512"
  by (simp add: vidx_def)

lemma valid_path_snocD: "valid_path (p @ [i]) \<Longrightarrow> valid_path p \<and> i < 512 \<and> length p \<le> 1"
  by (auto simp: valid_path_def)

lemma valid_path_Nil [simp]: "valid_path []"
  by (simp add: valid_path_def)

lemma pt_wfD: "pt_wf R m root \<Longrightarrow> valid_path p \<Longrightarrow> tbl m root p = Some a \<Longrightarrow>
    a \<in> R \<and> aligned a \<and> a \<noteq> 0"
  unfolding pt_wf_def by blast

lemma pt_wf_inj: "pt_wf R m root \<Longrightarrow> valid_path p \<Longrightarrow> valid_path q \<Longrightarrow>
    tbl m root p = Some a \<Longrightarrow> tbl m root q = Some a \<Longrightarrow> p = q"
  unfolding pt_wf_def by blast

lemma pt_pagesI: "valid_path p \<Longrightarrow> tbl m root p = Some a \<Longrightarrow> a \<in> pt_pages m root"
  by (auto simp: pt_pages_def)

lemma root_in_pages [simp]: "root \<in> pt_pages m root"
  by (rule pt_pagesI [of "[]"]) auto

lemma pt_pages_R: "pt_wf R m root \<Longrightarrow> pt_pages m root \<subseteq> R"
  by (auto simp: pt_pages_def dest: pt_wfD)

section \<open>Stores\<close>

text \<open>Writing outside the table's pages leaves the tree as it is.\<close>

lemma pte_at_same_off: "same_off P m m' \<Longrightarrow> aligned a \<Longrightarrow> a \<notin> P \<Longrightarrow> i < 512 \<Longrightarrow> pte_at m' a i = pte_at m a i"
  by (simp add: pte_at_def load64_same_off)

lemma tbl_same_off:
  assumes wf: "pt_wf R m root" and off: "same_off P m m'" and P: "P \<inter> pt_pages m root = {}"
  shows "valid_path p \<Longrightarrow> tbl m' root p = tbl m root p"
proof (induction p rule: rev_induct)
  case (snoc i p)
  then have IH: "tbl m' root p = tbl m root p" and v: "valid_path p" "i < 512"
    using valid_path_snocD by auto
  show ?case
  proof (cases "tbl m root p")
    case (Some a)
    then have "aligned a" "a \<notin> P" using pt_wfD [OF wf v(1)] pt_pagesI [OF v(1)] P by auto
    then show ?thesis
      using IH Some v by (simp add: tbl_snoc next_tbl_def pte_at_same_off [OF off])
  qed (simp add: tbl_snoc IH)
qed simp

lemma pt_same_off:
  assumes "pt_wf R m root" "same_off P m m'" "P \<inter> pt_pages m root = {}"
  shows "pt_wf R m' root" "pt_pages m' root = pt_pages m root" "lookup m' root va = lookup m root va"
proof -
  note t = tbl_same_off [OF assms]
  show "pt_wf R m' root" using assms(1) t by (simp add: pt_wf_def)
  show "pt_pages m' root = pt_pages m root" using t by (auto simp: pt_pages_def)
  have "aligned a \<and> a \<notin> P" if "tbl m root (vpath va) = Some a" for a
    using pt_wfD [OF assms(1) _ that] pt_pagesI [OF _ that] assms(3) by auto
  then show "lookup m' root va = lookup m root va"
    using t [of "vpath va"] pte_at_same_off [OF assms(2)] by (auto simp: lookup_def split: option.splits)
qed

lemma pte_at_store:
  assumes "aligned a" "aligned b" "i < 512" "j < 512"
  shows "pte_at (store64 m (a + 8 * of_nat i) v) b j = (if a = b \<and> i = j then v else pte_at m b j)"
  using load64_store64_cell [OF assms, of m v] by (auto simp: pte_at_def)

text \<open>Writing the entry \<open>i\<close> of the table at path \<open>q\<close> changes only the subtree at \<open>q @ [i]\<close>.\<close>

lemma tbl_store:
  assumes wf: "pt_wf R m root" and q: "valid_path q" "tbl m root q = Some a" "i < 512"
  shows "valid_path p \<Longrightarrow> \<not> prefix (q @ [i]) p \<Longrightarrow>
    tbl (store64 m (a + 8 * of_nat i) v) root p = tbl m root p"
proof (induction p rule: rev_induct)
  case (snoc j p)
  let ?m = "store64 m (a + 8 * of_nat i) v"
  have v: "valid_path p" "j < 512" using snoc.prems(1) valid_path_snocD by auto
  have IH: "tbl ?m root p = tbl m root p" using snoc v by (auto simp: prefix_snoc)
  show ?case
  proof (cases "tbl m root p")
    case (Some b)
    have "b = a \<longrightarrow> j \<noteq> i"
      using pt_wf_inj [OF wf v(1) q(1)] Some q(2) snoc.prems(2) by (auto simp: prefix_snoc)
    moreover have "aligned a" "aligned b" using pt_wfD [OF wf] q v Some by auto
    ultimately have "next_tbl ?m j b = next_tbl m j b"
      using q(3) v(2) by (auto simp: next_tbl_def pte_at_store)
    then show ?thesis using IH Some by (simp add: tbl_snoc)
  qed (simp add: tbl_snoc IH)
qed simp

lemma tbl_store_here:
  assumes wf: "pt_wf R m root" and q: "valid_path q" "tbl m root q = Some a" "i < 512"
  shows "tbl (store64 m (a + 8 * of_nat i) v) root (q @ [i]) =
    (if v AND PTE_V \<noteq> 0 then Some (PTE2PA v) else None)"
proof -
  let ?m = "store64 m (a + 8 * of_nat i) v"
  have "\<not> prefix (q @ [i]) q" by (auto dest: prefix_length_le)
  then have "tbl ?m root q = Some a" using tbl_store [OF assms q(1)] q(2) by simp
  then show ?thesis using pt_wfD [OF wf q(1,2)] q(3) by (simp add: tbl_snoc next_tbl_def pte_at_store)
qed

text \<open>Leaf entries: addresses with different page numbers have different leaf entries.\<close>

lemma PX_eq: "PX l va = drop_bit (12 + 9 * l) va AND mask 9"
  by (simp add: PX_def mask_eq_exp_minus_1)

lemma bit_PGROUNDDOWN: "bit (PGROUNDDOWN a) n \<longleftrightarrow> 12 \<le> n \<and> bit a n"
proof -
  have "PGROUNDDOWN a = a AND NOT (mask 12)" by (simp add: PGROUNDDOWN_def mask_eq_exp_minus_1)
  then show ?thesis by (auto simp: bit_simps dest: bit_imp_le_length)
qed

lemma bit_PX: "bit (PX l va) n \<longleftrightarrow> n < 9 \<and> bit va (12 + 9 * l + n)"
  by (auto simp: PX_eq bit_simps)

lemma bit_above:
  fixes x :: "'a::len word"
  assumes "uint x < 2 ^ k" "k \<le> n"
  shows "\<not> bit x n"
proof
  assume "bit x n"
  then have b: "bit (uint x) n" by (auto simp: bit_uint_iff dest: bit_imp_le_length)
  have "take_bit k (uint x) = uint x" using assms(1) by (simp add: take_bit_int_eq_self)
  then have "bit (take_bit k (uint x)) n" using b by simp
  then show False using assms(2) by (simp add: bit_take_bit_iff)
qed

lemma below_MAXVA_bit: "va < MAXVA \<Longrightarrow> 38 \<le> n \<Longrightarrow> \<not> bit va n" for va :: u64
  by (rule bit_above [of va 38]) (simp_all add: word_less_def)

lemma PX_inj:
  assumes "va < MAXVA" "vb < MAXVA" "vpath va = vpath vb" "vidx va = vidx vb"
  shows "PGROUNDDOWN va = PGROUNDDOWN vb"
proof (rule bit_word_eqI)
  fix n :: nat assume "n < LENGTH(64)"
  have px: "PX 2 va = PX 2 vb" "PX 1 va = PX 1 vb" "PX 0 va = PX 0 vb"
    using assms(3,4) by (auto simp: vpath_def vidx_def word_unat_eq_iff)
  have b: "bit va (12 + 9 * l + k) = bit vb (12 + 9 * l + k)" if "l = 0 \<or> l = 1 \<or> l = 2" "k < 9" for l k
    using that px bit_PX by metis
  show "bit (PGROUNDDOWN va) n = bit (PGROUNDDOWN vb) n"
  proof (cases "12 \<le> n \<and> n < 38")
    case True
    then have "n = 12 + 9 * ((n - 12) div 9) + (n - 12) mod 9" by simp
    moreover have "(n - 12) div 9 < 3" using True by (auto simp: div_less_iff_less_mult)
    then have "(n - 12) div 9 = 0 \<or> (n - 12) div 9 = 1 \<or> (n - 12) div 9 = 2" by auto
    ultimately have "bit va n = bit vb n" using b [of "(n - 12) div 9" "(n - 12) mod 9"] by simp
    then show ?thesis by (simp add: bit_PGROUNDDOWN)
  next
    case False
    then show ?thesis
      using below_MAXVA_bit [OF assms(1), of n] below_MAXVA_bit [OF assms(2), of n]
      by (auto simp: bit_PGROUNDDOWN)
  qed
qed

lemma PX_page: "PGROUNDDOWN va = PGROUNDDOWN vb \<Longrightarrow> PX l va = PX l vb"
proof (rule bit_word_eqI)
  fix n assume eq: "PGROUNDDOWN va = PGROUNDDOWN vb"
  have "bit va (12 + 9 * l + n) = bit vb (12 + 9 * l + n)"
    using arg_cong [OF eq, of "\<lambda>w. bit w (12 + 9 * l + n)"] by (simp add: bit_PGROUNDDOWN)
  then show "bit (PX l va) n = bit (PX l vb) n" by (simp add: bit_PX)
qed

lemma lookup_page: "PGROUNDDOWN va = PGROUNDDOWN vb \<Longrightarrow> lookup m root va = lookup m root vb"
  by (simp add: lookup_def vpath_def vidx_def PX_page [of va vb] split: option.splits)

lemma lookup_store_leaf:
  assumes wf: "pt_wf R m root" and a: "tbl m root (vpath va) = Some a"
    and va: "va < MAXVA" "vb < MAXVA"
  shows "lookup (store64 m (a + 8 * of_nat (vidx va)) v) root vb =
    (if PGROUNDDOWN va = PGROUNDDOWN vb then v else lookup m root vb)"
proof -
  let ?m = "store64 m (a + 8 * of_nat (vidx va)) v"
  have np: "\<not> prefix (vpath va @ [vidx va]) (vpath vb)"
    by (auto simp: vpath_def)
  have t: "tbl ?m root (vpath vb) = tbl m root (vpath vb)"
    using tbl_store [OF wf valid_vpath a vidx_less valid_vpath np] .
  show ?thesis
  proof (cases "tbl m root (vpath vb)")
    case None
    have "PGROUNDDOWN va \<noteq> PGROUNDDOWN vb"
    proof
      assume "PGROUNDDOWN va = PGROUNDDOWN vb"
      then have "vpath va = vpath vb" by (simp add: vpath_def PX_page [of va vb])
      then show False using a None by simp
    qed
    then show ?thesis using None t by (simp add: lookup_def)
  next
    case (Some b)
    have al: "aligned a" "aligned b" using pt_wfD [OF wf valid_vpath] a Some by auto
    have "(a = b \<and> vidx va = vidx vb) = (PGROUNDDOWN va = PGROUNDDOWN vb)"
    proof
      assume ab: "a = b \<and> vidx va = vidx vb"
      then have "vpath va = vpath vb"
        using pt_wf_inj [OF wf valid_vpath valid_vpath a, of vb] Some by blast
      then show "PGROUNDDOWN va = PGROUNDDOWN vb" using PX_inj [OF va] ab by blast
    next
      assume "PGROUNDDOWN va = PGROUNDDOWN vb"
      then have "vpath va = vpath vb" "vidx va = vidx vb"
        by (auto simp: vpath_def vidx_def PX_page [of va vb])
      then show "a = b \<and> vidx va = vidx vb" using a Some by simp
    qed
    then show ?thesis using al Some t by (simp add: lookup_def pte_at_store)
  qed
qed

lemma pt_store_leaf:
  assumes wf: "pt_wf R m root" and a: "tbl m root (vpath va) = Some a"
  shows "pt_wf R (store64 m (a + 8 * of_nat (vidx va)) v) root"
    "pt_pages (store64 m (a + 8 * of_nat (vidx va)) v) root = pt_pages m root"
proof -
  have "tbl (store64 m (a + 8 * of_nat (vidx va)) v) root p = tbl m root p" if "valid_path p" for p
    using that by (intro tbl_store [OF wf valid_vpath a])
      (auto simp: valid_path_def vpath_def dest: prefix_length_le)
  then show "pt_wf R (store64 m (a + 8 * of_nat (vidx va)) v) root"
    "pt_pages (store64 m (a + 8 * of_nat (vidx va)) v) root = pt_pages m root"
    using wf by (auto simp: pt_wf_def pt_pages_def)
qed

section \<open>Growing the tree\<close>

lemma and_or_V [simp]: "(x OR 1) AND 1 = (1 :: u64)"
  by (rule bit_word_eqI) (auto simp: bit_simps)

lemma PTE2PA_PA2PTE:
  assumes "aligned pg" "pg < 0x10000000000000" "f < 1024"
  shows "PTE2PA (PA2PTE pg OR f) = pg"
proof (rule bit_word_eqI)
  fix n :: nat assume n: "n < LENGTH(64)"
  have low: "\<not> bit pg k" if "k < 12" for k
    using PGROUNDDOWN_aligned [OF assms(1)] bit_PGROUNDDOWN [of pg k] that by simp
  have hi: "\<not> bit pg k" if "52 \<le> k" for k
    using that assms(2) by (intro bit_above [of pg 52]) (simp_all add: word_less_def)
  have f: "\<not> bit f k" if "10 \<le> k" for k
    using that assms(3) by (intro bit_above [of f 10]) (simp_all add: word_less_def)
  show "bit (PTE2PA (PA2PTE pg OR f)) n = bit pg n"
  proof (cases "n < 12")
    case False
    then have "10 + (n - 12) = n - 2" "12 + (n - 12) = n" by auto
    then show ?thesis using False n hi [of n] f [of "n - 2"]
      by (auto simp: PTE2PA_def PA2PTE_def bit_simps)
  qed (use low in \<open>simp add: PTE2PA_def bit_simps\<close>)
qed

lemma bytes_word_zeros [simp]: "bytes_word (replicate n 0) = 0"
  by (induction n) auto

lemma zero_page_pte: "aligned pg \<Longrightarrow> i < 512 \<Longrightarrow> pte_at (fill_bytes m pg 0 4096) pg i = 0"
proof -
  assume pg: "aligned pg" "i < 512"
  have z: "load_bytes (fill_bytes m pg 0 4096) (pg + 8 * of_nat i) 8 = replicate 8 0"
  proof (rule nth_equalityI)
    fix k assume "k < length (load_bytes (fill_bytes m pg 0 4096) (pg + 8 * of_nat i) 8)"
    then have k: "8 * i + k < 4096" "k < 8" using pg(2) by auto
    have "PGROUNDDOWN (pg + of_nat (8 * i + k)) = pg" using pg(1) k(1) by (rule PGROUNDDOWN_byte)
    then show "load_bytes (fill_bytes m pg 0 4096) (pg + 8 * of_nat i) 8 ! k = replicate 8 0 ! k"
      using k fill_page_same [OF pg(1), of "pg + of_nat (8 * i + k)" m 0] by (simp add: algebra_simps)
  qed simp
  show ?thesis unfolding pte_at_def load64_def z by simp
qed

definition grow :: "phys \<Rightarrow> u64 \<Rightarrow> nat \<Rightarrow> u64 \<Rightarrow> phys" where
  "grow m a i pg = store64 (fill_bytes m pg 0 4096) (a + 8 * of_nat i) (PA2PTE pg OR PTE_V)"

text \<open>Hanging an empty table page \<open>pg\<close> below a missing entry adds one node and no mapping.\<close>

lemma tbl_grow:
  assumes wf: "pt_wf R m root" and q: "valid_path (q @ [i])" "tbl m root q = Some a"
    "tbl m root (q @ [i]) = None"
    and pg: "aligned pg" "pg < 0x10000000000000" "pg \<notin> pt_pages m root"
    and p: "valid_path p"
  shows "tbl (grow m a i pg) root p = (if p = q @ [i] then Some pg else tbl m root p)"
proof -
  let ?m1 = "fill_bytes m pg 0 4096"
  have v: "valid_path q" "i < 512" using valid_path_snocD [OF q(1)] by auto
  have P: "{pg} \<inter> pt_pages m root = {}" using pg(3) by simp
  have wf1: "pt_wf R ?m1 root"
    using pt_same_off(1) [OF wf same_off_fill [OF pg(1)] P] .
  have t1: "tbl ?m1 root r = tbl m root r" if "valid_path r" for r
    using tbl_same_off [OF wf same_off_fill [OF pg(1)] P that] .
  have here: "tbl (grow m a i pg) root (q @ [i]) = Some pg"
    using tbl_store_here [OF wf1 v(1) _ v(2), of a "PA2PTE pg OR PTE_V"] t1 [OF v(1)] q(2)
      PTE2PA_PA2PTE [OF pg(1,2), of 1] by (simp add: grow_def)
  consider "\<not> prefix (q @ [i]) p" | "p = q @ [i]" | "strict_prefix (q @ [i]) p"
    by (auto simp: strict_prefix_def)
  then show ?thesis
  proof cases
    case 1
    then show ?thesis
      using tbl_store [OF wf1 v(1) _ v(2) p 1] t1 [OF v(1)] t1 [OF p] q(2) by (auto simp: grow_def)
  next
    case 2
    then show ?thesis using here by simp
  next
    case 3
    then obtain zs where zs: "p = q @ [i] @ zs" "zs \<noteq> []" by (auto simp: strict_prefix_def prefix_def)
    then obtain j r where r: "p = q @ [i] @ j # r" by (cases zs) auto
    have "tbl m root p = None" using q(3) by (simp only: r append_assoc [symmetric] tbl_append) simp
    moreover have "j < 512" using p r by (auto simp: valid_path_def)
    have "pg \<noteq> a" using pg(3) pt_pagesI [OF v(1) q(2)] by auto
    then have "pte_at (grow m a i pg) pg j = 0"
      using pte_at_store [of a pg i j ?m1] pt_wfD [OF wf v(1) q(2)] pg(1) v(2) \<open>j < 512\<close>
      by (simp add: grow_def zero_page_pte)
    then have "tbl (grow m a i pg) root p = None"
      using here by (simp only: r append_assoc [symmetric] tbl_append) (simp add: next_tbl_def)
    ultimately show ?thesis using 3 by (auto simp: strict_prefix_def)
  qed
qed

lemma pt_grow:
  assumes wf: "pt_wf R m root" and q: "valid_path (q @ [i])" "tbl m root q = Some a"
    "tbl m root (q @ [i]) = None"
    and pg: "aligned pg" "pg < 0x10000000000000" "pg \<notin> pt_pages m root" "pg \<in> R" "pg \<noteq> 0"
  shows "pt_wf R (grow m a i pg) root"
    and "pt_pages (grow m a i pg) root = insert pg (pt_pages m root)"
    and "lookup (grow m a i pg) root va = lookup m root va"
proof -
  note t = tbl_grow [OF wf q pg(1,2,3)]
  have pgn: "tbl m root p \<noteq> Some pg" if "valid_path p" for p
    using pt_pagesI [OF that] pg(3) by auto
  show "pt_wf R (grow m a i pg) root"
    unfolding pt_wf_def using t pg(1,4,5) pgn pt_wfD [OF wf] pt_wf_inj [OF wf]
    by (auto split: if_splits)
  show "pt_pages (grow m a i pg) root = insert pg (pt_pages m root)"
  proof (rule set_eqI)
    fix x
    have "(\<exists>p. valid_path p \<and> tbl (grow m a i pg) root p = Some x) \<longleftrightarrow>
        x = pg \<or> (\<exists>p. valid_path p \<and> tbl m root p = Some x)"
      using t q(1,3) by (metis option.inject option.distinct(1))
    then show "x \<in> pt_pages (grow m a i pg) root \<longleftrightarrow> x \<in> insert pg (pt_pages m root)"
      by (simp add: pt_pages_def)
  qed
  have v: "valid_path q" "i < 512" "length q \<le> 1" using valid_path_snocD [OF q(1)] by auto
  have al: "aligned a" "a \<noteq> pg" using pt_wfD [OF wf v(1) q(2)] pgn [OF v(1)] q(2) by auto
  show "lookup (grow m a i pg) root va = lookup m root va"
  proof (cases "vpath va = q @ [i]")
    case True
    then have "tbl m root (vpath va) = None" "tbl (grow m a i pg) root (vpath va) = Some pg"
      using q(3) t [OF q(1)] by simp_all
    then show ?thesis
      using pte_at_store [of a pg i "vidx va"] al pg(1) v(2)
      by (simp add: lookup_def grow_def zero_page_pte)
  next
    case False
    then have tt: "tbl (grow m a i pg) root (vpath va) = tbl m root (vpath va)" using t by simp
    show ?thesis
    proof (cases "tbl m root (vpath va)")
      case (Some b)
      have "b \<noteq> a"
        using pt_wf_inj [OF wf valid_vpath v(1) Some] q(2) v(3) by (auto simp: vpath_def)
      moreover have "aligned b" "b \<noteq> pg" using pt_wfD [OF wf valid_vpath Some] pgn [OF valid_vpath] Some by auto
      moreover from this have "pte_at (fill_bytes m pg 0 4096) b (vidx va) = pte_at m b (vidx va)"
        using pte_at_same_off [OF same_off_fill [OF pg(1)]] by simp
      ultimately show ?thesis
        using Some tt al v(2) by (simp add: lookup_def grow_def pte_at_store)
    qed (simp add: lookup_def tt)
  qed
qed

section \<open>Walking\<close>

text \<open>\<open>vm_inv s root F\<close>: the free list holds the pages \<open>F\<close>, \<open>root\<close> is a well-formed table, and none
  of its pages is free.\<close>

definition ram :: "'a mach_scheme \<Rightarrow> u64 set" where
  "ram s = {p. page_in_ram s p}"

definition vm_inv :: "'a mach_scheme \<Rightarrow> u64 \<Rightarrow> u64 set \<Rightarrow> bool" where
  "vm_inv s root F \<longleftrightarrow>
     kmem_inv s F \<and> pt_wf (ram s) (pmem s) root \<and> F \<inter> pt_pages (pmem s) root = {}"

definition mem_only :: "'a mach_scheme \<Rightarrow> 'a mach_scheme \<Rightarrow> bool" where
  "mem_only s s' \<longleftrightarrow> s' = s\<lparr>pmem := pmem s', freelist := freelist s'\<rparr>"

lemma mem_only_refl [simp]: "mem_only s s"
  by (simp add: mem_only_def)

lemma mem_only_trans: "mem_only s t \<Longrightarrow> mem_only t u \<Longrightarrow> mem_only s u"
  by (cases s; cases t; cases u) (simp add: mem_only_def)

lemma mem_only_upd [simp]: "mem_only s (s\<lparr>pmem := m\<rparr>)" "mem_only s (s\<lparr>freelist := f\<rparr>)"
  "mem_only s (s\<lparr>pmem := m, freelist := f\<rparr>)" "mem_only s (s\<lparr>freelist := f, pmem := m\<rparr>)"
  by (simp_all add: mem_only_def)

lemma mem_only_sym: "mem_only s t \<Longrightarrow> sym t = sym s"
  by (cases s; cases t) (simp add: mem_only_def)

lemma mem_only_ram: "mem_only s t \<Longrightarrow> ram t = ram s"
  by (simp add: ram_def page_in_ram_def mem_only_sym)

text \<open>\<open>grown s root F s' F'\<close>: the table may have got new table pages, taken from the free list,
  but it maps the same addresses to the same pages.\<close>

definition grown :: "'a mach_scheme \<Rightarrow> u64 \<Rightarrow> u64 set \<Rightarrow> 'a mach_scheme \<Rightarrow> u64 set \<Rightarrow> bool" where
  "grown s root F s' F' \<longleftrightarrow>
     vm_inv s' root F' \<and> F' \<subseteq> F \<and> pt_pages (pmem s') root = pt_pages (pmem s) root \<union> (F - F') \<and>
     (\<forall>va. lookup (pmem s') root va = lookup (pmem s) root va) \<and>
     same_off (pt_pages (pmem s') root) (pmem s) (pmem s') \<and> mem_only s s'"

lemma grown_refl: "vm_inv s root F \<Longrightarrow> grown s root F s F"
  by (simp add: grown_def)

lemma grown_trans: "grown s root F t G \<Longrightarrow> grown t root G u H \<Longrightarrow> grown s root F u H"
  unfolding grown_def
  using same_off_trans [of "pt_pages (pmem t) root" "pmem s" "pmem t" "pt_pages (pmem u) root" "pmem u"]
  by (auto intro: mem_only_trans elim!: same_off_mono)

lemma page_in_ram_bounds: "page_in_ram s p \<Longrightarrow> p < 0x10000000000000 \<and> p \<noteq> 0 \<and> aligned p"
  by (auto simp: page_in_ram_def word_less_nat_alt)

lemma kalloc_grow:
  assumes inv: "vm_inv s root F" and F: "F \<noteq> {}"
    and q: "valid_path (q @ [i])" "tbl (pmem s) root q = Some a" "tbl (pmem s) root (q @ [i]) = None"
    and k: "kalloc s = (pg, s1)"
  defines "s' \<equiv> s1\<lparr>pmem := grow (pmem s1) a i pg\<rparr>"
  shows "pg \<noteq> 0" "grown s root F s' (F - {pg})" "tbl (pmem s') root (q @ [i]) = Some pg"
proof -
  have inv': "kmem_inv s F" "pt_wf (ram s) (pmem s) root" "F \<inter> pt_pages (pmem s) root = {}"
    using inv by (auto simp: vm_inv_def)
  obtain r t where "kalloc s = (r, t)" "r \<in> F" "r \<noteq> 0" "kmem_inv t (F - {r})"
    "t = s\<lparr>freelist := freelist t, pmem := fill_bytes (pmem s) r 5 4096\<rparr>"
    using kalloc_take [OF inv'(1) F] by metis
  then have r: "pg \<in> F" "pg \<noteq> 0" "kmem_inv s1 (F - {pg})"
    and s1: "s1 = s\<lparr>freelist := freelist s1, pmem := fill_bytes (pmem s) pg 5 4096\<rparr>"
    using k by auto
  show "pg \<noteq> 0" by fact
  have pg: "page_in_ram s pg" "pg \<in> ram s" using r(1) inv'(1) by (auto simp: kmem_inv_def ram_def)
  note pgb = page_in_ram_bounds [OF pg(1)]
  have off: "same_off {pg} (pmem s) (pmem s1)" using pgb by (subst s1) (simp add: same_off_fill)
  have P: "{pg} \<inter> pt_pages (pmem s) root = {}" using r(1) inv'(3) by auto
  note pt1 = pt_same_off [OF inv'(2) off P] and t1 = tbl_same_off [OF inv'(2) off P]
  have vq: "valid_path q" "i < 512" using valid_path_snocD [OF q(1)] by auto
  have q1: "tbl (pmem s1) root q = Some a" "tbl (pmem s1) root (q @ [i]) = None"
    "pg \<notin> pt_pages (pmem s1) root"
    using t1 [OF vq(1)] t1 [OF q(1)] q pt1(2) P by auto
  note g = pt_grow [OF pt1(1) q(1) q1(1,2) _ _ q1(3) pg(2)] and tg = tbl_grow [OF pt1(1) q(1) q1(1,2) _ _ q1(3) q(1)]
  have al: "aligned a" using pt_wfD [OF inv'(2) vq(1) q(2)] by simp
  have off': "same_off {pg, a} (pmem s1) (pmem s')"
    using same_off_trans [OF same_off_fill [of pg "pmem s1" 0]
        same_off_store64 [OF al vq(2), of _ "PA2PTE pg OR PTE_V"]] pgb
    by (simp add: s'_def grow_def insert_commute)
  have "{pg, a} \<inter> (F - {pg}) = {}" using pt_pagesI [OF vq(1) q(2)] inv'(3) by auto
  then have km: "kmem_inv s' (F - {pg})"
    by (rule kmem_inv_frame [OF r(3) off']) (simp_all add: s'_def)
  have mo: "mem_only s s'" unfolding s'_def by (subst s1) (simp add: mem_only_def)
  then have ram: "ram s' = ram s" by (rule mem_only_ram)
  have pages: "pt_pages (pmem s') root = insert pg (pt_pages (pmem s) root)"
    using g(2) pgb pt1(2) by (simp add: s'_def)
  have "same_off (pt_pages (pmem s') root) (pmem s) (pmem s')"
    using same_off_trans [OF off off'] pages pt_pagesI [OF vq(1) q(2)] by (auto elim!: same_off_mono)
  moreover have "vm_inv s' root (F - {pg})"
    using km g(1) pgb ram pages inv'(3) by (auto simp: vm_inv_def s'_def)
  ultimately show "grown s root F s' (F - {pg})"
    using pages g(3) pt1(3) pgb mo r(1) by (auto simp: grown_def s'_def)
  show "tbl (pmem s') root (q @ [i]) = Some pg" using tg pgb by (simp add: s'_def)
qed

lemma vpath_take: "l < 2 \<Longrightarrow> take (2 - l) (vpath va) = take (2 - Suc l) (vpath va) @ [unat (PX (Suc l) va)]"
  by (cases l) (auto simp: vpath_def numeral_2_eq_2)

lemma leaf_slot_nonzero:
  assumes "aligned b" "b \<noteq> 0" "i < 512"
  shows "b + 8 * of_nat i \<noteq> 0"
proof -
  have "unat (b + of_nat (8 * i)) = unat b + 8 * i"
    using assms by (intro aligned_unat_add) auto
  moreover have "0 < unat b" using assms(2) by (simp add: unat_gt_0)
  ultimately show ?thesis by (metis add_is_0 less_irrefl of_nat_mult of_nat_numeral unat_0)
qed

lemma walk_from_alloc:
  assumes "vm_inv s root F" "l \<le> 2" "tbl (pmem s) root (take (2 - l) (vpath va)) = Some a"
    and "walk_from l a va True s = (slot, s')"
  shows "\<exists>F'. grown s root F s' F' \<and> (if slot = 0 then F' = {} else
    \<exists>b. tbl (pmem s') root (vpath va) = Some b \<and> slot = b + 8 * of_nat (vidx va))"
  using assms
proof (induction l arbitrary: s F a)
  case 0
  have t: "tbl (pmem s) root (vpath va) = Some a" using "0.prems"(3) by (simp add: vpath_def)
  have "aligned a" "a \<noteq> 0" using pt_wfD [OF _ valid_vpath t] "0.prems"(1) by (auto simp: vm_inv_def)
  then have "a + 8 * PX 0 va \<noteq> 0"
    using leaf_slot_nonzero [of a "vidx va"] by (simp add: vidx_def)
  then show ?case using "0.prems" t grown_refl by (fastforce simp: vidx_def)
next
  case (Suc l)
  let ?i = "unat (PX (Suc l) va)" and ?q = "take (2 - Suc l) (vpath va)"
  have qi: "take (2 - l) (vpath va) = ?q @ [?i]" using vpath_take Suc.prems(2) by simp
  have v: "valid_path (?q @ [?i])"
    using valid_vpath [of va] unfolding qi [symmetric] valid_path_def by (auto dest: in_set_takeD)
  define w where "w = load64 (pmem s) (a + 8 * PX (Suc l) va)"
  have t: "tbl (pmem s) root (?q @ [?i]) = (if w AND PTE_V \<noteq> 0 then Some (PTE2PA w) else None)"
    using Suc.prems(3) by (simp add: tbl_snoc next_tbl_def pte_at_def w_def Let_def)
  show ?case
  proof (cases "w AND PTE_V \<noteq> 0")
    case True
    then have "walk_from l (PTE2PA w) va True s = (slot, s')"
      using Suc.prems(4) by (simp add: w_def Let_def)
    then show ?thesis using Suc.IH [OF Suc.prems(1) _ _] Suc.prems(2) t qi True by simp
  next
    case False
    show ?thesis
    proof (cases "F = {}")
      case True
      then have "kalloc s = (0, s)" using Suc.prems(1) kalloc_empty by (auto simp: vm_inv_def)
      then have "slot = 0" "s' = s" using Suc.prems(4) False by (auto simp: w_def [symmetric])
      then show ?thesis using True grown_refl [OF Suc.prems(1)] by auto
    next
      case ne: False
      obtain pg s1 where k: "kalloc s = (pg, s1)" by fastforce
      let ?s = "s1\<lparr>pmem := grow (pmem s1) a ?i pg\<rparr>"
      have tn: "tbl (pmem s) root (?q @ [?i]) = None" using t False by simp
      note g = kalloc_grow [OF Suc.prems(1) ne v Suc.prems(3) tn k]
      have "walk_from l pg va True ?s = (slot, s')"
        using Suc.prems(4) False k g(1) by (simp add: w_def [symmetric] grow_def Let_def)
      moreover have "vm_inv ?s root (F - {pg})" using g(2) by (simp add: grown_def)
      moreover have "tbl (pmem ?s) root (take (2 - l) (vpath va)) = Some pg" using g(3) qi by simp
      ultimately show ?thesis
        using Suc.IH [of ?s "F - {pg}" pg] Suc.prems(2) grown_trans [OF g(2)] by (meson Suc_leD)
    qed
  qed
qed

text \<open>The address of the leaf entry of \<open>va\<close>, 0 when its table does not exist.\<close>

definition slot_of :: "phys \<Rightarrow> u64 \<Rightarrow> u64 \<Rightarrow> u64" where
  "slot_of m root va = (case tbl m root (vpath va) of None \<Rightarrow> 0 | Some b \<Rightarrow> b + 8 * of_nat (vidx va))"

lemma walk_lookup: "va < MAXVA \<Longrightarrow> walk root va False s = Some (slot_of (pmem s) root va, s)"
  by (simp add: walk_def not_le [symmetric] slot_of_def vpath_def vidx_def numeral_2_eq_2
      next_tbl_def pte_at_def Let_def)

lemma slot_of_eq:
  assumes "pt_wf R m root"
  shows "slot_of m root va \<noteq> 0 \<longleftrightarrow> tbl m root (vpath va) \<noteq> None"
    and "slot_of m root va \<noteq> 0 \<Longrightarrow> load64 m (slot_of m root va) = lookup m root va"
    and "slot_of m root va = 0 \<Longrightarrow> lookup m root va = 0"
  using pt_wfD [OF assms valid_vpath, of va] leaf_slot_nonzero [OF _ _ vidx_less, of _ va]
  by (auto simp: slot_of_def lookup_def pte_at_def split: option.splits)

lemma walk_alloc:
  assumes "vm_inv s root F" "va < MAXVA"
  obtains slot s' F' where "walk root va True s = Some (slot, s')" "grown s root F s' F'"
    "slot = 0 \<Longrightarrow> F' = {}" "slot \<noteq> 0 \<Longrightarrow> slot = slot_of (pmem s') root va"
proof -
  obtain slot s' where w: "walk_from 2 root va True s = (slot, s')" by fastforce
  from walk_from_alloc [OF assms(1) _ _ w] obtain F' where
    "grown s root F s' F'" "if slot = 0 then F' = {} else
      \<exists>b. tbl (pmem s') root (vpath va) = Some b \<and> slot = b + 8 * of_nat (vidx va)" by auto
  then show thesis
    using that [of slot s' F'] w assms(2) by (auto simp: walk_def slot_of_def not_le [symmetric] split: if_splits)
qed

text \<open>\<open>pt_upd s root F s' F' f\<close>: the leaf entries are now given by \<open>f\<close>; pages that left the free
  list serve as table pages and only table pages have changed.\<close>

definition pt_upd ::
  "'a mach_scheme \<Rightarrow> u64 \<Rightarrow> u64 set \<Rightarrow> 'a mach_scheme \<Rightarrow> u64 set \<Rightarrow> (u64 \<Rightarrow> u64) \<Rightarrow> bool" where
  "pt_upd s root F s' F' f \<longleftrightarrow>
     vm_inv s' root F' \<and> F' \<subseteq> F \<and> pt_pages (pmem s') root = pt_pages (pmem s) root \<union> (F - F') \<and>
     (\<forall>va<MAXVA. lookup (pmem s') root va = f va) \<and>
     same_off (pt_pages (pmem s') root) (pmem s) (pmem s') \<and> mem_only s s'"

lemma pt_upd_trans: "pt_upd s root F t G f \<Longrightarrow> pt_upd t root G u H g \<Longrightarrow> pt_upd s root F u H g"
  unfolding pt_upd_def
  using same_off_trans [of "pt_pages (pmem t) root" "pmem s" "pmem t" "pt_pages (pmem u) root" "pmem u"]
  by (auto intro: mem_only_trans elim!: same_off_mono)

lemma pt_upd_cong: "pt_upd s root F t G f \<Longrightarrow> (\<And>va. va < MAXVA \<Longrightarrow> f va = g va) \<Longrightarrow> pt_upd s root F t G g"
  by (auto simp: pt_upd_def)

lemma grown_pt_upd: "grown s root F t G \<Longrightarrow> pt_upd s root F t G (lookup (pmem s) root)"
  by (auto simp: grown_def pt_upd_def)

lemma store_leaf_upd:
  assumes inv: "vm_inv s root F" and va: "va < MAXVA" and sl: "slot_of (pmem s) root va \<noteq> 0"
  shows "pt_upd s root F (s\<lparr>pmem := store64 (pmem s) (slot_of (pmem s) root va) v\<rparr>) F
    (\<lambda>vb. if PGROUNDDOWN va = PGROUNDDOWN vb then v else lookup (pmem s) root vb)"
proof -
  have inv': "kmem_inv s F" "pt_wf (ram s) (pmem s) root" "F \<inter> pt_pages (pmem s) root = {}"
    using inv by (auto simp: vm_inv_def)
  from sl obtain b where b: "tbl (pmem s) root (vpath va) = Some b"
    "slot_of (pmem s) root va = b + 8 * of_nat (vidx va)"
    by (auto simp: slot_of_def split: option.splits)
  have al: "aligned b" "b \<in> pt_pages (pmem s) root"
    using pt_wfD [OF inv'(2) valid_vpath b(1)] pt_pagesI [OF valid_vpath b(1)] by auto
  let ?m = "store64 (pmem s) (b + 8 * of_nat (vidx va)) v"
  note p = pt_store_leaf [OF inv'(2) b(1), of v]
  have off: "same_off {b} (pmem s) ?m" by (rule same_off_store64 [OF al(1) vidx_less])
  have "kmem_inv (s\<lparr>pmem := ?m\<rparr>) F"
    using kmem_inv_frame [OF inv'(1), of "{b}" "s\<lparr>pmem := ?m\<rparr>"] off al(2) inv'(3) by auto
  then have "vm_inv (s\<lparr>pmem := ?m\<rparr>) root F"
    using p inv'(3) by (simp add: vm_inv_def ram_def page_in_ram_def)
  moreover have "same_off (pt_pages ?m root) (pmem s) ?m"
    using off al(2) p(2) by (auto elim!: same_off_mono)
  ultimately show ?thesis
    using p(2) b(2) lookup_store_leaf [OF inv'(2) b(1) va] by (simp add: pt_upd_def)
qed

end
