(* ===== verification/VM_Space.thy ===== *)
theory VM_Space
  imports VM_Table
begin

text \<open>
  What the operations of \<^verbatim>\<open>kernel/vm.c\<close> do to an address space, stated on the tree view of
  \<open>VM_Table\<close>: adding and removing mappings, growing and shrinking, copying on fork, freeing,
  and copying data to and from user memory.
\<close>

section \<open>Adding mappings\<close>

definition mapped :: "u64 \<Rightarrow> u64 \<Rightarrow> u64 \<Rightarrow> nat \<Rightarrow> (u64 \<Rightarrow> u64) \<Rightarrow> u64 \<Rightarrow> u64" where
  "mapped a pa perm n f vb =
     (if unat (vb - a) < n * 4096 then PA2PTE (pa + (PGROUNDDOWN vb - a)) OR perm OR PTE_V else f vb)"

lemma mapped_cong: "f vb = g vb \<Longrightarrow> mapped a pa perm n f vb = mapped a pa perm n g vb"
  by (simp add: mapped_def)

lemma unat_shift_page:
  fixes d :: u64
  assumes "Suc j * 4096 < 2 ^ 64"
  shows "unat (d - 4096) < j * 4096 \<or> unat d < 4096 \<longleftrightarrow> unat d < Suc j * 4096"
proof (cases "unat d < 4096")
  case False
  then have "4096 \<le> d" by (simp add: word_le_nat_alt)
  then have "unat (d - 4096) = unat d - 4096" by (simp add: unat_sub)
  then show ?thesis using False by auto
qed auto

lemma mapped_Suc:
  assumes "aligned a" "Suc j * 4096 < 2 ^ 64"
  shows "mapped (a + 4096) (pa + 4096) perm j
      (\<lambda>vb. if PGROUNDDOWN a = PGROUNDDOWN vb then PA2PTE pa OR perm OR PTE_V else f vb) vb =
    mapped a pa perm (Suc j) f vb"
proof -
  have "vb - (a + 4096) = (vb - a) - 4096" by simp
  moreover have "PGROUNDDOWN vb = a \<longleftrightarrow> unat (vb - a) < 4096" using in_page_iff [OF assms(1)] by simp
  moreover have "pa + 4096 + (PGROUNDDOWN vb - (a + 4096)) = pa + (PGROUNDDOWN vb - a)" by simp
  ultimately show ?thesis
    using unat_shift_page [OF assms(2), of "vb - a"] assms(1)
    by (auto simp: mapped_def diff_diff_eq [symmetric])
qed

text \<open>One round of the loop: no memory for a table page, or the entry is written.\<close>

lemma walk_store:
  assumes inv: "vm_inv s root F" and a: "a < MAXVA" and nv: "lookup (pmem s) root a AND PTE_V = 0"
  obtains (fail) s1 where "walk root a True s = Some (0, s1)" "pt_upd s root F s1 {} (lookup (pmem s) root)"
  | (ok) slot s1 F1 where "walk root a True s = Some (slot, s1)" "slot \<noteq> 0"
    "load64 (pmem s1) slot AND PTE_V = 0"
    "\<And>v. pt_upd s root F (s1\<lparr>pmem := store64 (pmem s1) slot v\<rparr>) F1
       (\<lambda>vb. if PGROUNDDOWN a = PGROUNDDOWN vb then v else lookup (pmem s) root vb)"
proof -
  obtain slot s1 F1 where w: "walk root a True s = Some (slot, s1)" "grown s root F s1 F1"
    "slot = 0 \<Longrightarrow> F1 = {}" "slot \<noteq> 0 \<Longrightarrow> slot = slot_of (pmem s1) root a"
    using walk_alloc [OF inv a] by metis
  have inv1: "vm_inv s1 root F1" and l1: "lookup (pmem s1) root vb = lookup (pmem s) root vb" for vb
    using w(2) by (auto simp: grown_def)
  show thesis
  proof (cases "slot = 0")
    case True
    then show thesis using fail [of s1] w(1,3) grown_pt_upd [OF w(2)] by simp
  next
    case False
    then have sl: "slot = slot_of (pmem s1) root a" "slot_of (pmem s1) root a \<noteq> 0" using w(4) by auto
    have wf1: "pt_wf (ram s1) (pmem s1) root" using inv1 by (simp add: vm_inv_def)
    have "load64 (pmem s1) slot AND PTE_V = 0"
      using slot_of_eq(2) [OF wf1 sl(2)] sl(1) l1 nv by simp
    moreover have "pt_upd s root F (s1\<lparr>pmem := store64 (pmem s1) slot v\<rparr>) F1
       (\<lambda>vb. if PGROUNDDOWN a = PGROUNDDOWN vb then v else lookup (pmem s) root vb)" for v
      using pt_upd_trans [OF grown_pt_upd [OF w(2)] store_leaf_upd [OF inv1 a sl(2)]]
      unfolding sl(1) l1 .
    ultimately show thesis using ok [OF w(1) False] by blast
  qed
qed

lemma unat_page_add:
  assumes "unat a + n * 4096 \<le> 0x4000000000" "k \<le> n"
  shows "unat (a + of_nat k * 4096 :: u64) = unat a + k * 4096"
proof -
  have "unat (of_nat (k * 4096) :: u64) = k * 4096" using assms by (intro unat_of_nat_64) auto
  then have "unat (a + of_nat (k * 4096)) = unat a + k * 4096"
    using assms by (subst unat_add_lem [THEN iffD1]) auto
  then show ?thesis by simp
qed

lemma mappages_loop_spec:
  assumes "vm_inv s root F" "aligned a" "0 < n" "unat a + n * 4096 \<le> 0x4000000000"
    and "last_a = a + of_nat (n - 1) * 4096"
    and "\<And>k. k < n \<Longrightarrow> lookup (pmem s) root (a + of_nat k * 4096) AND PTE_V = 0"
  shows "\<exists>r s' F' j. mappages_loop root a last_a pa perm s = Some (r, s') \<and>
    pt_upd s root F s' F' (mapped a pa perm j (lookup (pmem s) root)) \<and>
    (r = 0 \<and> j = n \<or> r = - 1 \<and> j < n \<and> F' = {})"
  using assms
proof (induction n arbitrary: a pa s F)
  case (Suc n)
  let ?v = "PA2PTE pa OR perm OR PTE_V"
  have a: "a < MAXVA" using Suc.prems(4) by (simp add: word_less_nat_alt)
  have nv: "lookup (pmem s) root a AND PTE_V = 0" using Suc.prems(6) [of 0] by simp
  have sz: "Suc n * 4096 < 2 ^ 64" using Suc.prems(4) by simp
  show ?case
  proof (cases rule: walk_store [OF Suc.prems(1) a nv])
    case (1 s1)
    have "mapped a pa perm 0 (lookup (pmem s) root) = lookup (pmem s) root"
      by (simp add: mapped_def fun_eq_iff)
    moreover have "mappages_loop root a last_a pa perm s = Some (- 1, s1)"
      using 1(1) by (subst mappages_loop.simps) simp
    ultimately show ?thesis
      using 1(2) by (intro exI [of _ "- 1"] exI [of _ s1] exI [of _ "{}"] exI [of _ 0]) simp
  next
    case (2 slot s1 F1)
    define s2 where "s2 = s1\<lparr>pmem := store64 (pmem s1) slot ?v\<rparr>"
    define g where "g = (\<lambda>vb. if PGROUNDDOWN a = PGROUNDDOWN vb then ?v else lookup (pmem s) root vb)"
    have u2: "pt_upd s root F s2 F1 g" using 2(4) [of ?v] by (simp add: s2_def g_def)
    have step: "mappages_loop root a last_a pa perm s =
        (if a = last_a then Some (0, s2) else mappages_loop root (a + 4096) last_a (pa + 4096) perm s2)"
      using 2(1,2,3) by (subst mappages_loop.simps) (simp add: s2_def Let_def)
    show ?thesis
    proof (cases "n = 0")
      case True
      have "g vb = mapped a pa perm 1 (lookup (pmem s) root) vb" for vb
        using in_page_iff [OF Suc.prems(2), of vb] Suc.prems(2) by (auto simp: g_def mapped_def)
      then have "pt_upd s root F s2 F1 (mapped a pa perm (Suc n) (lookup (pmem s) root))"
        using pt_upd_cong [OF u2] True by simp
      then show ?thesis using step Suc.prems(5) True by auto
    next
      case ne: False
      note ua = unat_page_add [OF Suc.prems(4)]
      have la: "last_a = (a + 4096) + of_nat (n - 1) * 4096"
        using Suc.prems(5) ne by (cases n) (auto simp: algebra_simps)
      have k: "lookup (pmem s2) root (a + 4096 + of_nat k * 4096) AND PTE_V = 0" if "k < n" for k
      proof -
        let ?w = "a + of_nat (Suc k) * 4096"
        have uk: "unat ?w = unat a + Suc k * 4096" using ua [of "Suc k"] that by simp
        then have lt: "?w < MAXVA" using Suc.prems(4) that by (simp add: word_less_nat_alt)
        have "aligned ?w" using uk Suc.prems(2) by (simp only: aligned_unat mod_mult_self1)
        then have "PGROUNDDOWN a \<noteq> PGROUNDDOWN ?w" using uk Suc.prems(2) by auto
        then have "lookup (pmem s2) root ?w = lookup (pmem s) root ?w"
          using u2 lt by (simp add: pt_upd_def g_def)
        then show ?thesis using Suc.prems(6) [of "Suc k"] that by (simp add: algebra_simps)
      qed
      have "vm_inv s2 root F1" using u2 by (simp add: pt_upd_def)
      then obtain r s' F' j where IH: "mappages_loop root (a + 4096) last_a (pa + 4096) perm s2 = Some (r, s')"
        "pt_upd s2 root F1 s' F' (mapped (a + 4096) (pa + 4096) perm j (lookup (pmem s2) root))"
        "r = 0 \<and> j = n \<or> r = - 1 \<and> j < n \<and> F' = {}"
        using Suc.IH [of s2 F1 "a + 4096" "pa + 4096"] Suc.prems(4) ne la k ua [of 1]
          aligned_add [OF Suc.prems(2) aligned_PGSIZE] by auto
      have j: "Suc j * 4096 < 2 ^ 64" using IH(3) sz by auto
      have "mapped (a + 4096) (pa + 4096) perm j (lookup (pmem s2) root) vb =
          mapped a pa perm (Suc j) (lookup (pmem s) root) vb" if "vb < MAXVA" for vb
        using mapped_cong [of "lookup (pmem s2) root" vb g] u2 that
        by (simp add: g_def mapped_Suc [OF Suc.prems(2) j] pt_upd_def)
      then have "pt_upd s root F s' F' (mapped a pa perm (Suc j) (lookup (pmem s) root))"
        using pt_upd_cong [OF pt_upd_trans [OF u2 IH(2)]] by blast
      moreover have "a \<noteq> last_a" using Suc.prems(5) ua [of n] ne by auto
      ultimately show ?thesis
        using IH(1,3) step by (intro exI [of _ r] exI [of _ s'] exI [of _ F'] exI [of _ "Suc j"]) auto
    qed
  qed
qed simp

lemma mappages_one:
  assumes inv: "vm_inv s root F" and va: "aligned va" "va < MAXVA" "lookup (pmem s) root va AND PTE_V = 0"
  obtains (fail) s' where "mappages root va PGSIZE pa perm s = Some (- 1, s')"
    "pt_upd s root F s' {} (lookup (pmem s) root)"
  | (ok) s' F' where "mappages root va PGSIZE pa perm s = Some (0, s')"
    "pt_upd s root F s' F' (\<lambda>vb. if va = PGROUNDDOWN vb then PA2PTE pa OR perm OR PTE_V
       else lookup (pmem s) root vb)"
proof -
  have al: "va mod 4096 = 0" using va(1) by (simp add: aligned_def)
  let ?v = "PA2PTE pa OR perm OR PTE_V"
  show thesis
  proof (cases rule: walk_store [OF inv va(2,3)])
    case (1 s1)
    then show thesis using fail [of s1] al by (simp add: mappages_def mappages_loop.simps)
  next
    case (2 slot s1 F1)
    then show thesis
      using ok [of "s1\<lparr>pmem := store64 (pmem s1) slot ?v\<rparr>" F1] 2(4) [of ?v] al va(1)
      by (simp add: mappages_def mappages_loop.simps Let_def)
  qed
qed

section \<open>Address spaces\<close>

text \<open>\<open>own s root F D\<close>: the addresses in \<open>D\<close> are page addresses, and the physical pages the table
  maps them to are pages of RAM, different from each other, from the table's own pages and
  from the free pages \<open>F\<close>.\<close>

definition live :: "phys \<Rightarrow> u64 \<Rightarrow> u64 set \<Rightarrow> u64 set" where
  "live m root D = {va\<in>D. lookup m root va AND PTE_V \<noteq> 0}"

definition frame_of :: "phys \<Rightarrow> u64 \<Rightarrow> u64 \<Rightarrow> u64" where
  "frame_of m root va = PTE2PA (lookup m root va)"

definition frames :: "phys \<Rightarrow> u64 \<Rightarrow> u64 set \<Rightarrow> u64 set" where
  "frames m root D = frame_of m root ` live m root D"

definition own :: "'a mach_scheme \<Rightarrow> u64 \<Rightarrow> u64 set \<Rightarrow> u64 set \<Rightarrow> bool" where
  "own s root F D \<longleftrightarrow>
     vm_inv s root F \<and> (\<forall>va\<in>D. aligned va \<and> va < MAXVA) \<and>
     inj_on (frame_of (pmem s) root) (live (pmem s) root D) \<and>
     frames (pmem s) root D \<subseteq> ram s - F - pt_pages (pmem s) root"

text \<open>The state after entries have been cleared and the frames \<open>G\<close> put on the free list.\<close>

definition cleared :: "'a mach_scheme \<Rightarrow> u64 \<Rightarrow> u64 set \<Rightarrow> 'a mach_scheme \<Rightarrow> bool" where
  "cleared s root A s' \<longleftrightarrow>
     pt_pages (pmem s') root = pt_pages (pmem s) root \<and> mem_only s s' \<and>
     (\<forall>va<MAXVA. lookup (pmem s') root va =
        (if PGROUNDDOWN va \<in> A \<and> lookup (pmem s) root va AND PTE_V \<noteq> 0 then 0 else lookup (pmem s) root va)) \<and>
     same_off (pt_pages (pmem s) root \<union> frames (pmem s) root A) (pmem s) (pmem s')"

lemma cleared_same_off: "cleared s root A s' \<Longrightarrow>
    same_off (pt_pages (pmem s) root \<union> frames (pmem s) root A) (pmem s) (pmem s')"
  by (simp add: cleared_def)

lemma lookup_PGROUNDDOWN: "lookup m root (PGROUNDDOWN va) = lookup m root va"
  by (rule lookup_page) simp

lemma cleared_live:
  assumes "cleared s root A s'" "\<forall>va\<in>D. aligned va \<and> va < MAXVA"
  shows "live (pmem s') root D = live (pmem s) root (D - A)"
    and "va \<in> live (pmem s) root (D - A) \<Longrightarrow> frame_of (pmem s') root va = frame_of (pmem s) root va"
  using assms by (auto simp: live_def cleared_def frame_of_def split: if_splits)

lemma cleared_refl: "A \<inter> live (pmem s) root A = {} \<Longrightarrow> \<forall>va\<in>A. aligned va \<Longrightarrow> cleared s root A s"
  by (auto simp: cleared_def live_def lookup_PGROUNDDOWN)

lemma frames_mono: "D \<subseteq> E \<Longrightarrow> frames m root D \<subseteq> frames m root E"
  by (auto simp: frames_def live_def)

lemma own_cleared:
  assumes o: "own s root F D" and lv: "va \<in> live (pmem s) root D" and cl: "cleared s root {va} s'"
    and inv: "vm_inv s' root (insert (frame_of (pmem s) root va) F)"
  shows "own s' root (insert (frame_of (pmem s) root va) F) D"
proof -
  let ?m = "pmem s"
  have D': "\<forall>va\<in>D. aligned va \<and> va < MAXVA" using o by (simp add: own_def)
  note cl' = cleared_live [OF cl D']
  have lsub: "live ?m root (D - {va}) = live ?m root D - {va}" by (auto simp: live_def)
  have fs: "frames (pmem s') root D = frame_of ?m root ` (live ?m root D - {va})"
    using cl' lsub by (auto simp: frames_def)
  have inj: "inj_on (frame_of ?m root) (live ?m root D)" using o by (simp add: own_def)
  then have "frame_of ?m root va \<notin> frames (pmem s') root D"
    using lv unfolding fs by (auto simp: inj_on_def)
  moreover have "frames (pmem s') root D \<subseteq> frames ?m root D" unfolding fs by (auto simp: frames_def)
  moreover have "inj_on (frame_of (pmem s') root) (live (pmem s') root D)"
    using inj cl' lsub by (auto simp: inj_on_def)
  moreover have "ram s' = ram s" using mem_only_ram cl by (auto simp: cleared_def)
  ultimately show ?thesis using o D' cl inv by (auto simp: own_def cleared_def)
qed

text \<open>Freeing a page outside the table leaves the tree alone.\<close>

lemma kfree_keeps_tree:
  assumes inv: "vm_inv s root F" and pa: "page_in_ram s pa" "pa \<notin> F" "pa \<notin> pt_pages (pmem s) root"
  obtains t where "kfree pa s = Some t" "vm_inv t root (insert pa F)" "mem_only s t"
    "same_off {pa} (pmem s) (pmem t)" "pt_pages (pmem t) root = pt_pages (pmem s) root"
    "\<And>va. lookup (pmem t) root va = lookup (pmem s) root va"
    "\<And>va. slot_of (pmem t) root va = slot_of (pmem s) root va"
proof -
  have wf: "pt_wf (ram s) (pmem s) root" and Fp: "F \<inter> pt_pages (pmem s) root = {}" and km: "kmem_inv s F"
    using inv by (auto simp: vm_inv_def)
  obtain t where t: "kfree pa s = Some t" "kmem_inv t (insert pa F)"
    "t = s\<lparr>freelist := pa, pmem := store64 (fill_bytes (pmem s) pa 1 4096) pa (freelist s)\<rparr>"
    using kfree_give [OF km pa(1,2)] by metis
  have off: "same_off {pa} (pmem s) (pmem t)" using kmem.free_some [of s F pa] km pa t(1) by auto
  have P: "{pa} \<inter> pt_pages (pmem s) root = {}" using pa(3) by simp
  note ptt = pt_same_off [OF wf off P]
  have mo: "mem_only s t" by (subst t(3)) simp
  have "slot_of (pmem t) root va = slot_of (pmem s) root va" for va
    using tbl_same_off [OF wf off P, of "vpath va"] by (simp add: slot_of_def)
  moreover have "vm_inv t root (insert pa F)"
    using t(2) ptt Fp pa(3) mem_only_ram [OF mo] by (simp add: vm_inv_def)
  ultimately show thesis using that [OF t(1) _ mo off ptt(2,3)] by blast
qed

lemma unmap_one_spec:
  assumes o: "own s root F D" and va: "va \<in> D"
  obtains s' where "unmap_one (slot_of (pmem s) root va) True s = Some s'"
    "own s' root (F \<union> frames (pmem s) root {va}) D" "cleared s root {va} s'"
proof -
  let ?m = "pmem s" and ?sl = "slot_of (pmem s) root va" and ?v = "lookup (pmem s) root va"
  have inv: "vm_inv s root F" and D: "aligned va" "va < MAXVA" and wf: "pt_wf (ram s) ?m root"
    using o va by (auto simp: own_def vm_inv_def)
  show thesis
  proof (cases "?v AND PTE_V = 0")
    case True
    then have "unmap_one ?sl True s = Some s"
      using slot_of_eq(2) [OF wf, of va] by (auto simp: unmap_one_def)
    moreover have "frames ?m root {va} = {}" using True by (simp add: frames_def live_def)
    ultimately show thesis using that [of s] o True D cleared_refl [of "{va}" s root] by (auto simp: live_def)
  next
    case False
    define pa where "pa = frame_of ?m root va"
    have lv: "va \<in> live ?m root D" using va False by (simp add: live_def)
    have fr: "frames ?m root {va} = {pa}" using False by (auto simp: frames_def live_def pa_def)
    have "pa \<in> frames ?m root D" using lv by (auto simp: frames_def pa_def)
    then have pa: "page_in_ram s pa" "pa \<notin> F" "pa \<notin> pt_pages ?m root"
      using o by (auto simp: own_def ram_def)
    have sl: "?sl \<noteq> 0" using slot_of_eq(3) [OF wf, of va] False by auto
    obtain t where t: "kfree pa s = Some t" "vm_inv t root (insert pa F)" "mem_only s t"
      "same_off {pa} ?m (pmem t)" "pt_pages (pmem t) root = pt_pages ?m root"
      "\<And>va. lookup (pmem t) root va = lookup ?m root va"
      "\<And>va. slot_of (pmem t) root va = slot_of ?m root va"
      using kfree_keeps_tree [OF inv pa] by metis
    define s' where "s' = t\<lparr>pmem := store64 (pmem t) ?sl 0\<rparr>"
    have u: "pt_upd t root (insert pa F) s' (insert pa F)
        (\<lambda>vb. if PGROUNDDOWN va = PGROUNDDOWN vb then 0 else lookup (pmem t) root vb)"
      using store_leaf_upd [OF t(2) D(2), of 0] sl by (simp add: s'_def t(7))
    have "unmap_one ?sl True s = Some s'"
      using sl False slot_of_eq(2) [OF wf sl] t(1)
      by (simp add: unmap_one_def Let_def s'_def pa_def frame_of_def)
    moreover have cl: "cleared s root {va} s'"
      unfolding cleared_def fr
      using u t(3-6) D False lookup_PGROUNDDOWN [of ?m root]
        same_off_trans [OF t(4), of "pt_pages (pmem s') root" "pmem s'"]
      by (auto simp: pt_upd_def elim!: same_off_mono intro: mem_only_trans)
    moreover have "vm_inv s' root (insert pa F)" using u by (simp add: pt_upd_def)
    then have "own s' root (insert pa F) D" using own_cleared [OF o lv cl] by (simp add: pa_def)
    ultimately show thesis using that [of s'] fr by simp
  qed
qed

section \<open>Removing mappings\<close>

definition pgs :: "u64 \<Rightarrow> nat \<Rightarrow> u64 set" where
  "pgs a n = (\<lambda>k. a + of_nat k * 4096) ` {..<n}"

lemma pgs_0 [simp]: "pgs a 0 = {}"
  by (simp add: pgs_def)

lemma pgs_Suc: "pgs a (Suc n) = insert a (pgs (a + 4096) n)"
proof -
  have "{..<Suc n} = insert 0 (Suc ` {..<n})" by (simp add: lessThan_Suc_eq_insert_0)
  then show ?thesis by (simp add: pgs_def image_image algebra_simps)
qed

lemma pgs_Suc_last: "pgs a (Suc n) = insert (a + of_nat n * 4096) (pgs a n)"
  by (simp add: pgs_def lessThan_Suc)

lemma pgs_bounds:
  assumes "aligned a" "unat a + n * 4096 \<le> 0x4000000000" "v \<in> pgs a n"
  shows "aligned v \<and> v < MAXVA \<and> a \<le> v \<and> unat v + 4096 \<le> unat a + n * 4096"
proof -
  obtain k where k: "k < n" "v = a + of_nat k * 4096" using assms(3) by (auto simp: pgs_def)
  have u: "unat v = unat a + k * 4096" using unat_page_add [OF assms(2), of k] k by simp
  have "aligned v" using u assms(1) by (simp only: aligned_unat mod_mult_self1)
  moreover have "Suc k * 4096 \<le> n * 4096" using k(1) by (intro mult_le_mono1) simp
  then have "unat v + 4096 \<le> unat a + n * 4096" using u by simp
  ultimately show ?thesis using u assms(2) by (simp add: word_less_nat_alt word_le_nat_alt)
qed

lemma pgs_step_notin: "aligned a \<Longrightarrow> unat a + Suc n * 4096 \<le> 0x4000000000 \<Longrightarrow> a \<notin> pgs (a + 4096) n"
proof
  assume a: "aligned a" "unat a + Suc n * 4096 \<le> 0x4000000000" "a \<in> pgs (a + 4096) n"
  have u: "unat (a + 4096) = unat a + 4096" using unat_page_add [OF a(2), of 1] by simp
  then have "a + 4096 \<le> a" using pgs_bounds [of "a + 4096" n a] a aligned_add by auto
  then show False using u by (simp add: word_le_nat_alt)
qed

lemma mem_pgs_iff:
  assumes "aligned a" "unat a + n * 4096 \<le> 0x4000000000"
  shows "PGROUNDDOWN v \<in> pgs a n \<longleftrightarrow> a \<le> v \<and> unat v < unat a + n * 4096"
proof
  assume "PGROUNDDOWN v \<in> pgs a n"
  from pgs_bounds [OF assms this]
  have "unat a \<le> unat v div 4096 * 4096" "unat v div 4096 * 4096 + 4096 \<le> unat a + n * 4096"
    by (auto simp: word_le_nat_alt unat_PGROUNDDOWN)
  moreover have "unat v = unat v div 4096 * 4096 + unat v mod 4096" "unat v mod 4096 < 4096" by simp_all
  ultimately show "a \<le> v \<and> unat v < unat a + n * 4096" unfolding word_le_nat_alt by linarith
next
  assume v: "a \<le> v \<and> unat v < unat a + n * 4096"
  obtain i where i: "unat a = 4096 * i" using assms(1) by (auto simp: aligned_unat elim: dvdE)
  define k where "k = unat v div 4096 - i"
  have "i \<le> unat v div 4096"
    using v i by (simp add: word_le_nat_alt less_eq_div_iff_mult_less_eq mult.commute)
  moreover have "unat v div 4096 < i + n"
    using v i by (simp add: div_less_iff_less_mult algebra_simps)
  ultimately have k: "k < n" "unat v div 4096 = i + k" unfolding k_def by linarith+
  have "unat (PGROUNDDOWN v) = unat (a + of_nat k * 4096)"
    using unat_page_add [OF assms(2), of k] k i by (simp add: unat_PGROUNDDOWN)
  then show "PGROUNDDOWN v \<in> pgs a n" using k(1) by (auto simp: pgs_def word_unat_eq_iff)
qed

lemma frames_Un: "frames m root (A \<union> B) = frames m root A \<union> frames m root B"
  by (auto simp: frames_def live_def)

lemma cleared_frames:
  assumes "cleared s root A s'" "\<forall>va\<in>D. aligned va \<and> va < MAXVA"
  shows "frames (pmem s') root D = frames (pmem s) root (D - A)"
  unfolding frames_def using cleared_live [OF assms] by (intro image_cong) auto

lemma cleared_trans:
  assumes "cleared s root A t" "cleared t root B u" "\<forall>va\<in>B. aligned va \<and> va < MAXVA"
  shows "cleared s root (A \<union> B) u"
proof -
  have "frames (pmem t) root B \<subseteq> frames (pmem s) root B"
    unfolding cleared_frames [OF assms(1,3)] by (rule frames_mono) auto
  moreover have "same_off ((pt_pages (pmem s) root \<union> frames (pmem s) root A) \<union>
      (pt_pages (pmem t) root \<union> frames (pmem t) root B)) (pmem s) (pmem u)"
    using cleared_same_off [OF assms(1)] cleared_same_off [OF assms(2)] by (rule same_off_trans)
  ultimately have "same_off (pt_pages (pmem s) root \<union> frames (pmem s) root (A \<union> B)) (pmem s) (pmem u)"
    using assms(1) by (elim same_off_mono) (auto simp: cleared_def frames_Un)
  moreover have "mem_only s u" using assms(1,2) mem_only_trans unfolding cleared_def by blast
  ultimately show ?thesis using assms(1,2) by (auto simp: cleared_def)
qed

lemma uvmunmap_loop_spec:
  assumes "own s root F D" "aligned a" "unat a + n * 4096 \<le> 0x4000000000" "pgs a n \<subseteq> D"
    and "va_end = a + of_nat n * 4096"
  shows "\<exists>s'. uvmunmap_loop root a va_end True s = Some s' \<and>
    own s' root (F \<union> frames (pmem s) root (pgs a n)) D \<and> cleared s root (pgs a n) s'"
  using assms
proof (induction n arbitrary: a s F)
  case 0
  then show ?case using cleared_refl [of "{}" s root]
    by (subst uvmunmap_loop.simps) (auto simp: frames_def live_def)
next
  case (Suc n)
  have aD: "a \<in> D" using Suc.prems(4) by (auto simp: pgs_Suc)
  have ue: "unat va_end = unat a + Suc n * 4096"
    using unat_page_add [OF Suc.prems(3), of "Suc n"] Suc.prems(5) by simp
  have ua: "unat (a + 4096) = unat a + 4096" using unat_page_add [OF Suc.prems(3), of 1] by simp
  have a: "a < MAXVA" "a < va_end" using Suc.prems(3) ue by (auto simp: word_less_nat_alt)
  obtain t where t: "unmap_one (slot_of (pmem s) root a) True s = Some t"
    "own t root (F \<union> frames (pmem s) root {a}) D" "cleared s root {a} t"
    using unmap_one_spec [OF Suc.prems(1) aD] by metis
  have D: "\<forall>va\<in>pgs (a + 4096) n. aligned va \<and> va < MAXVA"
    using Suc.prems(1,4) by (auto simp: own_def pgs_Suc)
  have "va_end = (a + 4096) + of_nat n * 4096" "pgs (a + 4096) n \<subseteq> D" "aligned (a + 4096)"
    using Suc.prems by (auto simp: algebra_simps pgs_Suc)
  then obtain s' where s': "uvmunmap_loop root (a + 4096) va_end True t = Some s'"
    "own s' root (F \<union> frames (pmem s) root {a} \<union> frames (pmem t) root (pgs (a + 4096) n)) D"
    "cleared t root (pgs (a + 4096) n) s'"
    using Suc.IH [OF t(2), of "a + 4096"] Suc.prems(3) ua by auto
  have "uvmunmap_loop root a va_end True s = Some s'"
    using a walk_lookup [OF a(1), of root s] t(1) s'(1) by (subst uvmunmap_loop.simps) simp
  moreover have "pgs (a + 4096) n - {a} = pgs (a + 4096) n"
    using pgs_step_notin [OF Suc.prems(2,3)] by simp
  then have "F \<union> frames (pmem s) root {a} \<union> frames (pmem t) root (pgs (a + 4096) n) =
      F \<union> frames (pmem s) root (pgs a (Suc n))"
    using cleared_frames [OF t(3) D] frames_Un [of "pmem s" root "{a}" "pgs (a + 4096) n"]
    by (simp add: pgs_Suc Un_assoc)
  moreover have "cleared s root (pgs a (Suc n)) s'"
    using cleared_trans [OF t(3) s'(3) D] by (simp add: pgs_Suc)
  ultimately show ?case using s'(2) by auto
qed

section \<open>Giving a fresh page to an address\<close>

lemma unat_numeral_1024: "unat (1024 :: u64) = 1024"
  by simp

lemma or_1_flags: "f < 1024 \<Longrightarrow> f OR 1 < (1024 :: u64)"
proof -
  assume "f < 1024"
  then have "n < 10" if "bit f n" for n
    using bit_above [of f 10 n] that by (simp add: word_less_def) (meson not_le)
  then have "take_bit 10 f = f" by (intro bit_word_eqI) (auto simp: bit_simps)
  then have "f OR 1 = take_bit 10 (f OR 1)" by (simp add: take_bit_or)
  also have "\<dots> = (f OR 1) mod 1024" by (simp add: take_bit_eq_mod)
  finally have "unat (f OR 1) = unat (f OR 1) mod 1024" by (metis unat_mod unat_numeral_1024)
  then have "unat (f OR 1) < 1024" by (metis mod_less_divisor zero_less_numeral)
  then show ?thesis by (simp add: word_less_nat_alt)
qed

lemma pte_frame: "page_in_ram s pg \<Longrightarrow> f < 1024 \<Longrightarrow> PTE2PA (PA2PTE pg OR f OR PTE_V) = pg"
  using PTE2PA_PA2PTE [of pg "f OR 1"] or_1_flags page_in_ram_bounds by auto

lemma pte_valid [simp]: "(x OR f OR 1) AND 1 = (1 :: u64)"
  using and_or_V [of "x OR f"] by (simp only: or.assoc)

lemma kalloc_keeps_tree:
  assumes inv: "vm_inv s root F" and F: "F \<noteq> {}" and k: "kalloc s = (pg, s1)"
    and M: "same_off {pg} (pmem s1) M"
  defines "s' \<equiv> s1\<lparr>pmem := M\<rparr>"
  shows "pg \<in> F" "page_in_ram s pg" "vm_inv s' root (F - {pg})" "mem_only s s'"
    "same_off {pg} (pmem s) M" "pt_pages M root = pt_pages (pmem s) root"
    "lookup M root va = lookup (pmem s) root va"
proof -
  have inv': "kmem_inv s F" "pt_wf (ram s) (pmem s) root" "F \<inter> pt_pages (pmem s) root = {}"
    using inv by (auto simp: vm_inv_def)
  obtain r t where "kalloc s = (r, t)" "r \<in> F" "kmem_inv t (F - {r})"
    "t = s\<lparr>freelist := freelist t, pmem := fill_bytes (pmem s) r 5 4096\<rparr>"
    using kalloc_take [OF inv'(1) F] by metis
  then have r: "pg \<in> F" "kmem_inv s1 (F - {pg})"
    and s1: "s1 = s\<lparr>freelist := freelist s1, pmem := fill_bytes (pmem s) pg 5 4096\<rparr>"
    using k by auto
  show "pg \<in> F" by fact
  show pg: "page_in_ram s pg" using r(1) inv'(1) by (auto simp: kmem_inv_def)
  have "same_off {pg} (pmem s) (pmem s1)" using pg by (subst s1) (simp add: same_off_fill)
  from same_off_trans [OF this M] show off: "same_off {pg} (pmem s) M" by simp
  have P: "{pg} \<inter> pt_pages (pmem s) root = {}" using r(1) inv'(3) by auto
  note pt = pt_same_off [OF inv'(2) off P]
  show "pt_pages M root = pt_pages (pmem s) root" "lookup M root va = lookup (pmem s) root va"
    by (rule pt)+
  show mo: "mem_only s s'" unfolding s'_def by (subst s1) (simp add: mem_only_def)
  have "kmem_inv s' (F - {pg})"
    using kmem_inv_frame [OF r(2), of "{pg}" s'] M by (simp add: s'_def)
  then show "vm_inv s' root (F - {pg})"
    using pt inv'(3) mem_only_ram [OF mo] by (auto simp: vm_inv_def s'_def)
qed

lemma own_mono: "own s root F D \<Longrightarrow> E \<subseteq> D \<Longrightarrow> own s root F E"
  using frames_mono [of E D "pmem s" root]
  by (auto simp: own_def live_def elim!: inj_on_subset)

lemma own_cong:
  assumes "own s root F D" "vm_inv s' root F'" "mem_only s s'"
    "\<And>va. va < MAXVA \<Longrightarrow> lookup (pmem s') root va = lookup (pmem s) root va"
    "frames (pmem s) root D \<inter> (F' \<union> pt_pages (pmem s') root) = {}"
  shows "own s' root F' D"
proof -
  have D: "\<forall>va\<in>D. aligned va \<and> va < MAXVA" using assms(1) by (simp add: own_def)
  have l: "live (pmem s') root D = live (pmem s) root D" using assms(4) D by (auto simp: live_def)
  have f: "frame_of (pmem s') root va = frame_of (pmem s) root va" if "va \<in> live (pmem s) root D" for va
    using that assms(4) D by (auto simp: frame_of_def live_def)
  then have "frames (pmem s') root D = frames (pmem s) root D" using l by (auto simp: frames_def)
  then show ?thesis
    using assms l f mem_only_ram [OF assms(3)] by (auto simp: own_def inj_on_def)
qed

text \<open>A fresh page \<open>pg\<close> with contents \<open>M\<close> is mapped at \<open>va\<close>; when no table page can be had, the
  caller frees \<open>pg\<close> again.\<close>

lemma map_fresh_fail:
  assumes o: "own s root F D" and F: "F \<noteq> {}" and k: "kalloc s = (pg, s1)" and M: "same_off {pg} (pmem s1) M"
    and m: "mappages root va PGSIZE pg f (s1\<lparr>pmem := M\<rparr>) = Some (- 1, s2)"
    and u: "pt_upd (s1\<lparr>pmem := M\<rparr>) root (F - {pg}) s2 {} (lookup M root)"
  obtains s3 where "kfree pg s2 = Some s3" "own s3 root {pg} D" "mem_only s s3"
    "pt_pages (pmem s3) root = pt_pages (pmem s) root \<union> (F - {pg})"
    "\<And>va. va < MAXVA \<Longrightarrow> lookup (pmem s3) root va = lookup (pmem s) root va"
    "same_off (pt_pages (pmem s) root \<union> F) (pmem s) (pmem s3)"
proof -
  have inv: "vm_inv s root F" using o by (simp add: own_def)
  note ka = kalloc_keeps_tree [OF inv F k M]
  have u': "vm_inv s2 root {}" "pt_pages (pmem s2) root = pt_pages (pmem s) root \<union> (F - {pg})"
    "mem_only s s2" "\<And>va. va < MAXVA \<Longrightarrow> lookup (pmem s2) root va = lookup (pmem s) root va"
    "same_off (pt_pages (pmem s2) root) M (pmem s2)"
    using u ka(4,6,7) mem_only_trans by (auto simp: pt_upd_def)
  have pg: "page_in_ram s2 pg" using ka(2) mem_only_sym [OF u'(3)] page_in_ram_cong by blast
  have np: "pg \<notin> pt_pages (pmem s2) root" using u'(2) ka(1) inv by (auto simp: vm_inv_def)
  obtain s3 where t: "kfree pg s2 = Some s3" "vm_inv s3 root (insert pg {})" "mem_only s2 s3"
    "same_off {pg} (pmem s2) (pmem s3)" "pt_pages (pmem s3) root = pt_pages (pmem s2) root"
    "\<And>va. lookup (pmem s3) root va = lookup (pmem s2) root va"
    using kfree_keeps_tree [OF u'(1) pg _ np] by (metis empty_iff)
  have mo: "mem_only s s3" using mem_only_trans u'(3) t(3) by blast
  have fr: "frames (pmem s) root D \<inter> ({pg} \<union> pt_pages (pmem s3) root) = {}"
    using o t(5) u'(2) ka(1) by (auto simp: own_def)
  have "own s3 root {pg} D"
    using own_cong [OF o t(2) mo _ fr] t(6) u'(4) by simp
  moreover have "same_off (pt_pages (pmem s) root \<union> F) (pmem s) (pmem s3)"
    using same_off_trans [OF same_off_trans [OF ka(5) u'(5)] t(4)] u'(2) ka(1)
    by (auto elim!: same_off_mono)
  ultimately show thesis using that [OF t(1) _ mo] t(5,6) u'(2,4) by simp
qed

lemma map_fresh_ok:
  assumes o: "own s root F D" and F: "F \<noteq> {}" and k: "kalloc s = (pg, s1)" and M: "same_off {pg} (pmem s1) M"
    and va: "aligned va" "va < MAXVA" "lookup (pmem s) root va AND PTE_V = 0" and f: "f < 1024"
    and u: "pt_upd (s1\<lparr>pmem := M\<rparr>) root (F - {pg}) s2 F2
      (\<lambda>vb. if va = PGROUNDDOWN vb then PA2PTE pg OR f OR PTE_V else lookup M root vb)"
  shows "own s2 root F2 (insert va D)" "mem_only s s2" "F2 \<subseteq> F - {pg}" "pg \<in> F"
    "page_in_ram s pg"
    "pt_pages (pmem s2) root = pt_pages (pmem s) root \<union> (F - {pg} - F2)"
    "\<And>vb. vb < MAXVA \<Longrightarrow> lookup (pmem s2) root vb =
      (if va = PGROUNDDOWN vb then PA2PTE pg OR f OR PTE_V else lookup (pmem s) root vb)"
    "\<And>x. PGROUNDDOWN x = pg \<Longrightarrow> pmem s2 x = M x"
    "same_off (pt_pages (pmem s) root \<union> (F - F2)) (pmem s) (pmem s2)"
proof -
  have inv: "vm_inv s root F" using o by (simp add: own_def)
  note ka = kalloc_keeps_tree [OF inv F k M]
  show "pg \<in> F" "page_in_ram s pg" by (rule ka)+
  show mo: "mem_only s s2" and F2: "F2 \<subseteq> F - {pg}"
    and pp: "pt_pages (pmem s2) root = pt_pages (pmem s) root \<union> (F - {pg} - F2)"
    using u ka(4,6) mem_only_trans by (auto simp: pt_upd_def)
  show l: "lookup (pmem s2) root vb =
      (if va = PGROUNDDOWN vb then PA2PTE pg OR f OR PTE_V else lookup (pmem s) root vb)"
    if "vb < MAXVA" for vb using u that ka(7) by (simp add: pt_upd_def)
  have np: "pg \<notin> pt_pages (pmem s2) root" "pg \<notin> frames (pmem s) root D"
    using pp ka(1) o by (auto simp: own_def vm_inv_def)
  show "pmem s2 x = M x" if "PGROUNDDOWN x = pg" for x
    using u that np(1) by (auto simp: pt_upd_def same_off_def)
  show "same_off (pt_pages (pmem s) root \<union> (F - F2)) (pmem s) (pmem s2)"
    using same_off_trans [OF ka(5), of "pt_pages (pmem s2) root" "pmem s2"] u pp ka(1) F2
    by (auto simp: pt_upd_def elim!: same_off_mono)
  have D: "\<forall>va\<in>D. aligned va \<and> va < MAXVA" using o by (simp add: own_def)
  have lv: "live (pmem s2) root (insert va D) = insert va (live (pmem s) root D)"
    using l va D by (auto simp: live_def split: if_splits)
  have fr: "frame_of (pmem s2) root va = pg" using l va pte_frame [OF ka(2) f] by (simp add: frame_of_def)
  have fo: "frame_of (pmem s2) root vb = frame_of (pmem s) root vb" if "vb \<in> live (pmem s) root D" for vb
    using that l va D by (auto simp: frame_of_def live_def split: if_splits)
  have fs: "frames (pmem s2) root (insert va D) = insert pg (frames (pmem s) root D)"
    using fr fo by (auto simp: frames_def lv)
  have "inj_on (frame_of (pmem s2) root) (live (pmem s) root D)"
    using o inj_on_cong [of "live (pmem s) root D" "frame_of (pmem s2) root"] fo
    by (simp add: own_def)
  moreover have "pg \<notin> frame_of (pmem s2) root ` live (pmem s) root D"
    using np(2) fo by (auto simp: frames_def)
  ultimately have "inj_on (frame_of (pmem s2) root) (insert va (live (pmem s) root D))"
    using fr by (auto simp: inj_on_insert)
  moreover have "insert pg (frames (pmem s) root D) \<subseteq> ram s2 - F2 - pt_pages (pmem s2) root"
    using o ka(1,2) np F2 pp mem_only_ram [OF mo] by (auto simp: own_def ram_def)
  ultimately show "own s2 root F2 (insert va D)"
    using u D va lv fs by (simp add: own_def pt_upd_def)
qed

section \<open>Shrinking\<close>

definition below :: "u64 \<Rightarrow> u64 set" where
  "below sz = {va. aligned va \<and> va < sz}"

definition between :: "u64 \<Rightarrow> u64 \<Rightarrow> u64 set" where
  "between a b = {va. aligned va \<and> a \<le> va \<and> va < b}"

lemma between_pgs:
  assumes "aligned a" "aligned b" "a \<le> b" "b \<le> MAXVA"
  shows "between a b = pgs a (unat (b - a) div 4096)" "unat a + unat (b - a) div 4096 * 4096 = unat b"
    "b = a + of_nat (unat (b - a) div 4096) * 4096"
proof -
  let ?n = "unat (b - a) div 4096"
  have d: "unat (b - a) = unat b - unat a" using assms(3) by (simp add: unat_sub)
  have "4096 dvd unat b - unat a" using assms(1,2) by (intro dvd_diff_nat) (simp_all add: aligned_unat dvd_eq_mod_eq_0)
  then have n: "?n * 4096 = unat b - unat a" using d by simp
  then show e: "unat a + ?n * 4096 = unat b" using assms(3) by (simp add: word_le_nat_alt)
  have mx: "unat a + ?n * 4096 \<le> 0x4000000000" using e assms(4) by (simp add: word_le_nat_alt)
  show "b = a + of_nat ?n * 4096"
    using unat_page_add [OF mx, of ?n] e by (simp add: word_unat_eq_iff)
  have "v \<in> between a b \<longleftrightarrow> v \<in> pgs a ?n" for v
    using mem_pgs_iff [OF assms(1) mx, of v] pgs_bounds [OF assms(1) mx, of v] e
    by (auto simp: between_def word_less_nat_alt word_le_nat_alt)
  then show "between a b = pgs a ?n" by auto
qed

lemma between_aligned: "va \<in> between a b \<Longrightarrow> b \<le> MAXVA \<Longrightarrow> aligned va \<and> va < MAXVA"
  by (auto simp: between_def)

lemma small_int: "uint y \<le> 67108864 \<Longrightarrow> scast (ucast y :: u32) = y" for y :: u64
proof -
  assume u: "uint y \<le> 67108864"
  then have e: "uint (ucast y :: u32) = uint y" by (simp add: unsigned_ucast_eq take_bit_int_eq_self)
  have "sint (ucast y :: u32) = uint y" using u by (simp add: sint_alt e)
  then have "(of_int (sint (ucast y :: u32)) :: u64) = of_int (uint y)" by simp
  then show ?thesis unfolding of_int_sint by simp
qed

lemma npages_int:
  assumes "x \<le> MAXVA"
  shows "scast (ucast (x div 4096) :: u32) = (x div 4096 :: u64)"
proof (rule small_int)
  have "uint x \<le> 274877906944" using assms by (simp add: word_le_def)
  then have "uint x div 4096 \<le> 67108864" by simp
  then show "uint (x div 4096) \<le> 67108864" by (simp add: uint_div)
qed

lemma unat_4096: "unat (4096 :: u64) = 4096"
  by simp

lemma uvmunmap_between:
  assumes o: "own s root F D" and ab: "aligned a" "aligned b" "a \<le> b" "b \<le> MAXVA" "between a b \<subseteq> D"
  obtains s' where "uvmunmap root a ((b - a) div PGSIZE) True s = Some s'"
    "own s' root (F \<union> frames (pmem s) root (between a b)) D" "cleared s root (between a b) s'"
proof -
  define n where "n = unat (b - a) div 4096"
  note bp = between_pgs [OF ab(1-4), folded n_def]
  have "(b - a) div 4096 = of_nat (unat ((b - a) div 4096))" by simp
  then have nn: "(b - a) div 4096 = of_nat n" by (simp only: unat_div unat_4096 n_def)
  have mx: "unat a + n * 4096 \<le> 0x4000000000" using bp(2) ab(4) by (simp add: word_le_nat_alt)
  have sub: "pgs a n \<subseteq> D" using bp(1) ab(5) by simp
  have "uvmunmap root a ((b - a) div 4096) True s = uvmunmap_loop root a b True s"
    using ab(1) bp(3) unfolding nn by (simp add: uvmunmap_def aligned_def)
  moreover obtain s' where "uvmunmap_loop root a b True s = Some s'"
    "own s' root (F \<union> frames (pmem s) root (pgs a n)) D" "cleared s root (pgs a n) s'"
    using uvmunmap_loop_spec [OF o ab(1) mx sub bp(3)] by blast
  ultimately show thesis using that [of s'] bp(1) by simp
qed

lemma PGROUNDUP_le_MAXVA: "sz \<le> MAXVA \<Longrightarrow> PGROUNDUP sz \<le> MAXVA"
  and PGROUNDUP_ge: "sz \<le> MAXVA \<Longrightarrow> sz \<le> PGROUNDUP sz"
proof -
  assume "sz \<le> MAXVA"
  then have l: "unat sz \<le> 0x4000000000" by (simp add: word_le_nat_alt)
  then have u: "unat (PGROUNDUP sz) = (unat sz + 4095) div 4096 * 4096" by (intro unat_PGROUNDUP) simp
  have "(unat sz + 4095) div 4096 \<le> (0x4000000000 + 4095) div 4096"
    using l by (intro div_le_mono) simp
  then show "PGROUNDUP sz \<le> MAXVA" using u by (simp add: word_le_nat_alt)
  show "sz \<le> PGROUNDUP sz" using u by (simp add: word_le_nat_alt)
qed

lemma alignedE:
  assumes "aligned a"
  obtains i where "unat a = 4096 * i"
  using assms by (auto simp: aligned_unat elim: dvdE)

lemma PGROUNDUP_aligned [simp]: "aligned a \<Longrightarrow> PGROUNDUP a = a"
proof -
  assume "aligned a"
  then obtain i where i: "unat a = 4096 * i" by (rule alignedE)
  then have "unat a \<le> 2 ^ 64 - 4096" using unat_less_64 [of a] by simp
  then have "unat (PGROUNDUP a) = (4096 * i + 4095) div 4096 * 4096" using unat_PGROUNDUP i by simp
  then show ?thesis using i by (simp add: word_unat_eq_iff)
qed

lemma below_PGROUNDUP:
  assumes "sz \<le> MAXVA"
  shows "below (PGROUNDUP sz) = below sz"
proof -
  have l: "unat sz \<le> 0x4000000000" using assms by (simp add: word_le_nat_alt)
  then have u: "unat (PGROUNDUP sz) = (unat sz + 4095) div 4096 * 4096" by (intro unat_PGROUNDUP) simp
  have "va < sz" if va: "aligned va" "va < PGROUNDUP sz" for va
  proof -
    obtain i where i: "unat va = 4096 * i" using alignedE [OF va(1)] by blast
    have "4096 * i < (unat sz + 4095) div 4096 * 4096" using va(2) u i by (simp add: word_less_nat_alt)
    then have "i < (unat sz + 4095) div 4096" by simp
    then have "Suc i * 4096 \<le> unat sz + 4095" by (metis Suc_leI less_eq_div_iff_mult_less_eq zero_less_numeral)
    then show ?thesis using i by (simp add: word_less_nat_alt)
  qed
  then show ?thesis using PGROUNDUP_ge [OF assms] by (auto simp: below_def)
qed

lemma uvmdealloc_spec:
  assumes o: "own s root F (below oldsz)" and sz: "newsz < oldsz" "oldsz \<le> MAXVA"
  obtains s' where "uvmdealloc root oldsz newsz s = Some (newsz, s')"
    "own s' root (F \<union> frames (pmem s) root (between (PGROUNDUP newsz) oldsz)) (below oldsz)"
    "cleared s root (between (PGROUNDUP newsz) oldsz) s'"
proof -
  let ?a = "PGROUNDUP newsz" and ?b = "PGROUNDUP oldsz"
  have bet: "between ?a ?b = between ?a oldsz"
    using below_PGROUNDUP [OF sz(2)] by (auto simp: between_def below_def)
  have b: "?b \<le> MAXVA" using PGROUNDUP_le_MAXVA [OF sz(2)] .
  show thesis
  proof (cases "?a < ?b")
    case True
    have sub: "between ?a ?b \<subseteq> below oldsz" unfolding bet by (auto simp: between_def below_def)
    obtain s' where s': "uvmunmap root ?a ((?b - ?a) div PGSIZE) True s = Some s'"
      "own s' root (F \<union> frames (pmem s) root (between ?a ?b)) (below oldsz)"
      "cleared s root (between ?a ?b) s'"
      using uvmunmap_between [OF o _ _ _ b sub] True by (metis aligned_PGROUNDUP less_imp_le)
    have "?b - ?a \<le> MAXVA"
      using b True by (simp add: word_le_nat_alt word_less_nat_alt unat_sub)
    then have "uvmdealloc root oldsz newsz s = Some (newsz, s')"
      using s'(1) True sz(1) by (auto simp: uvmdealloc_def npages_int)
    then show thesis using that [of s'] s'(2,3) bet by simp
  next
    case False
    then have e: "between ?a oldsz = {}" unfolding bet [symmetric] by (auto simp: between_def)
    then have "uvmdealloc root oldsz newsz s = Some (newsz, s)" using False sz(1) by (auto simp: uvmdealloc_def)
    then show thesis
      using that [of s] o e cleared_refl [of "{}" s root] by (simp add: frames_def live_def)
  qed
qed

end
