(* ===== verification/VM_Grow.thy ===== *)
theory VM_Grow
  imports VM_Space
begin

text \<open>
  Growing an address space (\<open>uvmalloc\<close>): either all pages of the new range are there, fresh
  and zeroed, or the call has undone its work and only table pages stay allocated.
\<close>

section \<open>Results\<close>

definition extended :: "'a mach_scheme \<Rightarrow> u64 \<Rightarrow> u64 set \<Rightarrow> u64 \<Rightarrow> u64 \<Rightarrow> u64 \<Rightarrow> 'a mach_scheme \<Rightarrow> u64 set \<Rightarrow> bool" where
  "extended s root F a newsz fl s' F' \<longleftrightarrow>
     own s' root F' (below a \<union> between a newsz) \<and> mem_only s s' \<and> F' \<subseteq> F \<and>
     pt_pages (pmem s) root \<subseteq> pt_pages (pmem s') root \<and>
     pt_pages (pmem s') root \<subseteq> pt_pages (pmem s) root \<union> (F - F') \<and>
     (\<forall>vb<MAXVA. PGROUNDDOWN vb \<notin> between a newsz \<longrightarrow> lookup (pmem s') root vb = lookup (pmem s) root vb) \<and>
     (\<forall>va\<in>between a newsz. \<exists>pg\<in>F - F'. lookup (pmem s') root va = PA2PTE pg OR fl OR PTE_V \<and>
        (\<forall>x. PGROUNDDOWN x = pg \<longrightarrow> pmem s' x = 0)) \<and>
     same_off (pt_pages (pmem s) root \<union> (F - F')) (pmem s) (pmem s')"

definition undone :: "'a mach_scheme \<Rightarrow> u64 \<Rightarrow> u64 \<Rightarrow> u64 \<Rightarrow> u64 set \<Rightarrow> 'a mach_scheme \<Rightarrow> u64 set \<Rightarrow> bool" where
  "undone s root base newsz G s' F' \<longleftrightarrow>
     own s' root F' (below base) \<and> mem_only s s' \<and> F' \<subseteq> G \<and> G \<subseteq> F' \<union> pt_pages (pmem s') root \<and>
     pt_pages (pmem s) root \<subseteq> pt_pages (pmem s') root \<and>
     (\<forall>vb<MAXVA. if PGROUNDDOWN vb \<in> between base newsz then lookup (pmem s') root vb AND PTE_V = 0
        else lookup (pmem s') root vb = lookup (pmem s) root vb) \<and>
     same_off (pt_pages (pmem s) root \<union> G) (pmem s) (pmem s')"

lemma undone_step:
  assumes u: "undone t root base newsz H s' F'" and mo: "mem_only s t"
    and pp: "pt_pages (pmem s) root \<subseteq> pt_pages (pmem t) root"
      "pt_pages (pmem t) root \<subseteq> pt_pages (pmem s) root \<union> G"
    and l: "\<And>vb. vb < MAXVA \<Longrightarrow> PGROUNDDOWN vb \<notin> between base newsz \<Longrightarrow>
      lookup (pmem t) root vb = lookup (pmem s) root vb"
    and off: "same_off (pt_pages (pmem s) root \<union> G) (pmem s) (pmem t)"
    and H: "H \<subseteq> G" "G \<subseteq> H \<union> pt_pages (pmem t) root"
  shows "undone s root base newsz G s' F'"
proof -
  have "same_off (pt_pages (pmem t) root \<union> H) (pmem t) (pmem s')" using u by (simp add: undone_def)
  from same_off_mono [OF same_off_trans [OF off this], of "pt_pages (pmem s) root \<union> G"]
  have "same_off (pt_pages (pmem s) root \<union> G) (pmem s) (pmem s')" using pp H by blast
  moreover have "mem_only s s'" using u mo mem_only_trans by (auto simp: undone_def)
  moreover have "G \<subseteq> F' \<union> pt_pages (pmem s') root" using u H by (auto simp: undone_def)
  ultimately show ?thesis using u pp H l by (auto simp: undone_def)
qed

lemma uvmdealloc_undone:
  assumes o: "own s root F (below a)" and ab: "aligned a" "aligned base" "base \<le> a" "a < newsz" "a \<le> MAXVA"
    and nv: "\<And>va. va \<in> between a newsz \<Longrightarrow> lookup (pmem s) root va AND PTE_V = 0"
  shows "\<exists>r s'. uvmdealloc root a base s = Some (r, s') \<and>
    undone s root base newsz (F \<union> frames (pmem s) root (between base a)) s'
      (F \<union> frames (pmem s) root (between base a))"
proof -
  let ?B = "between base a" and ?G = "F \<union> frames (pmem s) root (between base a)"
  have clr: "undone s root base newsz ?G s' ?G"
    if o': "own s' root ?G (below a)" and c: "cleared s root ?B s'" for s'
  proof -
    have "own s' root ?G (below base)"
      using o' by (rule own_mono) (use ab(3) in \<open>auto simp: below_def\<close>)
    moreover have "lookup (pmem s') root vb AND PTE_V = 0"
      if vb: "vb < MAXVA" "PGROUNDDOWN vb \<in> between base newsz" for vb
    proof (cases "PGROUNDDOWN vb \<in> ?B")
      case False
      then have "PGROUNDDOWN vb \<in> between a newsz" using vb(2) by (auto simp: between_def)
      then have "lookup (pmem s) root vb AND PTE_V = 0"
        using nv lookup_PGROUNDDOWN [of "pmem s" root vb] by metis
      then show ?thesis using c vb by (auto simp: cleared_def)
    qed (use c vb in \<open>auto simp: cleared_def\<close>)
    moreover have "lookup (pmem s') root vb = lookup (pmem s) root vb"
      if vb: "vb < MAXVA" "PGROUNDDOWN vb \<notin> between base newsz" for vb
    proof -
      have "PGROUNDDOWN vb \<notin> ?B" using vb(2) ab(4) by (auto simp: between_def)
      then show ?thesis using c vb by (auto simp: cleared_def)
    qed
    moreover have "same_off (pt_pages (pmem s) root \<union> ?G) (pmem s) (pmem s')"
      by (rule same_off_mono [OF cleared_same_off [OF c]]) auto
    ultimately show ?thesis using c by (auto simp: undone_def cleared_def)
  qed
  show ?thesis
  proof (cases "base < a")
    case True
    obtain s' where "uvmdealloc root a base s = Some (base, s')"
      "own s' root (F \<union> frames (pmem s) root (between (PGROUNDUP base) a)) (below a)"
      "cleared s root (between (PGROUNDUP base) a) s'"
      using uvmdealloc_spec [OF o True ab(5)] by metis
    moreover have "PGROUNDUP base = base"
      using PGROUNDUP_aligned ab(2) by simp
    ultimately show ?thesis using clr [of s'] by auto
  next
    case False
    then have "base = a" using ab(3) by simp
    then have "uvmdealloc root a base s = Some (a, s)" "?B = {}"
      by (auto simp: uvmdealloc_def between_def)
    moreover from this have "cleared s root ?B s" using cleared_refl [of "{}" s root] by simp
    ultimately show ?thesis using clr [of s] o by (auto simp: frames_def live_def)
  qed
qed

section \<open>The loop\<close>

lemma between_step:
  assumes "aligned a" "a < newsz" "newsz \<le> MAXVA"
  shows "between a newsz = insert a (between (a + 4096) newsz)" "below (a + 4096) = insert a (below a)"
    "a \<notin> between (a + 4096) newsz" "a + 4096 \<le> MAXVA" "aligned (a + 4096)" "unat (a + 4096) = unat a + 4096"
proof -
  have l: "unat a < 0x4000000000" using assms(2,3) by (simp add: word_less_nat_alt word_le_nat_alt)
  then show u: "unat (a + 4096) = unat a + 4096" by (subst unat_add_lem [THEN iffD1]) auto
  have g: "unat v = unat a \<or> unat v < unat a \<or> unat a + 4096 \<le> unat v" if "aligned v" for v
    using aligned_gap [OF assms(1) that] by (cases "unat v \<le> unat a") (auto simp: word_less_nat_alt)
  have m: "v \<in> between a newsz \<longleftrightarrow> v = a \<or> v \<in> between (a + 4096) newsz"
    "v \<in> below (a + 4096) \<longleftrightarrow> v = a \<or> v \<in> below a" if "aligned v" for v
    using g [OF that] assms(1,2) u that
    unfolding between_def below_def word_less_nat_alt word_le_nat_alt word_unat_eq_iff mem_Collect_eq
    by linarith+
  have n: "v \<notin> between c d" "v \<notin> below c" if "\<not> aligned v" for v c d
    using that by (simp_all add: between_def below_def)
  show "between a newsz = insert a (between (a + 4096) newsz)"
    by (rule set_eqI, subst insert_iff) (metis m(1) n(1) assms(1))
  show "below (a + 4096) = insert a (below a)"
    by (rule set_eqI, subst insert_iff) (metis m(2) n(2) assms(1))
  show "a \<notin> between (a + 4096) newsz" using u by (simp add: between_def word_le_nat_alt)
  show "aligned (a + 4096)" using assms(1) by auto
  obtain i where "unat a = 4096 * i" using alignedE [OF assms(1)] by blast
  then show "a + 4096 \<le> MAXVA" using l u by (simp add: word_le_nat_alt)
qed

lemma power_2_10: "2 ^ 10 = (1024 :: u64)"
  by simp

lemma or_small: "f < 1024 \<Longrightarrow> g < 1024 \<Longrightarrow> f OR g < (1024 :: u64)"
proof -
  assume "f < 1024" "g < 1024"
  then have "n < 10" if "bit f n \<or> bit g n" for n
    using bit_above [of f 10 n] bit_above [of g 10 n] that by (simp add: word_less_def) (meson not_le)
  then have "take_bit 10 (f OR g) = f OR g" by (intro bit_word_eqI) (auto simp: bit_simps)
  then have "unat (f OR g) = unat (f OR g) mod 1024" by (metis take_bit_eq_mod unat_mod unat_numeral_1024 power_2_10)
  then have "unat (f OR g) < 1024" by (metis mod_less_divisor zero_less_numeral)
  then show ?thesis by (simp add: word_less_nat_alt)
qed

lemma frames_cong:
  "(\<And>va. va \<in> D \<Longrightarrow> lookup m' root va = lookup m root va) \<Longrightarrow> frames m' root D = frames m root D"
  unfolding frames_def by (rule image_cong) (auto simp: live_def frame_of_def)

lemma frames_between_step:
  assumes "aligned a" "a < newsz" "newsz \<le> MAXVA" "base \<le> a" "aligned base"
    and "\<And>vb. vb < MAXVA \<Longrightarrow> lookup m' root vb = (if a = PGROUNDDOWN vb then v else lookup m root vb)"
    and "v AND PTE_V \<noteq> 0"
  shows "frames m' root (between base (a + 4096)) = insert (PTE2PA v) (frames m root (between base a))"
proof -
  have u: "unat (a + 4096) = unat a + 4096" using between_step [OF assms(1-3)] by simp
  have b: "between base (a + 4096) = insert a (between base a)"
    using between_step(2) [OF assms(1-3)] assms(1,4) u
    by (auto simp: between_def below_def set_eq_iff word_le_nat_alt)
  have a: "a < MAXVA" using assms(2,3) by simp
  have l: "lookup m' root vb = lookup m root vb" if "vb \<in> between base a" for vb
    using that assms(6) [of vb] a by (auto simp: between_def)
  have "live m' root (insert a (between base a)) = insert a (live m root (between base a))"
    using l assms(1,6,7) a by (auto simp: live_def)
  moreover have "frame_of m' root a = PTE2PA v" using assms(1,6) a by (simp add: frame_of_def)
  moreover have "frame_of m' root ` live m root (between base a) = frames m root (between base a)"
    unfolding frames_def by (rule image_cong) (auto simp: frame_of_def live_def l)
  ultimately show ?thesis by (simp add: b frames_def)
qed

text \<open>One page mapped at \<open>a\<close>: the page \<open>pg\<close> left the free list, reads as zeroes and is what the
  table now maps \<open>a\<close> to with the flags \<open>fl\<close>.\<close>

definition fresh_page :: "'a mach_scheme \<Rightarrow> u64 \<Rightarrow> u64 set \<Rightarrow> u64 \<Rightarrow> u64 \<Rightarrow> u64 \<Rightarrow> 'a mach_scheme \<Rightarrow> u64 set \<Rightarrow> bool" where
  "fresh_page s root F a pg fl s' F' \<longleftrightarrow>
     mem_only s s' \<and> F' \<subseteq> F - {pg} \<and> pg \<in> F \<and> page_in_ram s pg \<and>
     pt_pages (pmem s') root = pt_pages (pmem s) root \<union> (F - {pg} - F') \<and> pg \<notin> pt_pages (pmem s') root \<and>
     (\<forall>vb<MAXVA. lookup (pmem s') root vb =
        (if a = PGROUNDDOWN vb then PA2PTE pg OR fl OR PTE_V else lookup (pmem s) root vb)) \<and>
     (\<forall>x. PGROUNDDOWN x = pg \<longrightarrow> pmem s' x = 0) \<and>
     same_off (pt_pages (pmem s) root \<union> (F - F')) (pmem s) (pmem s')"

lemma map_fresh_page:
  assumes o: "own s root F D" and F: "F \<noteq> {}" and k: "kalloc s = (pg, s1)" and pg: "aligned pg"
    and va: "aligned va" "va < MAXVA" "lookup (pmem s) root va AND PTE_V = 0" and f: "f < 1024"
  defines "M \<equiv> fill_bytes (pmem s1) pg 0 4096"
  assumes u: "pt_upd (s1\<lparr>pmem := M\<rparr>) root (F - {pg}) s2 F2
      (\<lambda>vb. if va = PGROUNDDOWN vb then PA2PTE pg OR f OR PTE_V else lookup M root vb)"
  shows "fresh_page s root F va pg f s2 F2" "own s2 root F2 (insert va D)"
proof -
  have M: "same_off {pg} (pmem s1) M" using pg by (simp add: M_def same_off_fill)
  note mf = map_fresh_ok [OF o F k M va f u]
  have "pmem s2 x = 0" if "PGROUNDDOWN x = pg" for x
    using mf(8) [OF that] fill_page_same [OF pg that] by (simp add: M_def)
  moreover have "pg \<notin> pt_pages (pmem s2) root" using mf(4,6) o by (auto simp: own_def vm_inv_def)
  ultimately show "fresh_page s root F va pg f s2 F2" "own s2 root F2 (insert va D)"
    using mf by (auto simp: fresh_page_def)
qed

lemma extended_step:
  assumes e: "extended s2 root F2 (a + 4096) newsz fl s' F'"
    and ab: "aligned a" "a < newsz" "newsz \<le> MAXVA"
    and fp: "fresh_page s root F a pg fl s2 F2"
  shows "extended s root F a newsz fl s' F'"
proof -
  note bs = between_step [OF ab]
  have a: "a < MAXVA" using ab by simp
  have mo: "mem_only s s2" and F2: "F2 \<subseteq> F - {pg}" "pg \<in> F" and np: "pg \<notin> pt_pages (pmem s2) root"
    and pp: "pt_pages (pmem s2) root = pt_pages (pmem s) root \<union> (F - {pg} - F2)"
    and l: "\<And>vb. vb < MAXVA \<Longrightarrow> lookup (pmem s2) root vb =
      (if a = PGROUNDDOWN vb then PA2PTE pg OR fl OR PTE_V else lookup (pmem s) root vb)"
    and z: "\<And>x. PGROUNDDOWN x = pg \<Longrightarrow> pmem s2 x = 0"
    and off: "same_off (pt_pages (pmem s) root \<union> (F - F2)) (pmem s) (pmem s2)"
    using fp unfolding fresh_page_def by blast+
  have F': "F' \<subseteq> F2" and off': "same_off (pt_pages (pmem s2) root \<union> (F2 - F')) (pmem s2) (pmem s')"
    using e by (auto simp: extended_def)
  have "below (a + 4096) \<union> between (a + 4096) newsz = below a \<union> between a newsz" using bs(1,2) by auto
  then have "own s' root F' (below a \<union> between a newsz)" using e by (simp add: extended_def)
  moreover have "mem_only s s'" using e mo mem_only_trans by (auto simp: extended_def)
  moreover have "same_off (pt_pages (pmem s) root \<union> (F - F')) (pmem s) (pmem s')"
    by (rule same_off_mono [OF same_off_trans [OF off off']]) (use pp F2 F' in blast)
  moreover have "lookup (pmem s') root vb = lookup (pmem s) root vb"
    if vb: "vb < MAXVA" "PGROUNDDOWN vb \<notin> between a newsz" for vb
    using e l [OF vb(1)] vb bs(1) by (auto simp: extended_def)
  moreover have "\<exists>p\<in>F - F'. lookup (pmem s') root va = PA2PTE p OR fl OR PTE_V \<and>
      (\<forall>x. PGROUNDDOWN x = p \<longrightarrow> pmem s' x = 0)" if va: "va \<in> between a newsz" for va
  proof (cases "va = a")
    case True
    have "lookup (pmem s') root a = lookup (pmem s2) root a"
      using e a bs(3) ab(1) by (simp add: extended_def)
    moreover have "pg \<notin> pt_pages (pmem s2) root \<union> (F2 - F')" using np F2 by auto
    then have "\<forall>x. PGROUNDDOWN x = pg \<longrightarrow> pmem s' x = 0" using off' z by (auto simp: same_off_def)
    ultimately show ?thesis using True l [OF a] ab(1) F2 F' by auto
  next
    case False
    then have "va \<in> between (a + 4096) newsz" using va bs(1) by auto
    then show ?thesis using e F2 by (force simp: extended_def)
  qed
  ultimately show ?thesis using e pp F' F2 by (auto simp: extended_def)
qed

lemma undone_fresh:
  assumes u: "undone s2 root base newsz (F2 \<union> frames (pmem s2) root (between base (a + 4096))) s' F'"
    and ab: "aligned a" "a < newsz" "newsz \<le> MAXVA" "base \<le> a" "aligned base" and fl: "fl < 1024"
    and fp: "fresh_page s root F a pg fl s2 F2"
  shows "undone s root base newsz (F \<union> frames (pmem s) root (between base a)) s' F'"
proof -
  have fp': "mem_only s s2" "F2 \<subseteq> F - {pg}" "pg \<in> F" "page_in_ram s pg"
    "pt_pages (pmem s2) root = pt_pages (pmem s) root \<union> (F - {pg} - F2)"
    "same_off (pt_pages (pmem s) root \<union> (F - F2)) (pmem s) (pmem s2)"
    and l: "\<And>vb. vb < MAXVA \<Longrightarrow> lookup (pmem s2) root vb =
      (if a = PGROUNDDOWN vb then PA2PTE pg OR fl OR PTE_V else lookup (pmem s) root vb)"
    using fp unfolding fresh_page_def by blast+
  have fr: "frames (pmem s2) root (between base (a + 4096)) = insert pg (frames (pmem s) root (between base a))"
    using frames_between_step [OF ab l] pte_frame [OF fp'(4) fl] by simp
  have "a \<in> between base newsz" using ab by (simp add: between_def)
  then show ?thesis
    by (intro undone_step [OF u fp'(1)]) (use fp' l fr in \<open>auto elim!: same_off_mono\<close>)
qed

lemma undone_failed_map:
  assumes "own s3 root {pg} (below a)" "mem_only s s3"
    and "pt_pages (pmem s3) root = pt_pages (pmem s) root \<union> (F - {pg})"
    and l: "\<And>va. va < MAXVA \<Longrightarrow> lookup (pmem s3) root va = lookup (pmem s) root va"
    and "same_off (pt_pages (pmem s) root \<union> F) (pmem s) (pmem s3)" "pg \<in> F"
    and ab: "aligned a" "aligned base" "base \<le> a" "a < newsz" "a \<le> MAXVA" "newsz \<le> MAXVA"
    and nv: "\<And>va. va \<in> between a newsz \<Longrightarrow> lookup (pmem s) root va AND PTE_V = 0"
  obtains r s' F' where "uvmdealloc root a base s3 = Some (r, s')"
    "undone s root base newsz (F \<union> frames (pmem s) root (between base a)) s' F'"
proof -
  have nv3: "lookup (pmem s3) root va AND PTE_V = 0" if "va \<in> between a newsz" for va
    using l [of va] nv [OF that] between_aligned [OF that ab(6)] by simp
  have "frames (pmem s3) root (between base a) = frames (pmem s) root (between base a)"
    using l between_aligned [OF _ ab(5)] by (intro frames_cong) blast
  then obtain r s' F' where d: "uvmdealloc root a base s3 = Some (r, s')"
    "undone s3 root base newsz ({pg} \<union> frames (pmem s) root (between base a)) s' F'"
    using uvmdealloc_undone [OF assms(1) ab(1-5) nv3] by auto
  have "undone s root base newsz (F \<union> frames (pmem s) root (between base a)) s' F'"
    by (rule undone_step [OF d(2) assms(2)]) (use assms(3-6) in \<open>auto elim!: same_off_mono\<close>)
  then show thesis using that d(1) by blast
qed

lemma uvmalloc_loop_unfold:
  "a < newsz \<Longrightarrow> kalloc s = (pg, s1) \<Longrightarrow> uvmalloc_loop root base a newsz xperm s =
     (if pg = 0 then do { (_, s) \<leftarrow> uvmdealloc root a base s1; Some (0, s) }
      else do { (r, s) \<leftarrow> mappages root a PGSIZE pg (PTE_R OR PTE_U OR xperm)
                  (s1\<lparr>pmem := fill_bytes (pmem s1) pg 0 4096\<rparr>);
                if r \<noteq> 0 then do { s \<leftarrow> kfree pg s; (_, s) \<leftarrow> uvmdealloc root a base s; Some (0, s) }
                else uvmalloc_loop root base (a + PGSIZE) newsz xperm s })"
  by (subst uvmalloc_loop.simps) (simp add: Let_def)

text \<open>One round: the call fails and undoes its work, or goes on with one more page.\<close>

lemma uvmalloc_round:
  assumes o: "own s root F (below a)" and ab: "aligned a" "aligned base" "base \<le> a" "a < newsz" "a \<le> MAXVA" "newsz \<le> MAXVA"
    and fl: "PTE_R OR PTE_U OR xperm < 1024"
    and nv: "\<And>va. va \<in> between a newsz \<Longrightarrow> lookup (pmem s) root va AND PTE_V = 0"
  obtains (fail) s' F' where "uvmalloc_loop root base a newsz xperm s = Some (0, s')"
    "undone s root base newsz (F \<union> frames (pmem s) root (between base a)) s' F'"
  | (go) pg s2 F2 where "uvmalloc_loop root base a newsz xperm s = uvmalloc_loop root base (a + PGSIZE) newsz xperm s2"
    "fresh_page s root F a pg (PTE_R OR PTE_U OR xperm) s2 F2" "own s2 root F2 (below (a + PGSIZE))"
proof -
  let ?fl = "PTE_R OR PTE_U OR xperm"
  have inv: "vm_inv s root F" using o by (simp add: own_def)
  have a: "a < MAXVA" "a \<in> between a newsz" using ab by (auto simp: between_def)
  obtain pg s1 where k: "kalloc s = (pg, s1)" by fastforce
  define M where "M = fill_bytes (pmem s1) pg 0 4096"
  note un = uvmalloc_loop_unfold [OF ab(4) k, of root base xperm, folded M_def]
  show thesis
  proof (cases "F = {}")
    case F: True
    then have "pg = 0" "s1 = s" using k kalloc_empty [of s] inv by (auto simp: vm_inv_def)
    then show thesis using uvmdealloc_undone [OF o ab(1-5) nv] un fail by fastforce
  next
    case F: False
    have pg: "pg \<noteq> 0" "aligned pg" using kmem.alloc_some [OF _ F k] inv by (auto simp: vm_inv_def kmem_inv_def)
    have M: "same_off {pg} (pmem s1) M" using pg(2) by (simp add: M_def same_off_fill)
    note ka = kalloc_keeps_tree [OF inv F k M]
    have nv1: "lookup (pmem (s1\<lparr>pmem := M\<rparr>)) root a AND PTE_V = 0" using nv [OF a(2)] ka(7) by simp
    show thesis
    proof (cases rule: mappages_one [OF ka(3) ab(1) a(1) nv1, of pg ?fl])
      case (1 s2)
      have upd: "pt_upd (s1\<lparr>pmem := M\<rparr>) root (F - {pg}) s2 {} (lookup M root)" using 1(2) by simp
      obtain s3 where s3: "kfree pg s2 = Some s3" "own s3 root {pg} (below a)" "mem_only s s3"
        "pt_pages (pmem s3) root = pt_pages (pmem s) root \<union> (F - {pg})"
        "\<And>va. va < MAXVA \<Longrightarrow> lookup (pmem s3) root va = lookup (pmem s) root va"
        "same_off (pt_pages (pmem s) root \<union> F) (pmem s) (pmem s3)"
        using map_fresh_fail [OF o F k M 1(1) upd] by metis
      obtain r s' F' where "uvmdealloc root a base s3 = Some (r, s')"
        "undone s root base newsz (F \<union> frames (pmem s) root (between base a)) s' F'"
        using undone_failed_map [OF s3(2-6) ka(1) ab nv] by metis
      then show thesis using un 1(1) s3(1) pg(1) fail by auto
    next
      case (2 s2 F2)
      have upd: "pt_upd (s1\<lparr>pmem := M\<rparr>) root (F - {pg}) s2 F2
          (\<lambda>vb. if a = PGROUNDDOWN vb then PA2PTE pg OR ?fl OR PTE_V else lookup M root vb)"
        using 2(2) by (simp cong: if_cong)
      note mf = map_fresh_page [OF o F k pg(2) ab(1) a(1) nv [OF a(2)] fl upd [unfolded M_def]]
      show thesis
        using go [of s2 pg F2] mf between_step(2) [OF ab(1,4,6)] un pg(1) 2(1) by simp
    qed
  qed
qed

lemma uvmalloc_loop_spec:
  assumes "own s root F (below a)" "aligned a" "aligned base" "base \<le> a" "a \<le> MAXVA" "newsz \<le> MAXVA"
    and "PTE_R OR PTE_U OR xperm < 1024"
    and "\<And>va. va \<in> between a newsz \<Longrightarrow> lookup (pmem s) root va AND PTE_V = 0"
  shows "(\<exists>s' F'. uvmalloc_loop root base a newsz xperm s = Some (newsz, s') \<and>
      extended s root F a newsz (PTE_R OR PTE_U OR xperm) s' F') \<or>
    (\<exists>s' F'. uvmalloc_loop root base a newsz xperm s = Some (0, s') \<and>
      undone s root base newsz (F \<union> frames (pmem s) root (between base a)) s' F' \<and> a < newsz)"
  using assms
proof (induction "0x4000001000 - unat a" arbitrary: a s F rule: less_induct)
  case less
  let ?fl = "PTE_R OR PTE_U OR xperm"
  show ?case
  proof (cases "a < newsz")
    case False
    then have "between a newsz = {}" by (auto simp: between_def)
    then have "extended s root F a newsz ?fl s F" using less.prems(1) by (simp add: extended_def)
    then show ?thesis using False by (subst uvmalloc_loop.simps) auto
  next
    case True
    note bs = between_step [OF less.prems(2) True less.prems(6)]
    have a: "a < MAXVA" using True less.prems(6) by simp
    note nv = less.prems(8)
    show ?thesis
    proof (cases rule: uvmalloc_round [OF less.prems(1-4) True less.prems(5-7) nv, consumes 0, case_names NV 1 2])
      case NV then show ?case .
    next
      case (1 s' F')
      then show ?thesis using True by auto
    next
      case (2 pg s2 F2)
      have nv2: "lookup (pmem s2) root va AND PTE_V = 0" if "va \<in> between (a + 4096) newsz" for va
      proof -
        have v: "va \<in> between a newsz" "va \<noteq> a" using that bs(1,3) by blast+
        then have "va < MAXVA" "aligned va" using between_aligned less.prems(6) by blast+
        then show ?thesis using 2(2) less.prems(8) [OF v(1)] v(2) by (simp add: fresh_page_def)
      qed
      have base: "base \<le> a + 4096" using less.prems(4) bs(6) by (simp add: word_le_nat_alt)
      note IH = less.hyps [OF page_step_decreases [OF a] 2(3) bs(5) less.prems(3) base bs(4) less.prems(6,7) nv2]
      then show ?thesis
        using 2(1) True extended_step [OF _ less.prems(2) True less.prems(6) 2(2)]
          undone_fresh [OF _ less.prems(2) True less.prems(6,4,3,7) 2(2)] by fastforce
    qed
  qed
qed

section \<open>Empty tables\<close>

lemma empty_table:
  assumes "\<And>i. i < 512 \<Longrightarrow> pte_at m root i = 0" "root \<in> R" "aligned root" "root \<noteq> 0"
  shows "pt_wf R m root" "pt_pages m root = {root}" "lookup m root va = 0"
proof -
  have t: "tbl m root p = (if p = [] then Some root else None)" if "valid_path p" for p
    using that assms(1) by (cases p) (auto simp: valid_path_def next_tbl_def)
  then show "pt_wf R m root" using assms(2-4) by (auto simp: pt_wf_def split: if_splits)
  have "(\<exists>p. valid_path p \<and> tbl m root p = Some x) \<longleftrightarrow> x = root" for x
    using t valid_path_Nil by (metis option.inject option.distinct(1))
  then show "pt_pages m root = {root}" by (simp add: pt_pages_def)
  show "lookup m root va = 0" using t [OF valid_vpath] by (auto simp: lookup_def vpath_def)
qed

section \<open>Properties\<close>

text \<open>C2: \<open>uvmalloc\<close> is all or nothing and never panics on a well-formed address space: either it
  returns \<open>newsz\<close>, and every page from the old size up to \<open>newsz\<close> is mapped with the requested
  permissions to its own fresh page of zeroes, with all other mappings and bytes unchanged;
  or it returns 0, no page of the range is mapped, all other mappings are unchanged, and every
  page taken from the free list is back on it or serves as a page-table page.\<close>

theorem uvmalloc_all_or_nothing:
  assumes "own s root F (below oldsz)" "oldsz \<le> newsz" "newsz \<le> MAXVA" "xperm < 1024"
    and "\<forall>va\<in>between (PGROUNDUP oldsz) newsz. lookup (pmem s) root va AND PTE_V = 0"
  shows "\<exists>r s' F'. uvmalloc root oldsz newsz xperm s = Some (r, s') \<and>
    (r = newsz \<and> extended s root F (PGROUNDUP oldsz) newsz (PTE_R OR PTE_U OR xperm) s' F' \<or>
     r = 0 \<and> undone s root (PGROUNDUP oldsz) newsz F s' F')"
proof -
  let ?a = "PGROUNDUP oldsz"
  have o: "oldsz \<le> MAXVA" using assms(2,3) by simp
  then have own: "own s root F (below ?a)" using assms(1) below_PGROUNDUP by simp
  have fl: "PTE_R OR PTE_U OR xperm < 1024"
    using or_small [of PTE_R "PTE_U OR xperm"] or_small [of PTE_U xperm] assms(4) by simp
  have e: "frames (pmem s) root (between ?a ?a) = {}" by (auto simp: frames_def live_def between_def)
  have nv: "lookup (pmem s) root va AND PTE_V = 0" if "va \<in> between ?a newsz" for va
    using assms(5) that by blast
  have "uvmalloc root oldsz newsz xperm s = uvmalloc_loop root ?a ?a newsz xperm s"
    using assms(2) by (auto simp: uvmalloc_def)
  then show ?thesis
    using uvmalloc_loop_spec [OF own aligned_PGROUNDUP aligned_PGROUNDUP order_refl
        PGROUNDUP_le_MAXVA [OF o] assms(3) fl, OF nv] unfolding e by auto
qed

text \<open>An empty page table at \<open>0x87FFD000\<close> beside the two free pages of \<open>two_free\<close>.\<close>

lemma two_free_table: "i < 512 \<Longrightarrow> pte_at (pmem two_free) 0x87FFD000 i = 0"
proof -
  assume i: "i < 512"
  have z: "pmem two_free x = 0" if "PGROUNDDOWN x = 0x87FFD000" for x
  proof -
    have "PGROUNDDOWN x \<noteq> 0x87FFF000" using that by simp
    from memory_off_page_store64 [of "0x87FFF000" 0 x "\<lambda>_. 0" "0x87FFE000", OF _ _ this]
    show ?thesis by (simp add: two_free_def aligned_def)
  qed
  have "pte_at (\<lambda>_. 0) a i = 0" for a i
    by (simp add: pte_at_def load64_def load_bytes_def map_replicate_trivial)
  moreover have "pte_at (pmem two_free) 0x87FFD000 i = pte_at (\<lambda>_. 0) 0x87FFD000 i"
    unfolding pte_at_def using i z by (intro load64_page_cong) (auto simp: aligned_def)
  ultimately show ?thesis by simp
qed

lemma two_free_ram: "0x87FFD000 \<in> ram two_free" "aligned 0x87FFD000"
  by (simp_all add: ram_def page_in_ram_def two_free_def boot_mach_def aligned_def)

lemma two_free_empty_space:
  "own two_free 0x87FFD000 {0x87FFF000, 0x87FFE000} (below 0)" "lookup (pmem two_free) 0x87FFD000 va = 0"
  using empty_table [OF two_free_table two_free_ram] two_free_inv
  by (auto simp: own_def vm_inv_def live_def frames_def below_def)

theorem uvmalloc_all_or_nothing_witness:
  "\<exists>r s' F'. uvmalloc 0x87FFD000 0 8192 PTE_W two_free = Some (r, s') \<and>
    (r = 8192 \<and> extended two_free 0x87FFD000 {0x87FFF000, 0x87FFE000} 0 8192 (PTE_R OR PTE_U OR PTE_W) s' F' \<or>
     r = 0 \<and> undone two_free 0x87FFD000 0 8192 {0x87FFF000, 0x87FFE000} s' F')"
  using uvmalloc_all_or_nothing [OF two_free_empty_space(1), of 8192 PTE_W] two_free_empty_space(2)
  by simp

end
