(* ===== verification/VM_User.thy ===== *)
theory VM_User
  imports VM_Grow
begin

text \<open>
  User memory as the kernel sees it: the bytes behind the user-accessible pages of an address
  space, and what \<open>vmfault\<close>, \<open>copyout\<close> and \<open>copyin\<close> do to them. A page is faulted in on first
  use; the view of the pages that were there stays as it was.
\<close>

section \<open>The view of user memory\<close>

definition upages :: "phys \<Rightarrow> u64 \<Rightarrow> u64 set" where
  "upages m root = {p. aligned p \<and> p < MAXVA \<and> lookup m root p AND PTE_V \<noteq> 0 \<and> lookup m root p AND PTE_U \<noteq> 0}"

definition umem :: "phys \<Rightarrow> u64 \<Rightarrow> u64 \<Rightarrow> u8" where
  "umem m root va = m (frame_of m root va + (va - PGROUNDDOWN va))"

definition uspace :: "'a mach_scheme \<Rightarrow> u64 \<Rightarrow> u64 set \<Rightarrow> bool" where
  "uspace s root F \<longleftrightarrow> own s root F (upages (pmem s) root)"

text \<open>From \<open>s\<close> to \<open>s'\<close> user memory changes at most at the addresses in \<open>W\<close>; pages that are new read as
  zeroes.\<close>

definition uview :: "'a mach_scheme \<Rightarrow> u64 \<Rightarrow> u64 set \<Rightarrow> u64 set \<Rightarrow> 'a mach_scheme \<Rightarrow> u64 set \<Rightarrow> bool" where
  "uview s root F W s' F' \<longleftrightarrow>
     uspace s' root F' \<and> F' \<subseteq> F \<and> upages (pmem s) root \<subseteq> upages (pmem s') root \<and>
     (\<forall>va. PGROUNDDOWN va \<in> upages (pmem s) root \<longrightarrow> lookup (pmem s') root va = lookup (pmem s) root va) \<and>
     (\<forall>va. PGROUNDDOWN va \<in> upages (pmem s') root \<and> va \<notin> W \<longrightarrow>
        umem (pmem s') root va = (if PGROUNDDOWN va \<in> upages (pmem s) root then umem (pmem s) root va else 0))"

text \<open>The same when nothing but memory and the free list has changed.\<close>

definition ukeep :: "'a mach_scheme \<Rightarrow> u64 \<Rightarrow> u64 set \<Rightarrow> u64 set \<Rightarrow> 'a mach_scheme \<Rightarrow> u64 set \<Rightarrow> bool" where
  "ukeep s root F W s' F' \<longleftrightarrow> uview s root F W s' F' \<and> mem_only s s'"

lemma uview_refl [simp]: "uspace s root F \<Longrightarrow> uview s root F W s F"
  by (simp add: uview_def)

lemma uview_trans:
  assumes "uview s root F W t G" "uview t root G V u H"
  shows "uview s root F (W \<union> V) u H"
  using assms unfolding uview_def by (auto; blast)

lemma uview_mono: "uview s root F W s' F' \<Longrightarrow> W \<subseteq> V \<Longrightarrow> uview s root F V s' F'"
  unfolding uview_def by blast

lemma ukeep_refl [simp]: "uspace s root F \<Longrightarrow> ukeep s root F W s F"
  by (simp add: ukeep_def)

lemma ukeep_trans: "ukeep s root F W t G \<Longrightarrow> ukeep t root G V u H \<Longrightarrow> ukeep s root F (W \<union> V) u H"
  unfolding ukeep_def using uview_trans mem_only_trans by blast

lemma ukeep_mono: "ukeep s root F W s' F' \<Longrightarrow> W \<subseteq> V \<Longrightarrow> ukeep s root F V s' F'"
  unfolding ukeep_def using uview_mono by blast

lemma uviewD:
  assumes "uview s root F W s' F'"
  shows "uspace s' root F'" "upages (pmem s) root \<subseteq> upages (pmem s') root"
    and "PGROUNDDOWN va \<in> upages (pmem s) root \<Longrightarrow> va \<notin> W \<Longrightarrow> umem (pmem s') root va = umem (pmem s) root va"
    and "PGROUNDDOWN va \<in> upages (pmem s) root \<Longrightarrow> lookup (pmem s') root va = lookup (pmem s) root va"
  using assms by (auto simp: uview_def)

lemma uspace_cong: "pmem t = pmem s \<Longrightarrow> freelist t = freelist s \<Longrightarrow> sym t = sym s \<Longrightarrow> uspace t root F = uspace s root F"
  by (simp add: uspace_def own_def vm_inv_def kmem_inv_def ram_def page_in_ram_def)

lemma uview_cong:
  assumes "uview s root F W t F'" "pmem u = pmem t" "freelist u = freelist t" "sym u = sym t"
  shows "uview s root F W u F'"
  using assms uspace_cong [OF assms(2-4)] by (simp add: uview_def)

lemma ukeepD:
  assumes "ukeep s root F W s' F'"
  shows "uspace s' root F'" "mem_only s s'" "upages (pmem s) root \<subseteq> upages (pmem s') root"
    and "PGROUNDDOWN va \<in> upages (pmem s) root \<Longrightarrow> va \<notin> W \<Longrightarrow> umem (pmem s') root va = umem (pmem s) root va"
    and "PGROUNDDOWN va \<in> upages (pmem s) root \<Longrightarrow> lookup (pmem s') root va = lookup (pmem s) root va"
  using assms by (auto simp: ukeep_def uview_def)

lemma upages_live: "live m root (upages m root) = upages m root"
  by (auto simp: live_def upages_def)

lemma uspace_frame:
  assumes "uspace s root F" "p \<in> upages (pmem s) root"
  shows "page_in_ram s (frame_of (pmem s) root p)" "frame_of (pmem s) root p \<notin> F"
    "frame_of (pmem s) root p \<notin> pt_pages (pmem s) root" "frame_of (pmem s) root p \<noteq> 0"
    "aligned (frame_of (pmem s) root p)"
proof -
  have "frame_of (pmem s) root p \<in> frames (pmem s) root (upages (pmem s) root)"
    using assms(2) by (simp add: frames_def upages_live)
  then show f: "page_in_ram s (frame_of (pmem s) root p)" "frame_of (pmem s) root p \<notin> F"
    "frame_of (pmem s) root p \<notin> pt_pages (pmem s) root"
    using assms(1) by (auto simp: uspace_def own_def ram_def)
  then show "frame_of (pmem s) root p \<noteq> 0" "aligned (frame_of (pmem s) root p)"
    by (auto simp: page_in_ram_def)
qed

lemma uspace_inj:
  "uspace s root F \<Longrightarrow> p \<in> upages (pmem s) root \<Longrightarrow> q \<in> upages (pmem s) root \<Longrightarrow>
     frame_of (pmem s) root p = frame_of (pmem s) root q \<Longrightarrow> p = q"
  by (auto simp: uspace_def own_def upages_live dest: inj_onD)

lemma frame_of_page: "frame_of m root (PGROUNDDOWN va) = frame_of m root va"
  by (simp add: frame_of_def lookup_PGROUNDDOWN)

lemma PGROUNDDOWN_offset: "va - PGROUNDDOWN va = of_nat (unat va mod 4096)"
  by (simp add: PGROUNDDOWN_alt word_unat_eq_iff unat_mod)

lemma umem_page:
  assumes "uspace s root F" "PGROUNDDOWN va \<in> upages (pmem s) root"
  shows "PGROUNDDOWN (frame_of (pmem s) root va + (va - PGROUNDDOWN va)) = frame_of (pmem s) root va"
  using uspace_frame(5) [OF assms] by (simp add: frame_of_page PGROUNDDOWN_offset)

text \<open>Fields that a change of memory leaves alone.\<close>

lemma mem_only_kproc:
  "mem_only s t \<Longrightarrow> procs t = procs s" "mem_only s t \<Longrightarrow> cur t = cur s" for s t :: "'a kproc_scheme"
  unfolding mem_only_def by (drule arg_cong [where f = procs], simp) (drule arg_cong [where f = cur], simp)

section \<open>Writing to a mapped page\<close>

lemma uspace_store:
  assumes u: "uspace s root F" and p: "p \<in> upages (pmem s) root"
    and off: "same_off {frame_of (pmem s) root p} (pmem s) M"
  shows "uspace (s\<lparr>pmem := M\<rparr>) root F" "upages M root = upages (pmem s) root"
    "lookup M root va = lookup (pmem s) root va"
proof -
  let ?pa = "frame_of (pmem s) root p"
  note f = uspace_frame [OF u p]
  have inv: "vm_inv s root F" using u by (simp add: uspace_def own_def)
  then have wf: "pt_wf (ram s) (pmem s) root" and km: "kmem_inv s F" by (auto simp: vm_inv_def)
  have P: "{?pa} \<inter> pt_pages (pmem s) root = {}" using f(3) by simp
  note pt = pt_same_off [OF wf off P]
  show l: "lookup M root va = lookup (pmem s) root va" for va by (rule pt(3))
  then show up: "upages M root = upages (pmem s) root" by (simp add: upages_def)
  have "kmem_inv (s\<lparr>pmem := M\<rparr>) F"
    using kmem_inv_frame [OF km, of "{?pa}" "s\<lparr>pmem := M\<rparr>"] off f(2) by simp
  then have "vm_inv (s\<lparr>pmem := M\<rparr>) root F"
    using inv pt by (simp add: vm_inv_def ram_def page_in_ram_def)
  moreover have "frames (pmem s) root (upages (pmem s) root) \<inter> (F \<union> pt_pages M root) = {}"
    using u pt(2) by (auto simp: uspace_def own_def)
  ultimately have "own (s\<lparr>pmem := M\<rparr>) root F (upages (pmem s) root)"
    using own_cong [of s root F "upages (pmem s) root" "s\<lparr>pmem := M\<rparr>" F] u l
    by (simp add: uspace_def)
  then show "uspace (s\<lparr>pmem := M\<rparr>) root F" by (simp add: uspace_def up)
qed

lemma store_range:
  assumes "unat (x - (pa + of_nat d)) < n"
  obtains j where "j < n" "x = pa + of_nat (d + j)"
  using that [of "unat (x - (pa + of_nat d))"] assms by (simp add: algebra_simps)

lemma same_off_store_bytes:
  assumes "aligned pa" "d + length bs \<le> 4096"
  shows "same_off {pa} m (store_bytes m (pa + of_nat d) bs)"
  unfolding same_off_def
proof (intro allI impI)
  fix x assume x: "PGROUNDDOWN x \<notin> {pa}"
  have "\<not> unat (x - (pa + of_nat d)) < length bs"
  proof
    assume "unat (x - (pa + of_nat d)) < length bs"
    then obtain j where j: "j < length bs" "x = pa + of_nat (d + j)" by (rule store_range)
    then have "PGROUNDDOWN x = pa" using PGROUNDDOWN_byte [OF assms(1), of "d + j"] assms(2) by simp
    then show False using x by simp
  qed
  then show "store_bytes m (pa + of_nat d) bs x = m x" by (simp add: store_bytes_def)
qed

lemma store_in_page:
  assumes "aligned pa" "d + length bs \<le> 4096" "k < 4096"
  shows "store_bytes m (pa + of_nat d) bs (pa + of_nat k) =
      (if d \<le> k \<and> k < d + length bs then bs ! (k - d) else m (pa + of_nat k))"
proof (cases "d \<le> k")
  case True
  then have "pa + of_nat k - (pa + of_nat d) = (of_nat (k - d) :: u64)" by (simp add: of_nat_diff)
  then have "unat (pa + of_nat k - (pa + of_nat d) :: u64) = k - d" using assms(3) by simp
  then show ?thesis using True by (auto simp: store_bytes_def)
next
  case False
  have "\<not> unat (pa + of_nat k - (pa + of_nat d) :: u64) < length bs"
  proof
    assume "unat (pa + of_nat k - (pa + of_nat d) :: u64) < length bs"
    then obtain j where j: "j < length bs" "pa + of_nat k = pa + of_nat (d + j)" by (rule store_range)
    then have "unat pa + k = unat pa + (d + j)"
      using aligned_unat_add [OF assms(1), of k] aligned_unat_add [OF assms(1), of "d + j"] assms(2,3) by simp
    then show False using False by simp
  qed
  then show ?thesis using False by (simp add: store_bytes_def)
qed

lemma page_addr: "va = PGROUNDDOWN va + of_nat (unat va mod 4096)"
  using PGROUNDDOWN_offset [of va] by (simp add: algebra_simps)

lemma umem_alt: "umem m root va = m (frame_of m root (PGROUNDDOWN va) + of_nat (unat va mod 4096))"
  by (simp add: umem_def frame_of_page PGROUNDDOWN_offset)

lemma page_mod:
  assumes "aligned p" "k < 4096"
  shows "unat (p + of_nat k) mod 4096 = k"
proof -
  have "(unat p + k) mod 4096 = k mod 4096" using assms(1) by (simp add: aligned_unat mod_add_left_eq [symmetric])
  then show ?thesis using aligned_unat_add [OF assms] assms(2) by simp
qed

lemma user_store:
  assumes u: "uspace s root F" and p: "p \<in> upages (pmem s) root" and d: "d + length bs \<le> 4096"
  defines "s' \<equiv> s\<lparr>pmem := store_bytes (pmem s) (frame_of (pmem s) root p + of_nat d) bs\<rparr>"
  shows "ukeep s root F {va. \<exists>k<length bs. va = p + of_nat (d + k)} s' F"
    and "k < length bs \<Longrightarrow> umem (pmem s') root (p + of_nat (d + k)) = bs ! k"
    and "lookup (pmem s') root va = lookup (pmem s) root va"
proof -
  let ?pa = "frame_of (pmem s) root p" and ?M = "store_bytes (pmem s) (frame_of (pmem s) root p + of_nat d) bs"
  note f = uspace_frame [OF u p]
  have off: "same_off {?pa} (pmem s) ?M" by (rule same_off_store_bytes [OF f(5) d])
  note us = uspace_store [OF u p off]
  have pal: "aligned p" using p by (simp add: upages_def)
  have fr: "frame_of ?M root va = frame_of (pmem s) root va" for va using us(3) by (simp add: frame_of_def)
  show "lookup (pmem s') root va = lookup (pmem s) root va" using us(3) by (simp add: s'_def)
  show "umem (pmem s') root (p + of_nat (d + k)) = bs ! k" if k: "k < length bs"
  proof -
    have l: "d + k < 4096" using k d by simp
    have "PGROUNDDOWN (p + of_nat (d + k)) = p" by (rule PGROUNDDOWN_byte [OF pal l])
    then show ?thesis
      using page_mod [OF pal l] store_in_page [OF f(5) d l, of "pmem s"] k
      by (simp only: umem_alt) (simp add: s'_def fr)
  qed
  have "umem ?M root va = umem (pmem s) root va"
    if va: "PGROUNDDOWN va \<in> upages (pmem s) root" "\<not> (\<exists>k<length bs. va = p + of_nat (d + k))" for va
  proof (cases "PGROUNDDOWN va = p")
    case True
    let ?k = "unat va mod 4096"
    have "\<not> (d \<le> ?k \<and> ?k < d + length bs)"
      using va(2) page_addr [of va] True by (metis add_diff_inverse_nat less_diff_conv2 not_less add.commute)
    then show ?thesis
      using store_in_page [OF f(5) d, of ?k "pmem s"] True by (auto simp: umem_alt fr)
  next
    case False
    let ?q = "PGROUNDDOWN va"
    have "frame_of (pmem s) root ?q \<noteq> ?pa" using uspace_inj [OF u va(1) p] False by blast
    moreover have "PGROUNDDOWN (frame_of (pmem s) root ?q + of_nat (unat va mod 4096)) = frame_of (pmem s) root ?q"
      by (rule PGROUNDDOWN_byte) (use uspace_frame(5) [OF u va(1)] in auto)
    ultimately show ?thesis using off by (simp add: umem_alt fr same_off_def)
  qed
  then show "ukeep s root F {va. \<exists>k<length bs. va = p + of_nat (d + k)} s' F"
    using us by (simp add: ukeep_def uview_def s'_def)
qed

section \<open>Faulting pages in\<close>

lemma walkaddr_eq:
  assumes "pt_wf R (pmem s) root"
  shows "walkaddr root va s =
    Some (if va < MAXVA \<and> lookup (pmem s) root va AND PTE_V \<noteq> 0 \<and> lookup (pmem s) root va AND PTE_U \<noteq> 0
          then frame_of (pmem s) root va else 0)"
  using slot_of_eq [OF assms, of va]
  by (cases "va < MAXVA")
    (auto simp: walkaddr_def walk_lookup frame_of_def not_le [symmetric] Let_def)

lemma ismapped_eq:
  assumes "pt_wf R (pmem s) root" "va < MAXVA"
  shows "ismapped root va s = Some (lookup (pmem s) root va AND PTE_V \<noteq> 0)"
  using slot_of_eq [OF assms(1), of va] assms(2) by (auto simp: ismapped_def walk_lookup)

lemma ukeepI:
  assumes u: "uspace s root F" "uspace s' root F'" and "mem_only s s'" "F' \<subseteq> F"
    and l: "\<And>va. PGROUNDDOWN va \<in> upages (pmem s) root \<Longrightarrow> lookup (pmem s') root va = lookup (pmem s) root va"
    and off: "same_off P (pmem s) (pmem s')" "frames (pmem s) root (upages (pmem s) root) \<inter> P = {}"
    and z: "\<And>p x. p \<in> upages (pmem s') root - upages (pmem s) root \<Longrightarrow>
      PGROUNDDOWN x = frame_of (pmem s') root p \<Longrightarrow> pmem s' x = 0"
  shows "ukeep s root F {} s' F'"
proof -
  have in_frame: "PGROUNDDOWN (frame_of (pmem t) root p + of_nat (k mod 4096)) = frame_of (pmem t) root p"
    if "uspace t root G" "p \<in> upages (pmem t) root" for t :: "'a mach_scheme" and G p k
    by (rule PGROUNDDOWN_byte) (use uspace_frame(5) [OF that] in auto)
  have "umem (pmem s') root va = umem (pmem s) root va" if va: "PGROUNDDOWN va \<in> upages (pmem s) root" for va
  proof -
    let ?pa = "frame_of (pmem s) root (PGROUNDDOWN va)"
    have "?pa \<in> frames (pmem s) root (upages (pmem s) root)"
      using va by (simp add: frames_def upages_live)
    then have "PGROUNDDOWN (?pa + of_nat (unat va mod 4096)) \<notin> P"
      using off(2) in_frame [OF u(1) va, of "unat va"] by auto
    moreover have "frame_of (pmem s') root (PGROUNDDOWN va) = ?pa"
      using l [of "PGROUNDDOWN va"] va by (simp add: frame_of_def)
    ultimately show ?thesis using off(1) by (simp add: umem_alt same_off_def)
  qed
  moreover have "umem (pmem s') root va = 0"
    if "PGROUNDDOWN va \<in> upages (pmem s') root - upages (pmem s) root" for va
    using z [OF that in_frame [OF u(2)]] that by (simp add: umem_alt)
  moreover have "upages (pmem s) root \<subseteq> upages (pmem s') root"
    using l by (auto simp: upages_def)
  ultimately show ?thesis using assms by (auto simp: ukeep_def uview_def)
qed

text \<open>\<open>runs s i root\<close>: the process \<open>i\<close> runs in the address space \<open>root\<close>, whose size is in range.\<close>

definition runs :: "'a kproc_scheme \<Rightarrow> nat \<Rightarrow> u64 \<Rightarrow> bool" where
  "runs s i root \<longleftrightarrow> cur s = Some i \<and> p_pagetable (getp s i) = root \<and> p_sz (getp s i) \<le> MAXVA"

lemma runs_mem_only: "mem_only s t \<Longrightarrow> runs s i root \<Longrightarrow> runs t i root"
  by (simp add: runs_def getp_def mem_only_kproc [of s t])

lemma frames_disj: "uspace s root F \<Longrightarrow>
    frames (pmem s) root (upages (pmem s) root) \<inter> (pt_pages (pmem s) root \<union> F) = {}"
  by (auto simp: uspace_def own_def)

lemma ukeep_failed_map:
  assumes u: "uspace s root F" and pg: "pg \<in> F" and s3: "own s3 root {pg} (upages (pmem s) root)" "mem_only s s3"
    and l: "\<And>va. va < MAXVA \<Longrightarrow> lookup (pmem s3) root va = lookup (pmem s) root va"
    and off: "same_off (pt_pages (pmem s) root \<union> F) (pmem s) (pmem s3)"
  shows "ukeep s root F {} s3 {pg}"
proof -
  have up: "upages (pmem s3) root = upages (pmem s) root" using l by (auto simp: upages_def)
  show ?thesis
  proof (rule ukeepI [OF u _ s3(2) _ _ off frames_disj [OF u]])
    show "uspace s3 root {pg}" using s3(1) up by (simp add: uspace_def)
    fix va assume "PGROUNDDOWN va \<in> upages (pmem s) root"
    then have "PGROUNDDOWN va < MAXVA" by (simp add: upages_def)
    then show "lookup (pmem s3) root va = lookup (pmem s) root va"
      using l [of "PGROUNDDOWN va"] by (simp add: lookup_PGROUNDDOWN)
  qed (use pg up in auto)
qed

lemma ukeep_fresh_page:
  assumes u: "uspace s root F" and fp: "fresh_page s root F a pg fl s2 F2"
    and o: "own s2 root F2 (insert a (upages (pmem s) root))"
    and a: "aligned a" "a < MAXVA" "lookup (pmem s) root a AND PTE_V = 0"
    and fl: "fl < 1024" "fl AND PTE_U \<noteq> 0"
  shows "ukeep s root F {} s2 F2" "a \<in> upages (pmem s2) root" "frame_of (pmem s2) root a = pg"
    "lookup (pmem s2) root a = PA2PTE pg OR fl OR PTE_V"
proof -
  have fp': "mem_only s s2" "F2 \<subseteq> F - {pg}" "page_in_ram s pg"
    "same_off (pt_pages (pmem s) root \<union> (F - F2)) (pmem s) (pmem s2)"
    and l: "\<And>vb. vb < MAXVA \<Longrightarrow> lookup (pmem s2) root vb =
      (if a = PGROUNDDOWN vb then PA2PTE pg OR fl OR PTE_V else lookup (pmem s) root vb)"
    and z: "\<And>x. PGROUNDDOWN x = pg \<Longrightarrow> pmem s2 x = 0"
    using fp unfolding fresh_page_def by blast+
  show la: "lookup (pmem s2) root a = PA2PTE pg OR fl OR PTE_V" using l [OF a(2)] a(1) by simp
  have "(PA2PTE pg OR fl OR PTE_V) AND PTE_U \<noteq> 0"
    using fl(2) by (simp add: bit.conj_disj_distrib2 or_eq_0_iff)
  then show au: "a \<in> upages (pmem s2) root" using a la by (simp add: upages_def)
  show fr: "frame_of (pmem s2) root a = pg" using la pte_frame [OF fp'(3) fl(1)] by (simp add: frame_of_def)
  have na: "a \<notin> upages (pmem s) root" using a(3) by (simp add: upages_def)
  have l': "lookup (pmem s2) root va = lookup (pmem s) root va" if "PGROUNDDOWN va \<in> upages (pmem s) root" for va
    using that na l [of "PGROUNDDOWN va"] by (auto simp: upages_def lookup_PGROUNDDOWN)
  have up: "upages (pmem s2) root = insert a (upages (pmem s) root)"
    using au l l' a by (auto simp: upages_def split: if_splits)
  show "ukeep s root F {} s2 F2"
  proof (rule ukeepI [OF u _ fp'(1) _ l' fp'(4)])
    show "uspace s2 root F2" using o up by (simp add: uspace_def)
    show "frames (pmem s) root (upages (pmem s) root) \<inter> (pt_pages (pmem s) root \<union> (F - F2)) = {}"
      using frames_disj [OF u] by blast
  qed (use fp'(2) up fr z na in auto)
qed

lemma vmfault_spec:
  fixes s :: "'a kproc_scheme"
  assumes u: "uspace s root F" and r: "runs s i root" and va: "aligned va"
  obtains (none) s' F' where "vmfault root va s = Some (0, s')" "ukeep s root F {} s' F'"
  | (some) pg s' F' where "vmfault root va s = Some (pg, s')" "ukeep s root F {} s' F'" "pg \<noteq> 0"
    "va \<in> upages (pmem s') root" "frame_of (pmem s') root va = pg"
    "lookup (pmem s') root va = PA2PTE pg OR (PTE_W OR PTE_U OR PTE_R) OR PTE_V"
proof -
  let ?f = "PTE_W OR PTE_U OR PTE_R :: u64" and ?D = "upages (pmem s) root"
  have me: "cur s = Some i" "p_pagetable (getp s i) = root" "p_sz (getp s i) \<le> MAXVA" using r by (auto simp: runs_def)
  have o: "own s root F ?D" and inv: "vm_inv s root F" and wf: "pt_wf (ram s) (pmem s) root" and km: "kmem_inv s F"
    using u by (auto simp: uspace_def own_def vm_inv_def)
  show thesis
  proof (cases "p_sz (getp s i) \<le> va \<or> lookup (pmem s) root va AND PTE_V \<noteq> 0 \<or> F = {}")
    case True
    then have "vmfault root va s = Some (0, s)"
      using me va ismapped_eq [OF wf, of va] kalloc_empty [of s] km
      by (auto simp: vmfault_def myproc_def not_le Let_def)
    then show thesis using none [of s F] u by simp
  next
    case False
    then have v: "va < MAXVA" "lookup (pmem s) root va AND PTE_V = 0" and F: "F \<noteq> {}" and sz: "\<not> p_sz (getp s i) \<le> va"
      using me(3) by auto
    obtain pg s1 where k: "kalloc s = (pg, s1)" by fastforce
    then have pg: "pg \<in> F" "pg \<noteq> 0" using kmem.alloc_some [OF km F k] by auto
    then have al: "aligned pg" using km by (auto simp: kmem_inv_def)
    define M where "M = fill_bytes (pmem s1) pg 0 4096"
    have M: "same_off {pg} (pmem s1) M" using al by (simp add: M_def same_off_fill)
    note ka = kalloc_keeps_tree [OF inv F k M]
    have vf: "vmfault root va s =
        Option.bind (mappages root va PGSIZE pg ?f (s1\<lparr>pmem := M\<rparr>))
          (\<lambda>(r, s). if r \<noteq> 0 then Option.bind (kfree pg s) (\<lambda>s. Some (0, s)) else Some (pg, s))"
      using me va v sz k pg(2) ismapped_eq [OF wf v(1)]
      by (simp add: vmfault_def myproc_def Let_def M_def)
    have pM: "pmem (s1\<lparr>pmem := M\<rparr>) = M" by simp
    have nv: "lookup (pmem (s1\<lparr>pmem := M\<rparr>)) root va AND PTE_V = 0" using v(2) ka(7) by simp
    show thesis
    proof (cases rule: mappages_one [OF ka(3) va v(1) nv, of pg ?f])
      case (1 s2)
      obtain s3 where s3: "kfree pg s2 = Some s3" "own s3 root {pg} ?D" "mem_only s s3"
        "\<And>va. va < MAXVA \<Longrightarrow> lookup (pmem s3) root va = lookup (pmem s) root va"
        "same_off (pt_pages (pmem s) root \<union> F) (pmem s) (pmem s3)"
        using map_fresh_fail [OF o F k M 1(1) 1(2) [unfolded pM]] by metis
      then show thesis
        using none [of s3 "{pg}"] vf 1(1) ukeep_failed_map [OF u pg(1) s3(2,3,4,5)] by simp
    next
      case (2 s2 F2)
      have f: "?f < 1024" "?f AND PTE_U \<noteq> 0" by simp_all
      have fp: "fresh_page s root F va pg ?f s2 F2" "own s2 root F2 (insert va ?D)"
        by (rule map_fresh_page [OF o F k al va v f(1), folded M_def, OF 2(2) [unfolded pM]])+
      then show thesis
        using some [of pg s2 F2] vf 2(1) pg(2) ukeep_fresh_page [OF u fp va v f] by simp
    qed
  qed
qed

lemma user_page_spec:
  fixes s :: "'a kproc_scheme"
  assumes u: "uspace s root F" and r: "runs s i root" and va: "aligned va"
  obtains (none) s' F' where "user_page root va s = Some (0, s')" "ukeep s root F {} s' F'" "va \<notin> upages (pmem s) root"
  | (some) pa s' F' where "user_page root va s = Some (pa, s')" "ukeep s root F {} s' F'" "pa \<noteq> 0"
    "va \<in> upages (pmem s') root" "frame_of (pmem s') root va = pa" "va \<in> upages (pmem s) root \<Longrightarrow> s' = s"
proof (cases "va \<in> upages (pmem s) root")
  case True
  have "pt_wf (ram s) (pmem s) root" using u by (simp add: uspace_def own_def vm_inv_def)
  then have "user_page root va s = Some (frame_of (pmem s) root va, s)"
    using walkaddr_eq [of "ram s" s root va] True uspace_frame(4) [OF u True]
    by (simp add: user_page_def upages_def)
  then show thesis using some [of "frame_of (pmem s) root va" s F] u True uspace_frame(4) [OF u True] by simp
next
  case False
  have "pt_wf (ram s) (pmem s) root" using u by (simp add: uspace_def own_def vm_inv_def)
  then have "walkaddr root va s = Some 0"
    using walkaddr_eq [of "ram s" s root va] False va by (auto simp: upages_def)
  then have up: "user_page root va s = vmfault root va s" by (simp add: user_page_def)
  show thesis
    by (cases rule: vmfault_spec [OF u r va]) (use none some False up in auto)
qed

section \<open>Copying\<close>

definition span :: "u64 \<Rightarrow> nat \<Rightarrow> u64 set" where
  "span a n = {va. \<exists>k<n. va = a + of_nat k}"

lemma span_0 [simp]: "span a 0 = {}"
  by (simp add: span_def)

lemma spanI: "k < n \<Longrightarrow> a + of_nat k \<in> span a n"
  by (auto simp: span_def)

lemma span_split: "span a (n + k) = span a n \<union> span (a + of_nat n) k"
proof (rule set_eqI, rule iffI)
  fix va assume "va \<in> span a (n + k)"
  then obtain i where i: "i < n + k" "va = a + of_nat i" by (auto simp: span_def)
  show "va \<in> span a n \<union> span (a + of_nat n) k"
  proof (cases "i < n")
    case False
    then have "va = a + of_nat n + of_nat (i - n)" using i(2) by (simp add: of_nat_diff)
    then show ?thesis using i(1) False spanI [of "i - n" k "a + of_nat n"] by auto
  qed (use i spanI in auto)
next
  fix va assume "va \<in> span a n \<union> span (a + of_nat n) k"
  then consider i where "i < n" "va = a + of_nat i" | i where "i < k" "va = a + of_nat (n + i)"
    by (auto simp: span_def algebra_simps)
  then show "va \<in> span a (n + k)"
    using spanI [of _ "n + k" a] by cases (metis trans_less_add1, metis nat_add_left_cancel_less)
qed

text \<open>How a copy is cut at a page boundary: \<open>d\<close> bytes into the page, \<open>n\<close> bytes of it.\<close>

lemma page_cut:
  fixes va :: u64
  defines "d \<equiv> unat va mod 4096" and "p \<equiv> PGROUNDDOWN va"
  assumes n: "n = min (unat (4096 - (va - p))) len"
  shows "va = p + of_nat d" "d + n \<le> 4096" "aligned p" "n < len \<Longrightarrow> va + of_nat n = p + 4096"
    "k < n \<Longrightarrow> va + of_nat k = p + of_nat (d + k) \<and> PGROUNDDOWN (va + of_nat k) = p"
    "va - p = of_nat d"
proof -
  show va: "va = p + of_nat d" unfolding p_def d_def by (rule page_addr)
  have room: "unat (4096 - (va - p)) = 4096 - d" unfolding p_def d_def by (rule room_in_page)
  have d: "d < 4096" by (simp add: d_def)
  show dn: "d + n \<le> 4096" using n room d by simp
  show al: "aligned p" by (simp add: p_def)
  show "va - p = of_nat d" by (subst va) simp
  show "va + of_nat n = p + 4096" if "n < len"
  proof -
    have "d + n = 4096" using that n room d by simp
    then have "of_nat (d + n) = (4096 :: u64)" by simp
    then have "of_nat d + of_nat n = (4096 :: u64)" by (simp only: of_nat_add)
    then show ?thesis by (subst va) (simp only: add.assoc)
  qed
  show "va + of_nat k = p + of_nat (d + k) \<and> PGROUNDDOWN (va + of_nat k) = p" if k: "k < n"
  proof -
    have l: "d + k < 4096" using k dn by simp
    have eq: "va + of_nat k = p + of_nat (d + k)" by (subst va) (simp add: algebra_simps)
    show ?thesis unfolding eq using PGROUNDDOWN_byte [OF al l] by simp
  qed
qed

lemma span_page: "k < n \<Longrightarrow> d + n \<le> 4096 \<Longrightarrow> span (p + of_nat d) n = {va. \<exists>k<n. va = p + of_nat (d + k)}"
  by (auto simp: span_def algebra_simps)

text \<open>What a finished copy of \<open>bs\<close> to \<open>dst\<close> has done.\<close>

definition written :: "'a mach_scheme \<Rightarrow> u64 \<Rightarrow> u64 \<Rightarrow> u8 list \<Rightarrow> bool" where
  "written s root dst bs \<longleftrightarrow> (bs \<noteq> [] \<longrightarrow> unat dst + length bs \<le> unat MAXVA) \<and>
     (\<forall>k<length bs. PGROUNDDOWN (dst + of_nat k) \<in> upages (pmem s) root \<and>
        lookup (pmem s) root (dst + of_nat k) AND PTE_W \<noteq> 0 \<and> umem (pmem s) root (dst + of_nat k) = bs ! k)"

lemma written_Cons:
  assumes c: "n = min (unat (4096 - (dst - PGROUNDDOWN dst))) (length bs)"
    and w1: "\<And>k. k < n \<Longrightarrow> PGROUNDDOWN (dst + of_nat k) \<in> upages (pmem s) root \<and>
      lookup (pmem s) root (dst + of_nat k) AND PTE_W \<noteq> 0 \<and> umem (pmem s) root (dst + of_nat k) = bs ! k"
    and w2: "written s' root (PGROUNDDOWN dst + 4096) (drop n bs)"
    and uk: "ukeep s root F (span (PGROUNDDOWN dst + 4096) (length bs - n)) s' F'"
    and va: "PGROUNDDOWN dst < MAXVA" "bs \<noteq> []"
  shows "written s' root dst bs"
proof -
  let ?p = "PGROUNDDOWN dst" and ?d = "unat dst mod 4096"
  note cut = page_cut [OF c]
  have n: "n \<le> length bs" using c by simp
  have up: "unat (?p + 4096) = unat ?p + 4096" if "n < length bs"
    using va(1) by (subst unat_add_lem [THEN iffD1]) (auto simp: word_less_nat_alt)
  have ud: "unat dst = unat ?p + ?d" by (simp add: unat_PGROUNDDOWN div_mod_decomp [symmetric] mult.commute)
  have bound: "unat dst + length bs \<le> unat MAXVA"
  proof (cases "n < length bs")
    case True
    have "drop n bs \<noteq> []" using True by simp
    then have "unat (?p + 4096) + (length bs - n) \<le> unat MAXVA" using w2 by (simp add: written_def)
    moreover have "?d + n = 4096" using c True room_in_page [of dst] by simp
    ultimately show ?thesis using up [OF True] ud True by simp
  next
    case False
    have "aligned MAXVA" by (simp add: aligned_def)
    then have "unat ?p + 4096 \<le> unat MAXVA" using aligned_gap [OF cut(3) _ va(1)] by blast
    then show ?thesis using ud cut(2) False n by simp
  qed
  have "PGROUNDDOWN (dst + of_nat k) \<in> upages (pmem s') root \<and>
      lookup (pmem s') root (dst + of_nat k) AND PTE_W \<noteq> 0 \<and> umem (pmem s') root (dst + of_nat k) = bs ! k"
    if k: "k < length bs" for k
  proof (cases "k < n")
    case True
    have "dst + of_nat k \<notin> span (?p + 4096) (length bs - n)"
    proof
      assume "dst + of_nat k \<in> span (?p + 4096) (length bs - n)"
      then obtain j where j: "j < length bs - n" "dst + of_nat k = ?p + 4096 + of_nat j" by (auto simp: span_def)
      have nl: "n < length bs" using j(1) by simp
      then have dn: "?d + n = 4096" using c room_in_page [of dst] by simp
      have "unat ?p + 4096 + j \<le> unat MAXVA" using bound ud dn j(1) by linarith
      then have jb: "unat ?p + 4096 + j < 2 ^ 64" "j < 2 ^ 64" by simp_all
      have "unat (?p + 4096 + of_nat j) = unat ?p + 4096 + j"
        using up [OF nl] jb by (subst unat_add_lem [THEN iffD1]) simp_all
      moreover have "unat (dst + of_nat k) = unat ?p + (?d + k)"
        using aligned_unat_add [OF cut(3), of "?d + k"] cut(2) True
        unfolding conjunct1 [OF cut(5) [OF True]] by simp
      ultimately show False using j(2) cut(2) True by simp
    qed
    then show ?thesis using w1 [OF True] ukeepD(3,4,5) [OF uk] by auto
  next
    case False
    have "dst + of_nat k = ?p + 4096 + of_nat (k - n)"
    proof -
      have "dst + of_nat k = dst + of_nat n + of_nat (k - n)" using False by (simp add: of_nat_diff)
      then show ?thesis using cut(4) False k by simp
    qed
    moreover have "k - n < length (drop n bs)" "drop n bs ! (k - n) = bs ! k" using k False n by auto
    ultimately show ?thesis using w2 unfolding written_def by metis
  qed
  then show ?thesis using bound by (simp add: written_def)
qed

lemma copyout_step:
  fixes s :: "'a kproc_scheme"
  assumes u: "uspace s root F" and p: "PGROUNDDOWN dst \<in> upages (pmem s) root"
    and w: "lookup (pmem s) root dst AND PTE_W \<noteq> 0"
    and c: "n = min (unat (4096 - (dst - PGROUNDDOWN dst))) (length bs)"
  defines "s' \<equiv> s\<lparr>pmem := store_bytes (pmem s)
      (frame_of (pmem s) root (PGROUNDDOWN dst) + (dst - PGROUNDDOWN dst)) (take n bs)\<rparr>"
  shows "ukeep s root F (span dst n) s' F"
    and "k < n \<Longrightarrow> PGROUNDDOWN (dst + of_nat k) \<in> upages (pmem s') root \<and>
      lookup (pmem s') root (dst + of_nat k) AND PTE_W \<noteq> 0 \<and> umem (pmem s') root (dst + of_nat k) = bs ! k"
proof -
  note cut = page_cut [OF c]
  let ?p = "PGROUNDDOWN dst" and ?d = "unat dst mod 4096"
  have n: "length (take n bs) = n" using c by simp
  have d: "?d + length (take n bs) \<le> 4096" using cut(2) n by simp
  have s': "s' = s\<lparr>pmem := store_bytes (pmem s) (frame_of (pmem s) root ?p + of_nat ?d) (take n bs)\<rparr>"
    unfolding s'_def cut(6) ..
  have st: "ukeep s root F {va. \<exists>k<n. va = ?p + of_nat (?d + k)} s' F"
    "k < n \<Longrightarrow> umem (pmem s') root (?p + of_nat (?d + k)) = take n bs ! k"
    "lookup (pmem s') root va = lookup (pmem s) root va" for k va
    using user_store [OF u p d] unfolding s' n by blast+
  have "(va = dst + of_nat k) = (va = ?p + of_nat (?d + k))" if "k < n" for va k
    using cut(5) [OF that] by (simp only:)
  then have "span dst n = {va. \<exists>k<n. va = ?p + of_nat (?d + k)}"
    unfolding span_def by blast
  then show uk: "ukeep s root F (span dst n) s' F" using st(1) by simp
  show "PGROUNDDOWN (dst + of_nat k) \<in> upages (pmem s') root \<and>
      lookup (pmem s') root (dst + of_nat k) AND PTE_W \<noteq> 0 \<and> umem (pmem s') root (dst + of_nat k) = bs ! k"
    if k: "k < n"
  proof -
    note ck = cut(5) [OF k]
    have "lookup (pmem s') root (dst + of_nat k) = lookup (pmem s) root dst"
      using st(3) lookup_page [of "dst + of_nat k" dst] ck by metis
    moreover have "?p \<in> upages (pmem s') root" using ukeepD(3) [OF uk] p by blast
    moreover have "umem (pmem s') root (?p + of_nat (?d + k)) = bs ! k" using st(2) [OF k] k by simp
    ultimately show ?thesis using w ck by metis
  qed
qed

lemma copyout_spec:
  fixes s :: "'a kproc_scheme"
  assumes "uspace s root F" "runs s i root"
  shows "\<exists>r s' F'. copyout root dst bs s = Some (r, s') \<and> ukeep s root F (span dst (length bs)) s' F' \<and>
    (r = 0 \<and> written s' root dst bs \<or> r = - 1)"
  using assms
proof (induction "length bs" arbitrary: dst bs s F rule: less_induct)
  case less
  let ?p = "PGROUNDDOWN dst"
  define n where "n = min (unat (4096 - (dst - ?p))) (length bs)"
  have ex: ?case if "copyout root dst bs s = Some (- 1, t)" "ukeep s root F W t G" "W \<subseteq> span dst (length bs)" for t G W
    using that ukeep_mono by blast
  show ?case
  proof (cases "bs = [] \<or> MAXVA \<le> ?p")
    case True
    then show ?thesis
      using ukeep_refl [OF less.prems(1), of "span dst (length bs)"]
      by (subst copyout.simps) (auto simp: written_def)
  next
    case False
    then have b: "bs \<noteq> []" "?p < MAXVA" "\<not> MAXVA \<le> ?p" by auto
    show ?thesis
    proof (cases rule: user_page_spec [OF less.prems aligned_PGROUNDDOWN, of dst])
      case (1 t G)
      show ?thesis
        by (rule ex [of t "{}" G]) (use 1 b in \<open>auto simp: copyout.simps [of root dst] Let_def\<close>)
    next
      case (2 pa t G)
      have ut: "uspace t root G" "runs t i root" using ukeepD(1,2) [OF 2(2)] runs_mem_only less.prems(2) by auto
      have wf: "pt_wf (ram t) (pmem t) root" using ut(1) by (simp add: uspace_def own_def vm_inv_def)
      have nz: "lookup (pmem t) root ?p \<noteq> 0" using 2(4) by (auto simp: upages_def)
      then have sl: "slot_of (pmem t) root ?p \<noteq> 0" using slot_of_eq(3) [OF wf] by blast
      have unf: "copyout root dst bs s =
          (if lookup (pmem t) root dst AND PTE_W = 0 then Some (- 1, t)
           else copyout root (?p + 4096) (drop n bs) (t\<lparr>pmem := store_bytes (pmem t) (pa + (dst - ?p)) (take n bs)\<rparr>))"
        using b 2(1,3) sl slot_of_eq(2) [OF wf sl] walk_lookup [of ?p root t]
        by (subst copyout.simps) (simp add: n_def Let_def lookup_PGROUNDDOWN)
      show ?thesis
      proof (cases "lookup (pmem t) root dst AND PTE_W = 0")
        case True
        then show ?thesis using ex [of t "{}" G] unf 2(2) by simp
      next
        case w: False
        define t1 where "t1 = t\<lparr>pmem := store_bytes (pmem t) (pa + (dst - ?p)) (take n bs)\<rparr>"
        note st = copyout_step [OF ut(1) 2(4) w n_def, unfolded 2(5), folded t1_def]
        have lt: "length (drop n bs) < length bs" using b(1) room_in_page_pos [of dst] by (simp add: n_def)
        have ut1: "uspace t1 root G" "runs t1 i root"
          using ukeepD(1,2) [OF st(1)] runs_mem_only ut(2) by auto
        obtain r s' F' where IH: "copyout root (?p + 4096) (drop n bs) t1 = Some (r, s')"
          "ukeep t1 root G (span (?p + 4096) (length bs - n)) s' F'"
          "r = 0 \<and> written s' root (?p + 4096) (drop n bs) \<or> r = - 1"
          using less.hyps [OF lt ut1, of "?p + 4096"] by auto
        have nb: "n + (length bs - n) = length bs" by (simp add: n_def)
        have sp: "span dst n \<union> span (?p + 4096) (length bs - n) = span dst (length bs)"
        proof (cases "n < length bs")
          case True
          then show ?thesis using span_split [of dst n "length bs - n"] page_cut(4) [OF n_def True] nb by simp
        qed (simp add: n_def)
        have uk: "ukeep s root F (span dst (length bs)) s' F'"
          using ukeep_trans [OF ukeep_trans [OF 2(2) st(1)] IH(2)] sp by simp
        have "written s' root dst bs" if "r = 0"
          using that IH(3) written_Cons [OF n_def st(2) _ IH(2) b(2,1)] by auto
        then show ?thesis using unf w IH(1,3) uk by (auto simp: t1_def)
      qed
    qed
  qed
qed

text \<open>A copy to pages that are there and writable succeeds.\<close>

definition uwritable :: "'a mach_scheme \<Rightarrow> u64 \<Rightarrow> u64 \<Rightarrow> nat \<Rightarrow> bool" where
  "uwritable s root dst n \<longleftrightarrow> (\<forall>k<n. PGROUNDDOWN (dst + of_nat k) \<in> upages (pmem s) root \<and>
     lookup (pmem s) root (dst + of_nat k) AND PTE_W \<noteq> 0)"

lemma writable_uview: "uwritable s root dst n \<Longrightarrow> uview s root F W t G \<Longrightarrow> uwritable t root dst n"
  using uviewD(2,4) by (fastforce simp: uwritable_def)

lemma copyout_writable:
  fixes s :: "'a kproc_scheme"
  assumes "uspace s root F" "runs s i root" "uwritable s root dst (length bs)"
  shows "\<exists>s'. copyout root dst bs s = Some (0, s')"
  using assms
proof (induction "length bs" arbitrary: dst bs s rule: less_induct)
  case less
  let ?p = "PGROUNDDOWN dst"
  define n where "n = min (unat (4096 - (dst - ?p))) (length bs)"
  show ?case
  proof (cases "bs = []")
    case False
    then have p: "?p \<in> upages (pmem s) root" and w: "lookup (pmem s) root dst AND PTE_W \<noteq> 0"
      using less.prems(3) spec [of _ "0::nat"] by (force simp: uwritable_def)+
    have up: "user_page root ?p s = Some (frame_of (pmem s) root ?p, s)" "frame_of (pmem s) root ?p \<noteq> 0"
      by (cases rule: user_page_spec [OF less.prems(1,2) aligned_PGROUNDDOWN, of dst]; use p in auto)+
    have wf: "pt_wf (ram s) (pmem s) root" using less.prems(1) by (simp add: uspace_def own_def vm_inv_def)
    have nz: "lookup (pmem s) root ?p \<noteq> 0" "\<not> MAXVA \<le> ?p" using p by (auto simp: upages_def)
    then have sl: "slot_of (pmem s) root ?p \<noteq> 0" using slot_of_eq(3) [OF wf] by blast
    define t where "t = s\<lparr>pmem := store_bytes (pmem s) (frame_of (pmem s) root ?p + (dst - ?p)) (take n bs)\<rparr>"
    have unf: "copyout root dst bs s = copyout root (?p + 4096) (drop n bs) t"
      using False up sl slot_of_eq(2) [OF wf sl] walk_lookup [of ?p root s] nz w
      by (subst copyout.simps) (simp add: n_def t_def Let_def lookup_PGROUNDDOWN)
    note st = copyout_step(1) [OF less.prems(1) p w n_def, folded t_def]
    have ut: "uspace t root F" "runs t i root" using ukeepD(1,2) [OF st] runs_mem_only less.prems(2) by auto
    have lt: "length (drop n bs) < length bs" using False room_in_page_pos [of dst] by (simp add: n_def)
    have wt: "uwritable t root dst (length bs)" using st less.prems(3) writable_uview by (auto simp: ukeep_def)
    have "uwritable t root (?p + 4096) (length (drop n bs))"
      unfolding uwritable_def
    proof (intro allI impI)
      fix k assume "k < length (drop n bs)"
      then have k: "n < length bs" "n + k < length bs" by auto
      have "?p + 4096 + of_nat k = dst + of_nat (n + k)" using page_cut(4) [OF n_def k(1)] by simp
      then show "PGROUNDDOWN (?p + 4096 + of_nat k) \<in> upages (pmem t) root \<and>
          lookup (pmem t) root (?p + 4096 + of_nat k) AND PTE_W \<noteq> 0"
        using wt k(2) unfolding uwritable_def by metis
    qed
    then show ?thesis using less.hyps [OF lt ut] unf by simp
  qed (simp add: copyout.simps)
qed

lemma umem_in_page:
  assumes c: "n = min (unat (4096 - (va - PGROUNDDOWN va))) len"
  shows "load_bytes (pmem s) (frame_of (pmem s) root (PGROUNDDOWN va) + (va - PGROUNDDOWN va)) n =
    map (\<lambda>k. umem (pmem s) root (va + of_nat k)) [0..<n]"
proof -
  let ?p = "PGROUNDDOWN va" and ?d = "unat va mod 4096"
  note cut = page_cut [OF c]
  have "umem (pmem s) root (va + of_nat k) = pmem s (frame_of (pmem s) root ?p + (va - ?p) + of_nat k)"
    if k: "k < n" for k
  proof -
    have l: "?d + k < 4096" using cut(2) k by simp
    show ?thesis
      unfolding umem_alt conjunct1 [OF cut(5) [OF k]] PGROUNDDOWN_byte [OF cut(3) l] page_mod [OF cut(3) l] cut(6)
      by (simp add: algebra_simps)
  qed
  then show ?thesis by (simp add: load_bytes_def)
qed

lemma map_upt_split: "map f [0..<n + m] = map f [0..<n] @ map (\<lambda>k. f (n + k)) [0..<m]"
  by (rule nth_equalityI) (auto simp: nth_append)

text \<open>A copy from pages that are there changes nothing.\<close>

lemma copyin_mapped:
  fixes s :: "'a kproc_scheme"
  assumes "uspace s root F" "runs s i root"
    and "\<And>k. k < len \<Longrightarrow> PGROUNDDOWN (src + of_nat k) \<in> upages (pmem s) root"
  shows "copyin root src len s = Some (0, map (\<lambda>k. umem (pmem s) root (src + of_nat k)) [0..<len], s)"
  using assms(3)
proof (induction len arbitrary: src rule: less_induct)
  case (less len)
  let ?p = "PGROUNDDOWN src"
  define n where "n = min (unat (4096 - (src - ?p))) len"
  show ?case
  proof (cases "len = 0")
    case False
    then have p: "?p \<in> upages (pmem s) root" using less.prems [of 0] by simp
    have up: "user_page root ?p s = Some (frame_of (pmem s) root ?p, s)" "frame_of (pmem s) root ?p \<noteq> 0"
      by (cases rule: user_page_spec [OF assms(1,2) aligned_PGROUNDDOWN, of src]; use p in auto)+
    have n: "n \<le> len" "0 < n" using False room_in_page_pos [of src] by (auto simp: n_def)
    have e: "?p + 4096 + of_nat k = src + of_nat (n + k)" if "n < len" for k
      using page_cut(4) [OF n_def that] by simp
    have IH: "copyin root (?p + 4096) (len - n) s =
        Some (0, map (\<lambda>k. umem (pmem s) root (?p + 4096 + of_nat k)) [0..<len - n], s)"
    proof (cases "n < len")
      case True
      have "PGROUNDDOWN (?p + 4096 + of_nat k) \<in> upages (pmem s) root" if "k < len - n" for k
        using less.prems [of "n + k"] that unfolding e [OF True] by simp
      then show ?thesis using less.IH [of "len - n" "?p + 4096"] n by simp
    qed (use n in \<open>simp add: copyin.simps\<close>)
    have "map (\<lambda>k. umem (pmem s) root (?p + 4096 + of_nat k)) [0..<len - n] =
        map (\<lambda>k. umem (pmem s) root (src + of_nat (n + k))) [0..<len - n]"
      using e n by (cases "n < len") (simp_all del: of_nat_add)
    then have "map (\<lambda>k. umem (pmem s) root (src + of_nat k)) [0..<len] =
        map (\<lambda>k. umem (pmem s) root (src + of_nat k)) [0..<n] @
        map (\<lambda>k. umem (pmem s) root (?p + 4096 + of_nat k)) [0..<len - n]"
      using map_upt_split [of "\<lambda>k. umem (pmem s) root (src + of_nat k)" n "len - n"] n by simp
    then show ?thesis
      using up IH False by (subst copyin.simps) (simp add: n_def [symmetric] umem_in_page [OF n_def] Let_def)
  qed (simp add: copyin.simps)
qed

lemma copyin_spec:
  fixes s :: "'a kproc_scheme"
  assumes "uspace s root F" "runs s i root"
  shows "\<exists>r bs s' F'. copyin root src len s = Some (r, bs, s') \<and> ukeep s root F {} s' F' \<and>
    (r = 0 \<and> (\<forall>k<len. PGROUNDDOWN (src + of_nat k) \<in> upages (pmem s') root) \<and>
     bs = map (\<lambda>k. umem (pmem s') root (src + of_nat k)) [0..<len] \<or> r = - 1)"
  using assms
proof (induction len arbitrary: src s F rule: less_induct)
  case (less len)
  let ?p = "PGROUNDDOWN src"
  define n where "n = min (unat (4096 - (src - ?p))) len"
  show ?case
  proof (cases "len = 0")
    case True
    then show ?thesis using ukeep_refl [OF less.prems(1), of "{}"] by (auto simp: copyin.simps)
  next
    case False
    then have n: "n \<le> len" "0 < n" using room_in_page_pos [of src] by (auto simp: n_def)
    show ?thesis
    proof (cases rule: user_page_spec [OF less.prems aligned_PGROUNDDOWN, of src])
      case (1 t G)
      then show ?thesis using False by (subst copyin.simps) auto
    next
      case (2 pa t G)
      have ut: "uspace t root G" "runs t i root" using ukeepD(1,2) [OF 2(2)] runs_mem_only less.prems(2) by auto
      obtain r bs s' F' where IH: "copyin root (?p + 4096) (len - n) t = Some (r, bs, s')" "ukeep t root G {} s' F'"
        "r = 0 \<and> (\<forall>k<len - n. PGROUNDDOWN (?p + 4096 + of_nat k) \<in> upages (pmem s') root) \<and>
         bs = map (\<lambda>k. umem (pmem s') root (?p + 4096 + of_nat k)) [0..<len - n] \<or> r = - 1"
        using less.IH [OF _ ut, of "len - n" "?p + 4096"] n by auto
      let ?l = "map (\<lambda>k. umem (pmem t) root (src + of_nat k)) [0..<n]"
      have c: "copyin root src len s = Some (r, ?l @ bs, s')"
        using 2(1,3,5) IH(1) False umem_in_page [OF n_def, of t root]
        by (subst copyin.simps) (simp add: n_def [symmetric] Let_def)
      have uk: "ukeep s root F {} s' F'" using ukeep_trans [OF 2(2) IH(2)] by simp
      have l: "PGROUNDDOWN (src + of_nat k) = ?p" if "k < n" for k using page_cut(5) [OF n_def that] by simp
      have ls: "?l = map (\<lambda>k. umem (pmem s') root (src + of_nat k)) [0..<n]"
        using ukeepD(4) [OF IH(2)] l 2(4) by simp
      have e: "?p + 4096 + of_nat k = src + of_nat (n + k)" if "k < len - n" for k
        using page_cut(4) [OF n_def] that by simp
      have "PGROUNDDOWN (src + of_nat k) \<in> upages (pmem s') root"
        if r: "r = 0" and k: "k < len" for k
      proof (cases "k < n")
        case True
        then show ?thesis using l 2(4) ukeepD(3) [OF IH(2)] by auto
      next
        case False
        then have kn: "k - n < len - n" "n + (k - n) = k" using k by auto
        have "r \<noteq> - 1" using r by simp
        then have "PGROUNDDOWN (?p + 4096 + of_nat (k - n)) \<in> upages (pmem s') root" using IH(3) kn(1) by blast
        then show ?thesis unfolding e [OF kn(1)] kn(2) .
      qed
      moreover have "?l @ bs = map (\<lambda>k. umem (pmem s') root (src + of_nat k)) [0..<len]" if r: "r = 0"
      proof -
        have "bs = map (\<lambda>k. umem (pmem s') root (?p + 4096 + of_nat k)) [0..<len - n]" using IH(3) r by simp
        also have "\<dots> = map (\<lambda>k. umem (pmem s') root (src + of_nat (n + k))) [0..<len - n]"
          by (intro map_cong refl arg_cong [where f = "umem (pmem s') root"] e) simp
        finally show ?thesis
          using map_upt_split [of "\<lambda>k. umem (pmem s') root (src + of_nat k)" n "len - n"] ls n by simp
      qed
      ultimately show ?thesis using c uk IH(3) by blast
    qed
  qed
qed

section \<open>A sample address space\<close>

text \<open>The machine \<open>two_free\<close> with a table at \<open>0x87FFD000\<close> that maps page 0, readable and writable for
  the user, to the page \<open>0x87FFA000\<close>.\<close>

definition demo_mem :: phys where
  "demo_mem = store64 (grow (grow (pmem two_free) 0x87FFD000 0 0x87FFC000) 0x87FFC000 0 0x87FFB000)
     0x87FFB000 (PA2PTE 0x87FFA000 OR (PTE_W OR PTE_U OR PTE_R) OR PTE_V)"

definition demo_mach :: mach where
  "demo_mach = two_free\<lparr>pmem := demo_mem\<rparr>"

abbreviation (input) demo_root :: u64 where "demo_root \<equiv> 0x87FFD000"

lemma demo_ram: "0x87FFD000 \<in> ram two_free" "0x87FFC000 \<in> ram two_free" "0x87FFB000 \<in> ram two_free"
  "0x87FFA000 \<in> ram two_free"
  by (simp_all add: ram_def page_in_ram_def two_free_def boot_mach_def aligned_def)

lemma demo_aligned [simp]: "aligned 0x87FFC000" "aligned 0x87FFB000" "aligned 0x87FFA000" "aligned 0x87FFD000"
  "aligned 0x87FFE000" "aligned 0x87FFF000"
  by (simp_all add: aligned_def)

lemma vpath_0: "vpath 0 = [0, 0]" "vidx 0 = 0"
  by (simp_all add: vpath_def vidx_def PX_def)

lemma demo_table:
  "pt_wf (ram two_free) demo_mem demo_root" "pt_pages demo_mem demo_root = {0x87FFB000, 0x87FFC000, 0x87FFD000}"
  "va < MAXVA \<Longrightarrow> lookup demo_mem demo_root va =
     (if PGROUNDDOWN va = 0 then PA2PTE 0x87FFA000 OR (PTE_W OR PTE_U OR PTE_R) OR PTE_V else 0)"
proof -
  let ?m0 = "pmem two_free" and ?R = "ram two_free"
  let ?m1 = "grow ?m0 0x87FFD000 0 0x87FFC000"
  let ?m2 = "grow ?m1 0x87FFC000 0 0x87FFB000"
  note e = empty_table [OF two_free_table demo_ram(1) two_free_ram(2)]
  have q0: "valid_path ([] @ [0])" "tbl ?m0 demo_root [] = Some 0x87FFD000" "tbl ?m0 demo_root ([] @ [0]) = None"
    using two_free_table [of 0] by (simp_all add: valid_path_def next_tbl_def)
  have w1: "pt_wf ?R ?m1 demo_root" "pt_pages ?m1 demo_root = {0x87FFC000, 0x87FFD000}" "lookup ?m1 demo_root va = 0" for va
    using pt_grow [OF e(1) q0] e demo_ram by auto
  have t1: "tbl ?m1 demo_root p = (if p = [0] then Some 0x87FFC000 else tbl ?m0 demo_root p)" if "valid_path p" for p
    using tbl_grow [OF e(1) q0 _ _ _ that] e by simp
  have q1: "valid_path ([0] @ [0])" "tbl ?m1 demo_root [0] = Some 0x87FFC000" "tbl ?m1 demo_root ([0] @ [0]) = None"
    using t1 [of "[0]"] t1 [of "[0, 0]"] two_free_table [of 0] by (simp_all add: valid_path_def next_tbl_def)
  have w2: "pt_wf ?R ?m2 demo_root" "pt_pages ?m2 demo_root = {0x87FFB000, 0x87FFC000, 0x87FFD000}"
    "lookup ?m2 demo_root va = 0" for va
    using pt_grow [OF w1(1) q1] w1 demo_ram by auto
  have "tbl ?m2 demo_root ([0] @ [0]) = Some 0x87FFB000"
    using tbl_grow [OF w1(1) q1 _ _ _ q1(1)] w1 by simp
  then have t2: "tbl ?m2 demo_root (vpath 0) = Some 0x87FFB000" by (simp add: vpath_0)
  let ?v = "PA2PTE 0x87FFA000 OR (PTE_W OR PTE_U OR PTE_R) OR PTE_V"
  have dm: "demo_mem = store64 ?m2 (0x87FFB000 + 8 * of_nat (vidx 0)) ?v" by (simp add: demo_mem_def vpath_0)
  show "pt_wf ?R demo_mem demo_root" "pt_pages demo_mem demo_root = {0x87FFB000, 0x87FFC000, 0x87FFD000}"
    unfolding dm using pt_store_leaf [OF w2(1) t2, of ?v] w2(2) by simp_all
  show "lookup demo_mem demo_root va = (if PGROUNDDOWN va = 0 then ?v else 0)" if "va < MAXVA"
    unfolding dm using lookup_store_leaf [OF w2(1) t2 _ that, of ?v] w2(3) by auto
qed

lemma demo_same_off: "same_off {0x87FFB000, 0x87FFC000, 0x87FFD000} (pmem two_free) demo_mem"
proof -
  let ?m1 = "grow (pmem two_free) 0x87FFD000 0 0x87FFC000" and ?m2 = "\<lambda>m. grow m 0x87FFC000 0 0x87FFB000"
  have g: "same_off {pg, a} m (grow m a 0 pg)" if "aligned pg" "aligned a" for m pg a
    using same_off_trans [OF same_off_fill [OF that(1)] same_off_store64 [OF that(2), of 0]]
    by (simp add: grow_def insert_commute)
  have "same_off {0x87FFB000} (?m2 ?m1) demo_mem"
    using same_off_store64 [where pa = "0x87FFB000" and i = 0] by (simp add: demo_mem_def)
  from same_off_trans [OF same_off_trans [OF g [of "0x87FFC000" "0x87FFD000" "pmem two_free"]
        g [of "0x87FFB000" "0x87FFC000" ?m1]] this]
  show ?thesis by (auto elim!: same_off_mono)
qed

lemma demo_upages: "upages demo_mem demo_root = {0}"
  by (auto simp: upages_def demo_table(3) PA2PTE_def split: if_splits)

lemma demo_frame: "frame_of demo_mem demo_root 0 = 0x87FFA000"
  using pte_frame [of two_free "0x87FFA000" "PTE_W OR PTE_U OR PTE_R"] demo_ram(4)
  by (simp add: frame_of_def demo_table(3) ram_def)

lemma demo_uspace:
  assumes "pmem s = demo_mem" "freelist s = freelist two_free" "sym s = sym two_free"
  shows "uspace s demo_root {0x87FFF000, 0x87FFE000}"
proof -
  have r: "page_in_ram s = page_in_ram two_free" "ram s = ram two_free"
    using assms(3) by (auto simp: ram_def page_in_ram_def fun_eq_iff)
  have "kmem_inv (two_free\<lparr>pmem := demo_mem\<rparr>) {0x87FFF000, 0x87FFE000}"
    using kmem_inv_frame [OF two_free_inv, of "{0x87FFB000, 0x87FFC000, 0x87FFD000}" "two_free\<lparr>pmem := demo_mem\<rparr>"]
      demo_same_off by simp
  then have "kmem_inv s {0x87FFF000, 0x87FFE000}" using r assms by (simp add: kmem_inv_def page_in_ram_def)
  then have "vm_inv s demo_root {0x87FFF000, 0x87FFE000}"
    using demo_table r assms(1) by (simp add: vm_inv_def)
  then show ?thesis
    using demo_upages demo_frame demo_ram(4) demo_table(2) r assms(1) upages_live [of demo_mem demo_root]
    by (simp add: uspace_def own_def frames_def)
qed

definition blank_proc :: proc where
  "blank_proc = \<lparr>p_shm_va = 0, p_usar_memoria_compartida = False, p_trace_mask = 0, p_map_ro_va = 0,
     p_state = UNUSED, p_chan = None, p_killed = False, p_xstate = 0, p_pid = 0, p_parent = None,
     p_kstack = 0, p_sz = 0, p_pagetable = 0, p_trapframe = 0,
     p_context = \<lparr>ctx_ra = 0, ctx_sp = 0, ctx_s = []\<rparr>, p_ofile = replicate NOFILE None, p_cwd = None,
     p_name = replicate 16 0, p_pagefault_count = 0, p_vr = \<lparr>vr_start = 0, vr_size = 0, vr_active = False\<rparr>\<rparr>"

definition demo_proc :: proc where
  "demo_proc = blank_proc\<lparr>p_state := RUNNING, p_pid := 1, p_sz := 4096, p_pagetable := demo_root\<rparr>"

definition demo_kproc :: kproc where
  "demo_kproc = \<lparr>pmem = demo_mem, freelist = freelist two_free, sym = sym two_free, conout = [],
     kernel_pagetable = 0, satp = 0, procs = [demo_proc], cur = Some 0, nextpid = 2, initproc = Some 0,
     ticks = 0, shared_page = 0, refcount = 0\<rparr>"

lemma demo_runs: "uspace demo_kproc demo_root {0x87FFF000, 0x87FFE000}" "runs demo_kproc 0 demo_root"
  using demo_uspace [of demo_kproc]
  by (simp_all add: demo_kproc_def runs_def getp_def demo_proc_def)

section \<open>Properties\<close>

text \<open>C7: \<open>copyout\<close> to any user address and with any length returns, without a kernel fault. On 0 every
  byte is stored in a writable user page below \<open>MAXVA\<close>; otherwise it returns -1, which it does not
  when the destination is mapped and writable. In both cases no mapping of a user page changes, every
  user byte outside the destination keeps its value, and a page that was faulted in is zero there.\<close>

theorem copyout_effect:
  fixes s :: "'a kproc_scheme"
  assumes "uspace s root F" "runs s i root"
  shows "\<exists>r s' F'. copyout root dst bs s = Some (r, s') \<and> ukeep s root F (span dst (length bs)) s' F' \<and>
    (if uwritable s root dst (length bs) \<or> r = 0 then r = 0 \<and> written s' root dst bs else r = - 1)"
  using copyout_spec [OF assms, of dst bs] copyout_writable [OF assms, of dst bs] by fastforce

theorem copyout_effect_witness:
  "\<exists>r s' F'. copyout demo_root 4090 [1, 2, 3] demo_kproc = Some (r, s') \<and>
    ukeep demo_kproc demo_root {0x87FFF000, 0x87FFE000} (span 4090 3) s' F' \<and>
    (if uwritable demo_kproc demo_root 4090 3 \<or> r = 0 then r = 0 \<and> written s' demo_root 4090 [1, 2, 3] else r = - 1)"
  using copyout_effect [OF demo_runs, of 4090 "[1, 2, 3]"] by (simp add: numeral_3_eq_3)

text \<open>C13: what \<open>copyout\<close> has stored in user memory, \<open>copyin\<close> from the same address gives back, and it
  changes nothing.\<close>

theorem copyout_copyin:
  fixes s :: "'a kproc_scheme"
  assumes "uspace s root F" "runs s i root" "copyout root va bs s = Some (0, s')"
  shows "copyin root va (length bs) s' = Some (0, bs, s')"
proof -
  obtain F' where uk: "ukeep s root F (span va (length bs)) s' F'" and w: "written s' root va bs"
    using copyout_spec [OF assms(1,2), of va bs] assms(3) by auto
  have "runs s' i root" using runs_mem_only ukeepD(2) [OF uk] assms(2) by blast
  moreover have "map (\<lambda>k. umem (pmem s') root (va + of_nat k)) [0..<length bs] = bs"
    using w by (intro nth_equalityI) (auto simp: written_def)
  ultimately show ?thesis
    using copyin_mapped [OF ukeepD(1) [OF uk], of i "length bs" va] w by (simp add: written_def)
qed

lemma demo_copyout: "copyout demo_root 8 [7] demo_kproc = Some (0, demo_kproc\<lparr>pmem := (demo_mem)(0x87FFA008 := 7)\<rparr>)"
proof -
  have wf: "pt_wf (ram demo_kproc) (pmem demo_kproc) demo_root"
    using demo_runs(1) by (simp add: uspace_def own_def vm_inv_def)
  have up: "user_page demo_root 0 demo_kproc = Some (0x87FFA000, demo_kproc)"
    by (cases rule: user_page_spec [OF demo_runs aligned_0])
      (use demo_upages demo_frame in \<open>auto simp: demo_kproc_def\<close>)
  have l: "lookup (pmem demo_kproc) demo_root 0 = PA2PTE 0x87FFA000 OR (PTE_W OR PTE_U OR PTE_R) OR PTE_V"
    by (simp add: demo_kproc_def demo_table(3))
  then have nz: "lookup (pmem demo_kproc) demo_root 0 \<noteq> 0" by (auto simp: PA2PTE_def)
  then have sl: "slot_of (pmem demo_kproc) demo_root 0 \<noteq> 0" using slot_of_eq(3) [OF wf] by blast
  have "PGROUNDDOWN 8 = 0" by (simp add: PGROUNDDOWN_alt)
  then show ?thesis
    using up sl slot_of_eq(2) [OF wf sl] l walk_lookup [of 0 demo_root demo_kproc]
    by (subst copyout.simps) (simp add: copyout.simps PA2PTE_def store_bytes_def fun_eq_iff demo_kproc_def unsigned_eq_0_iff)
qed

theorem copyout_copyin_witness:
  "\<exists>s'. copyout demo_root 8 [7] demo_kproc = Some (0, s') \<and> copyin demo_root 8 1 s' = Some (0, [7], s')"
  using copyout_copyin [OF demo_runs demo_copyout] demo_copyout by auto

end
