(* ===== verification/Proc.thy ===== *)
theory Proc
  imports VM_User
begin

text \<open>
  The process table, the parts of \<^verbatim>\<open>kernel/proc.c\<close> below the file system, and
  \<^verbatim>\<open>kernel/crear_memoria_compartida.c\<close>. A process is named by its index in \<open>proc[NPROC]\<close>.
  The locks make each of these operations atomic and are not part of the state here.
  Dereferencing a null \<open>myproc()\<close> or a null process pointer has no result.
\<close>

section \<open>The process table\<close>

definition procinit :: "'a kproc_scheme \<Rightarrow> 'a kproc_scheme" where
  "procinit s = s\<lparr>procs := map (\<lambda>i. (procs s ! i)\<lparr>p_state := UNUSED, p_kstack := KSTACK i\<rparr>) [0..<NPROC]\<rparr>"

definition allocpid :: "'a kproc_scheme \<Rightarrow> u32 \<times> 'a kproc_scheme" where
  "allocpid s = (nextpid s, s\<lparr>nextpid := nextpid s + 1\<rparr>)"

fun find_proc :: "(proc \<Rightarrow> bool) \<Rightarrow> proc list \<Rightarrow> nat option" where
  "find_proc P [] = None"
| "find_proc P (p # ps) = (if P p then Some 0 else map_option Suc (find_proc P ps))"

definition proc_freepagetable :: "u64 \<Rightarrow> u64 \<Rightarrow> 'a mach_scheme \<Rightarrow> 'a mach_scheme option" where
  "proc_freepagetable pagetable sz s = do {
     s \<leftarrow> uvmunmap pagetable TRAMPOLINE 1 False s;
     s \<leftarrow> uvmunmap pagetable TRAPFRAME 1 False s;
     uvmfree pagetable sz s
   }"

definition proc_pagetable :: "u64 \<Rightarrow> 'a mach_scheme \<Rightarrow> (u64 \<times> 'a mach_scheme) option" where
  "proc_pagetable trapframe s =
     (let (pagetable, s) = uvmcreate s
      in if pagetable = 0 then Some (0, s)
         else do {
           (r, s) \<leftarrow> mappages pagetable TRAMPOLINE PGSIZE (sym_trampoline (sym s)) (PTE_R OR PTE_X) s;
           if r < 0 then do { s \<leftarrow> uvmfree pagetable 0 s; Some (0, s) }
           else do {
             (r, s) \<leftarrow> mappages pagetable TRAPFRAME PGSIZE trapframe (PTE_R OR PTE_W) s;
             if r < 0 then do {
               s \<leftarrow> uvmunmap pagetable TRAMPOLINE 1 False s;
               s \<leftarrow> uvmfree pagetable 0 s;
               Some (0, s)
             } else Some (pagetable, s)
           }
         })"

section \<open>Freeing a process\<close>

text \<open>Dropping the reference to the shared page.\<close>

definition free_shared :: "nat \<Rightarrow> 'a kproc_scheme \<Rightarrow> 'a kproc_scheme option" where
  "free_shared i s =
     (let p = getp s i
      in if p_usar_memoria_compartida p \<and> p_shm_va p \<noteq> 0 then do {
           let s = s\<lparr>refcount := refcount s - 1\<rparr>;
           s \<leftarrow> uvmunmap (p_pagetable p) (p_shm_va p) 1 False s;
           if refcount s = 0 then do {
             s \<leftarrow> kfree (shared_page s) s;
             Some (s\<lparr>shared_page := 0\<rparr>)
           } else Some s
         } else Some s)"

definition free_map_ro :: "nat \<Rightarrow> 'a kproc_scheme \<Rightarrow> 'a kproc_scheme option" where
  "free_map_ro i s =
     (let p = getp s i
      in if p_map_ro_va p \<noteq> 0 then do {
           s \<leftarrow> uvmunmap (p_pagetable p) (p_map_ro_va p) 1 True s;
           Some (setp i (\<lambda>p. p\<lparr>p_map_ro_va := 0\<rparr>) s)
         } else Some s)"

function free_vr_loop :: "u64 \<Rightarrow> u64 \<Rightarrow> u64 \<Rightarrow> 'a mach_scheme \<Rightarrow> 'a mach_scheme option" where
  "free_vr_loop pagetable va va_end s =
     (if va < va_end then do {
        (pte, s) \<leftarrow> walk pagetable va False s;
        s \<leftarrow> (if pte \<noteq> 0 \<and> load64 (pmem s) pte AND PTE_V \<noteq> 0 then uvmunmap pagetable va 1 True s
              else Some s);
        free_vr_loop pagetable (va + PGSIZE) va_end s
      } else Some s)"
  by pat_completeness auto
termination
  by (relation "measure (\<lambda>(pt, va, _). 0x4000001000 - unat va)")
    (auto dest: walk_below intro: page_step_decreases)

declare free_vr_loop.simps [simp del]

definition free_vr :: "nat \<Rightarrow> 'a kproc_scheme \<Rightarrow> 'a kproc_scheme option" where
  "free_vr i s =
     (let p = getp s i; vr = p_vr p
      in if vr_active vr \<and> p_pagetable p \<noteq> 0 then do {
           s \<leftarrow> free_vr_loop (p_pagetable p) (vr_start vr) (vr_start vr + scast (vr_size vr)) s;
           Some (setp i (\<lambda>p. p\<lparr>p_vr := (p_vr p)\<lparr>vr_active := False\<rparr>\<rparr>) s)
         } else Some s)"

definition reset_proc :: "proc \<Rightarrow> proc" where
  "reset_proc p = p\<lparr>p_pagetable := 0, p_sz := 0, p_pid := 0, p_parent := None,
     p_name := (p_name p)[0 := 0], p_chan := None, p_killed := False, p_xstate := 0,
     p_usar_memoria_compartida := False, p_shm_va := 0, p_trace_mask := 0, p_pagefault_count := 0,
     p_vr := \<lparr>vr_start = 0, vr_size = 0, vr_active = False\<rparr>, p_state := UNUSED\<rparr>"

definition freeproc :: "nat \<Rightarrow> 'a kproc_scheme \<Rightarrow> 'a kproc_scheme option" where
  "freeproc i s = do {
     s \<leftarrow> (if p_trapframe (getp s i) \<noteq> 0 then kfree (p_trapframe (getp s i)) s else Some s);
     let s = setp i (\<lambda>p. p\<lparr>p_trapframe := 0\<rparr>) s;
     s \<leftarrow> (if p_pagetable (getp s i) \<noteq> 0 then do {
             s \<leftarrow> free_shared i s;
             s \<leftarrow> free_map_ro i s;
             s \<leftarrow> free_vr i s;
             proc_freepagetable (p_pagetable (getp s i)) (p_sz (getp s i)) s
           } else Some s);
     Some (setp i reset_proc s)
   }"

section \<open>Allocating a process\<close>

definition allocproc :: "'a kproc_scheme \<Rightarrow> (nat option \<times> 'a kproc_scheme) option" where
  "allocproc s =
     (case find_proc (\<lambda>p. p_state p = UNUSED) (procs s) of
        None \<Rightarrow> Some (None, s)
      | Some i \<Rightarrow>
          (let (pid, s) = allocpid s;
               s = setp i (\<lambda>p. p\<lparr>p_pid := pid, p_state := USED\<rparr>) s;
               (tf, s) = kalloc s;
               s = setp i (\<lambda>p. p\<lparr>p_trapframe := tf\<rparr>) s
           in if tf = 0 then do { s \<leftarrow> freeproc i s; Some (None, s) }
              else do {
                (pt, s) \<leftarrow> proc_pagetable tf s;
                let s = setp i (\<lambda>p. p\<lparr>p_pagetable := pt\<rparr>) s;
                if pt = 0 then do { s \<leftarrow> freeproc i s; Some (None, s) }
                else Some (Some i, setp i (\<lambda>p. p\<lparr>
                  p_context := \<lparr>ctx_ra = sym_forkret (sym s), ctx_sp = p_kstack p + PGSIZE, ctx_s = replicate 12 0\<rparr>,
                  p_pagefault_count := 0,
                  p_vr := \<lparr>vr_start = 0, vr_size = 0, vr_active = False\<rparr>\<rparr>) s)
              }))"

section \<open>Growing\<close>

text \<open>\<open>n\<close> is an \<open>int\<close>; it is sign-extended when it is added to the 64-bit size.\<close>

definition growproc :: "u32 \<Rightarrow> 'a kproc_scheme \<Rightarrow> (int \<times> 'a kproc_scheme) option" where
  "growproc n s = do {
     i \<leftarrow> myproc s;
     let p = getp s i;
     let sz = p_sz p;
     if 0 < sint n then
       (if TRAPFRAME < sz + scast n then Some (- 1, s)
        else do {
          (sz, s) \<leftarrow> uvmalloc (p_pagetable p) sz (sz + scast n) PTE_W s;
          if sz = 0 then Some (- 1, s) else Some (0, setp i (\<lambda>p. p\<lparr>p_sz := sz\<rparr>) s)
        })
     else if sint n < 0 then do {
       (sz, s) \<leftarrow> uvmdealloc (p_pagetable p) sz (sz + scast n) s;
       Some (0, setp i (\<lambda>p. p\<lparr>p_sz := sz\<rparr>) s)
     }
     else Some (0, setp i (\<lambda>p. p\<lparr>p_sz := sz\<rparr>) s)
   }"

section \<open>Sleeping and waking\<close>

text \<open>\<open>sleep\<close> up to the call of \<open>sched\<close>, and the rest after the process has been scheduled again.\<close>

definition sleep_enter :: "chan \<Rightarrow> nat \<Rightarrow> 'a kproc_scheme \<Rightarrow> 'a kproc_scheme" where
  "sleep_enter ch i s = setp i (\<lambda>p. p\<lparr>p_chan := Some ch, p_state := SLEEPING\<rparr>) s"

definition sleep_leave :: "nat \<Rightarrow> 'a kproc_scheme \<Rightarrow> 'a kproc_scheme" where
  "sleep_leave i s = setp i (\<lambda>p. p\<lparr>p_chan := None\<rparr>) s"

definition wake_one :: "chan \<Rightarrow> nat option \<Rightarrow> nat \<Rightarrow> proc \<Rightarrow> proc" where
  "wake_one ch me i p =
     (if me \<noteq> Some i \<and> p_state p = SLEEPING \<and> p_chan p = Some ch then p\<lparr>p_state := RUNNABLE\<rparr> else p)"

definition wakeup :: "chan \<Rightarrow> 'a kproc_scheme \<Rightarrow> 'a kproc_scheme" where
  "wakeup ch s = s\<lparr>procs := map (\<lambda>i. wake_one ch (myproc s) i (procs s ! i)) [0..<length (procs s)]\<rparr>"

definition kkill :: "u32 \<Rightarrow> 'a kproc_scheme \<Rightarrow> int \<times> 'a kproc_scheme" where
  "kkill pid s =
     (case find_proc (\<lambda>p. p_pid p = pid) (procs s) of
        None \<Rightarrow> (- 1, s)
      | Some i \<Rightarrow> (0, setp i (\<lambda>p. let p = p\<lparr>p_killed := True\<rparr>
                     in if p_state p = SLEEPING then p\<lparr>p_state := RUNNABLE\<rparr> else p) s))"

definition setkilled :: "nat \<Rightarrow> 'a kproc_scheme \<Rightarrow> 'a kproc_scheme" where
  "setkilled i s = setp i (\<lambda>p. p\<lparr>p_killed := True\<rparr>) s"

definition killed :: "nat \<Rightarrow> 'a kproc_scheme \<Rightarrow> bool" where
  "killed i s = p_killed (getp s i)"

definition reparent_one :: "nat \<Rightarrow> 'a kproc_scheme \<Rightarrow> nat \<Rightarrow> 'a kproc_scheme option" where
  "reparent_one i s j =
     (if p_parent (getp s j) = Some i then do {
        k \<leftarrow> initproc s;
        Some (wakeup (ChProc k) (setp j (\<lambda>p. p\<lparr>p_parent := Some k\<rparr>) s))
      } else Some s)"

fun reparent_loop :: "nat \<Rightarrow> nat list \<Rightarrow> 'a kproc_scheme \<Rightarrow> 'a kproc_scheme option" where
  "reparent_loop i [] s = Some s"
| "reparent_loop i (j # js) s = Option.bind (reparent_one i s j) (reparent_loop i js)"

definition reparent :: "nat \<Rightarrow> 'a kproc_scheme \<Rightarrow> 'a kproc_scheme option" where
  "reparent i s = reparent_loop i [0..<length (procs s)] s"

section \<open>Copying by address kind\<close>

definition either_copyout :: "bool \<Rightarrow> u64 \<Rightarrow> u8 list \<Rightarrow> 'a kproc_scheme \<Rightarrow> (int \<times> 'a kproc_scheme) option" where
  "either_copyout user_dst dst src s =
     (if user_dst then do { i \<leftarrow> myproc s; copyout (p_pagetable (getp s i)) dst src s }
      else Some (0, s\<lparr>pmem := store_bytes (pmem s) dst src\<rparr>))"

definition either_copyin :: "bool \<Rightarrow> u64 \<Rightarrow> nat \<Rightarrow> 'a kproc_scheme \<Rightarrow> (int \<times> u8 list \<times> 'a kproc_scheme) option" where
  "either_copyin user_src src len s =
     (if user_src then do { i \<leftarrow> myproc s; copyin (p_pagetable (getp s i)) src len s }
      else Some (0, load_bytes (pmem s) src len, s))"

section \<open>Listing\<close>

fun state_name :: "procstate \<Rightarrow> string" where
  "state_name UNUSED = ''unused''"
| "state_name USED = ''used''"
| "state_name SLEEPING = ''sleep ''"
| "state_name RUNNABLE = ''runble''"
| "state_name RUNNING = ''run   ''"
| "state_name ZOMBIE = ''zombie''"

definition until_nul :: "u8 list \<Rightarrow> u8 list" where
  "until_nul bs = takeWhile (\<lambda>b. b \<noteq> 0) bs"

fun procdump_loop :: "proc list \<Rightarrow> 'a mach_scheme \<Rightarrow> 'a mach_scheme option" where
  "procdump_loop [] s = Some s"
| "procdump_loop (p # ps) s =
     (if p_state p = UNUSED then procdump_loop ps s
      else do {
        s \<leftarrow> kprint ''%d %s %s'' [Reg (scast (p_pid p)), Ptr (Some (str (state_name (p_state p)))),
               Ptr (Some (until_nul (p_name p)))] s;
        s \<leftarrow> kprint [CHR 0x0A] [] s;
        procdump_loop ps s
      })"

definition procdump :: "'a kproc_scheme \<Rightarrow> 'a kproc_scheme option" where
  "procdump s = do { s \<leftarrow> kprint [CHR 0x0A] [] s; procdump_loop (procs s) s }"

section \<open>Shared memory\<close>

definition crear_memoria_compartida :: "nat \<Rightarrow> nat \<Rightarrow> 'a kproc_scheme \<Rightarrow> (int \<times> 'a kproc_scheme) option" where
  "crear_memoria_compartida p np s =
     (let (ok, s) =
        (if shared_page s = 0 then
           (let (pg, s) = kalloc s; s = s\<lparr>shared_page := pg\<rparr>
            in if pg = 0 then (False, s)
               else (True, s\<lparr>pmem := memset (pmem s) pg 0 4096, refcount := 2\<rparr>))
         else (True, s\<lparr>refcount := refcount s + 1\<rparr>))
      in if \<not> ok then Some (- 1, s)
         else let pa = shared_page s; va = PGROUNDUP (p_sz (getp s p))
              in do {
                (r, s) \<leftarrow> mappages (p_pagetable (getp s p)) va PGSIZE pa (PTE_W OR PTE_R OR PTE_U) s;
                if r < 0 then Some (- 1, s)
                else do {
                  (r, s) \<leftarrow> mappages (p_pagetable (getp s np)) va PGSIZE pa (PTE_W OR PTE_R OR PTE_U) s;
                  if r < 0 then Some (- 1, s)
                  else let s = setp p (\<lambda>p. p\<lparr>p_sz := va + PGSIZE\<rparr>) s;
                           s = setp np (\<lambda>p. p\<lparr>p_sz := va + PGSIZE\<rparr>) s;
                           s = setp p (\<lambda>p. p\<lparr>p_shm_va := va, p_usar_memoria_compartida := True\<rparr>) s;
                           s = setp np (\<lambda>p. p\<lparr>p_shm_va := va, p_usar_memoria_compartida := True\<rparr>) s
                       in Some (0, s)
                }
              })"

section \<open>What waking and sleeping leave alone\<close>

lemma wakeup_simps [simp]:
  "pmem (wakeup ch s) = pmem s" "freelist (wakeup ch s) = freelist s" "sym (wakeup ch s) = sym s"
  "conout (wakeup ch s) = conout s" "kernel_pagetable (wakeup ch s) = kernel_pagetable s"
  "satp (wakeup ch s) = satp s" "cur (wakeup ch s) = cur s" "nextpid (wakeup ch s) = nextpid s"
  "initproc (wakeup ch s) = initproc s" "ticks (wakeup ch s) = ticks s"
  "shared_page (wakeup ch s) = shared_page s" "refcount (wakeup ch s) = refcount s"
  "length (procs (wakeup ch s)) = length (procs s)"
  by (simp_all add: wakeup_def)

lemma sleep_simps [simp]:
  "pmem (sleep_enter ch i s) = pmem s" "freelist (sleep_enter ch i s) = freelist s"
  "sym (sleep_enter ch i s) = sym s" "conout (sleep_enter ch i s) = conout s" "cur (sleep_enter ch i s) = cur s"
  "length (procs (sleep_enter ch i s)) = length (procs s)"
  by (simp_all add: sleep_enter_def)

lemma getp_wakeup: "i < length (procs s) \<Longrightarrow> getp (wakeup ch s) i = wake_one ch (cur s) i (getp s i)"
  by (simp add: wakeup_def getp_def myproc_def)

lemma wake_one_simps [simp]:
  "p_pagetable (wake_one ch me i p) = p_pagetable p" "p_sz (wake_one ch me i p) = p_sz p"
  "p_killed (wake_one ch me i p) = p_killed p" "p_chan (wake_one ch me i p) = p_chan p"
  "p_pid (wake_one ch me i p) = p_pid p" "p_parent (wake_one ch me i p) = p_parent p"
  by (simp_all add: wake_one_def)

text \<open>A process that waits on \<open>ch\<close>.\<close>

definition asleep_on :: "chan \<Rightarrow> proc \<Rightarrow> bool" where
  "asleep_on ch p \<longleftrightarrow> p_state p = SLEEPING \<and> p_chan p = Some ch"

lemma asleep_on_wake_one:
  "asleep_on ch (wake_one ch' me i p) \<longleftrightarrow> asleep_on ch p \<and> (ch = ch' \<longrightarrow> me = Some i)"
  by (auto simp: asleep_on_def wake_one_def)

lemma asleep_on_wakeup:
  "i < length (procs s) \<Longrightarrow>
     asleep_on ch (getp (wakeup ch' s) i) \<longleftrightarrow> asleep_on ch (getp s i) \<and> (ch = ch' \<longrightarrow> cur s = Some i)"
  by (simp add: getp_wakeup asleep_on_wake_one)

end
