(* ===== verification/FState.thy ===== *)
theory FState
  imports Proc
begin

text \<open>
  The state of the file-system half of the kernel: sleep locks (\<^verbatim>\<open>kernel/sleeplock.c\<close>), the
  buffer cache, the log, the super block, the inode and file tables, pipes, the console and
  the UART, as a record that extends the process state, with the byte-level encoding of the
  on-disk structures (\<^verbatim>\<open>kernel/fs.h\<close>).

  An operation that has no result has panicked, or sleeps on a condition that no other process
  or interrupt makes true while it runs alone. Blocks are byte lists of length \<open>BSIZE\<close>. The
  field \<open>dhist\<close> records the disk writes in order; no operation reads it.
\<close>

section \<open>Sleep locks\<close>

record sleeplock =
  slk_locked :: bool
  slk_pid :: u32

definition initsleeplock :: sleeplock where
  "initsleeplock = \<lparr>slk_locked = False, slk_pid = 0\<rparr>"

definition acquiresleep :: "sleeplock \<Rightarrow> 'a kproc_scheme \<Rightarrow> sleeplock option" where
  "acquiresleep lk s =
     (if slk_locked lk then None
      else do { i \<leftarrow> myproc s; Some (lk\<lparr>slk_locked := True, slk_pid := p_pid (getp s i)\<rparr>) })"

definition releasesleep :: "chan \<Rightarrow> sleeplock \<Rightarrow> 'a kproc_scheme \<Rightarrow> sleeplock \<times> 'a kproc_scheme" where
  "releasesleep ch lk s = (lk\<lparr>slk_locked := False, slk_pid := 0\<rparr>, wakeup ch s)"

definition holdingsleep :: "sleeplock \<Rightarrow> 'a kproc_scheme \<Rightarrow> bool option" where
  "holdingsleep lk s =
     (if slk_locked lk then do { i \<leftarrow> myproc s; Some (slk_pid lk = p_pid (getp s i)) } else Some False)"

section \<open>Kernel objects\<close>

abbreviation (input) BSIZE :: nat where "BSIZE \<equiv> 1024"
abbreviation (input) NBUF :: nat where "NBUF \<equiv> 30"
abbreviation (input) LOGBLOCKS :: nat where "LOGBLOCKS \<equiv> 30"
abbreviation (input) MAXOPBLOCKS :: int where "MAXOPBLOCKS \<equiv> 10"
abbreviation (input) NINODE :: nat where "NINODE \<equiv> 50"
abbreviation (input) NFILE :: nat where "NFILE \<equiv> 100"
abbreviation (input) NDEV :: nat where "NDEV \<equiv> 10"
abbreviation (input) NDIRECT :: nat where "NDIRECT \<equiv> 12"
abbreviation (input) NINDIRECT :: nat where "NINDIRECT \<equiv> 256"
abbreviation (input) MAXFILE :: nat where "MAXFILE \<equiv> 268"
abbreviation (input) IPB :: nat where "IPB \<equiv> 16"
abbreviation (input) BPB :: nat where "BPB \<equiv> 8192"
abbreviation (input) DIRSIZ :: nat where "DIRSIZ \<equiv> 14"
abbreviation (input) PIPESIZE :: nat where "PIPESIZE \<equiv> 512"
abbreviation (input) ROOTDEV :: u32 where "ROOTDEV \<equiv> 1"
abbreviation (input) ROOTINO :: u32 where "ROOTINO \<equiv> 1"
abbreviation (input) FSMAGIC :: u32 where "FSMAGIC \<equiv> 0x10203040"
abbreviation (input) T_DIR :: u16 where "T_DIR \<equiv> 1"
abbreviation (input) T_FILE :: u16 where "T_FILE \<equiv> 2"
abbreviation (input) T_DEVICE :: u16 where "T_DEVICE \<equiv> 3"

record buf =
  b_valid :: bool
  b_dev :: u32
  b_blockno :: u32
  b_lock :: sleeplock
  b_refcnt :: u32
  b_data :: "u8 list"

record logheader =
  lh_n :: int
  lh_block :: "u32 list"

record log =
  lg_start :: u32
  lg_outstanding :: int
  lg_committing :: bool
  lg_dev :: u32
  lg_lh :: logheader

record superblock =
  sb_magic :: u32
  sb_size :: u32
  sb_nblocks :: u32
  sb_ninodes :: u32
  sb_nlog :: u32
  sb_logstart :: u32
  sb_inodestart :: u32
  sb_bmapstart :: u32

record inode =
  i_dev :: u32
  i_inum :: u32
  i_ref :: int
  i_lock :: sleeplock
  i_valid :: bool
  i_type :: u16
  i_major :: u16
  i_minor :: u16
  i_nlink :: u16
  i_size :: u32
  i_addrs :: "u32 list"

datatype fdtype = FD_NONE | FD_PIPE | FD_INODE | FD_DEVICE

record kfile =
  f_type :: fdtype
  f_ref :: int
  f_readable :: bool
  f_writable :: bool
  f_pipe :: u64
  f_ip :: "nat option"
  f_off :: u32
  f_major :: u16

record pipe =
  pi_data :: "u8 list"
  pi_nread :: u32
  pi_nwrite :: u32
  pi_readopen :: bool
  pi_writeopen :: bool

record cons =
  cons_buf :: "u8 list"
  cons_r :: u32
  cons_w :: u32
  cons_e :: u32

record kfs = kproc +
  disk :: "u32 \<Rightarrow> u8 list"
  dhist :: "(u32 \<times> u8 list) list"
  bufs :: "buf list"
  lru :: "nat list"
  klog :: log
  sb :: superblock
  itable :: "inode list"
  ftable :: "kfile list"
  pipes :: "u64 \<Rightarrow> pipe option"
  cns :: cons
  tx_busy :: bool
  devsw :: "bool list"

definition setb :: "nat \<Rightarrow> (buf \<Rightarrow> buf) \<Rightarrow> 'a kfs_scheme \<Rightarrow> 'a kfs_scheme" where
  "setb i f s = s\<lparr>bufs := (bufs s)[i := f (bufs s ! i)]\<rparr>"

definition getb :: "'a kfs_scheme \<Rightarrow> nat \<Rightarrow> buf" where
  "getb s i = bufs s ! i"

definition seti :: "nat \<Rightarrow> (inode \<Rightarrow> inode) \<Rightarrow> 'a kfs_scheme \<Rightarrow> 'a kfs_scheme" where
  "seti i f s = s\<lparr>itable := (itable s)[i := f (itable s ! i)]\<rparr>"

definition geti :: "'a kfs_scheme \<Rightarrow> nat \<Rightarrow> inode" where
  "geti s i = itable s ! i"

definition setf :: "nat \<Rightarrow> (kfile \<Rightarrow> kfile) \<Rightarrow> 'a kfs_scheme \<Rightarrow> 'a kfs_scheme" where
  "setf i f s = s\<lparr>ftable := (ftable s)[i := f (ftable s ! i)]\<rparr>"

definition getf :: "'a kfs_scheme \<Rightarrow> nat \<Rightarrow> kfile" where
  "getf s i = ftable s ! i"

definition setlog :: "(log \<Rightarrow> log) \<Rightarrow> 'a kfs_scheme \<Rightarrow> 'a kfs_scheme" where
  "setlog f s = s\<lparr>klog := f (klog s)\<rparr>"

section \<open>Bytes in blocks\<close>

text \<open>Little-endian fields at a byte offset of a block.\<close>

definition get_bytes :: "u8 list \<Rightarrow> nat \<Rightarrow> nat \<Rightarrow> u8 list" where
  "get_bytes bs off n = take n (drop off bs)"

definition put_bytes :: "u8 list \<Rightarrow> nat \<Rightarrow> u8 list \<Rightarrow> u8 list" where
  "put_bytes bs off xs = take off bs @ xs @ drop (off + length xs) bs"

definition get16 :: "u8 list \<Rightarrow> nat \<Rightarrow> u16" where
  "get16 bs off = bytes_word (get_bytes bs off 2)"

definition get32 :: "u8 list \<Rightarrow> nat \<Rightarrow> u32" where
  "get32 bs off = bytes_word (get_bytes bs off 4)"

definition put16 :: "u8 list \<Rightarrow> nat \<Rightarrow> u16 \<Rightarrow> u8 list" where
  "put16 bs off v = put_bytes bs off (word_bytes 2 v)"

definition put32 :: "u8 list \<Rightarrow> nat \<Rightarrow> u32 \<Rightarrow> u8 list" where
  "put32 bs off v = put_bytes bs off (word_bytes 4 v)"

lemma length_put_bytes [simp]: "off + length xs \<le> length bs \<Longrightarrow> length (put_bytes bs off xs) = length bs"
  by (simp add: put_bytes_def)

lemma get_put_bytes_same: "off + length xs \<le> length bs \<Longrightarrow> get_bytes (put_bytes bs off xs) off (length xs) = xs"
  by (simp add: get_bytes_def put_bytes_def)

lemma get_put_bytes_other:
  assumes "off + length xs \<le> length bs" "off' + n \<le> off \<or> off + length xs \<le> off'"
  shows "get_bytes (put_bytes bs off xs) off' n = get_bytes bs off' n"
proof (rule nth_equalityI)
  show "length (get_bytes (put_bytes bs off xs) off' n) = length (get_bytes bs off' n)"
    using assms(1) by (simp add: get_bytes_def)
next
  fix i assume "i < length (get_bytes (put_bytes bs off xs) off' n)"
  then have i: "i < n" "off' + i < length bs" using assms(1) by (auto simp: get_bytes_def)
  then show "get_bytes (put_bytes bs off xs) off' n ! i = get_bytes bs off' n ! i"
    using assms by (auto simp: get_bytes_def put_bytes_def nth_append)
qed

lemma length_put32 [simp]: "off + 4 \<le> length bs \<Longrightarrow> length (put32 bs off v) = length bs"
  by (simp add: put32_def)

lemma length_put16 [simp]: "off + 2 \<le> length bs \<Longrightarrow> length (put16 bs off v) = length bs"
  by (simp add: put16_def)

lemma get32_put32: "off + 4 \<le> length bs \<Longrightarrow> get32 (put32 bs off v) off = v"
  using get_put_bytes_same [of off "word_bytes 4 v" bs]
  by (simp add: get32_def put32_def bytes_word_word_bytes)

lemma get32_put32_other:
  "off + 4 \<le> length bs \<Longrightarrow> off' + 4 \<le> off \<or> off + 4 \<le> off' \<Longrightarrow> get32 (put32 bs off v) off' = get32 bs off'"
  by (simp add: get32_def put32_def get_put_bytes_other)

lemma get16_put16: "off + 2 \<le> length bs \<Longrightarrow> get16 (put16 bs off v) off = v"
  using get_put_bytes_same [of off "word_bytes 2 v" bs]
  by (simp add: get16_def put16_def bytes_word_word_bytes)

section \<open>Fields that process operations leave alone\<close>

lemma kfs_setp [simp]:
  "disk (setp i f s) = disk s" "dhist (setp i f s) = dhist s" "bufs (setp i f s) = bufs s" "lru (setp i f s) = lru s"
  "klog (setp i f s) = klog s" "sb (setp i f s) = sb s" "itable (setp i f s) = itable s"
  "ftable (setp i f s) = ftable s" "pipes (setp i f s) = pipes s" "cns (setp i f s) = cns s"
  "tx_busy (setp i f s) = tx_busy s" "devsw (setp i f s) = devsw s"
  by (simp_all add: setp_def)

lemma kfs_wakeup [simp]:
  "disk (wakeup ch s) = disk s" "dhist (wakeup ch s) = dhist s" "bufs (wakeup ch s) = bufs s" "lru (wakeup ch s) = lru s"
  "klog (wakeup ch s) = klog s" "sb (wakeup ch s) = sb s" "itable (wakeup ch s) = itable s"
  "ftable (wakeup ch s) = ftable s" "pipes (wakeup ch s) = pipes s" "cns (wakeup ch s) = cns s"
  "tx_busy (wakeup ch s) = tx_busy s" "devsw (wakeup ch s) = devsw s"
  by (simp_all add: wakeup_def)

lemma kfs_sleep_enter [simp]:
  "disk (sleep_enter ch i s) = disk s" "bufs (sleep_enter ch i s) = bufs s" "klog (sleep_enter ch i s) = klog s"
  "itable (sleep_enter ch i s) = itable s" "ftable (sleep_enter ch i s) = ftable s"
  "pipes (sleep_enter ch i s) = pipes s" "cns (sleep_enter ch i s) = cns s"
  by (simp_all add: sleep_enter_def)

lemma mem_only_kfs:
  fixes s t :: "'a kfs_scheme"
  assumes "mem_only s t"
  shows "disk t = disk s" "dhist t = dhist s" "bufs t = bufs s" "lru t = lru s" "klog t = klog s" "sb t = sb s"
    "itable t = itable s" "ftable t = ftable s" "pipes t = pipes s" "cns t = cns s" "tx_busy t = tx_busy s"
    "devsw t = devsw s"
proof -
  have t: "t = s\<lparr>pmem := pmem t, freelist := freelist t\<rparr>" using assms by (simp add: mem_only_def)
  show "disk t = disk s" "dhist t = dhist s" "bufs t = bufs s" "lru t = lru s" "klog t = klog s" "sb t = sb s"
    "itable t = itable s" "ftable t = ftable s" "pipes t = pipes s" "cns t = cns s" "tx_busy t = tx_busy s"
    "devsw t = devsw s"
    by (subst t, simp)+
qed

section \<open>A sample state\<close>

text \<open>The sample process of \<open>demo_kproc\<close> on an empty disk, with an empty cache and no open file.\<close>

definition demo_kfs :: kfs where
  "demo_kfs = \<lparr>pmem = demo_mem, freelist = freelist two_free, sym = sym two_free, conout = [],
     kernel_pagetable = 0, satp = 0, procs = [demo_proc], cur = Some 0, nextpid = 2, initproc = Some 0,
     ticks = 0, shared_page = 0, refcount = 0,
     disk = (\<lambda>_. replicate BSIZE 0), dhist = [],
     bufs = replicate NBUF \<lparr>b_valid = False, b_dev = 0, b_blockno = 0, b_lock = initsleeplock, b_refcnt = 0,
       b_data = replicate BSIZE 0\<rparr>,
     lru = [0..<NBUF],
     klog = \<lparr>lg_start = 2, lg_outstanding = 0, lg_committing = False, lg_dev = 1,
       lg_lh = \<lparr>lh_n = 0, lh_block = replicate LOGBLOCKS 0\<rparr>\<rparr>,
     sb = \<lparr>sb_magic = FSMAGIC, sb_size = 2000, sb_nblocks = 1953, sb_ninodes = 200, sb_nlog = 31,
       sb_logstart = 2, sb_inodestart = 33, sb_bmapstart = 46\<rparr>,
     itable = replicate NINODE \<lparr>i_dev = 0, i_inum = 0, i_ref = 0, i_lock = initsleeplock, i_valid = False, i_type = 0,
       i_major = 0, i_minor = 0, i_nlink = 0, i_size = 0, i_addrs = replicate 13 0\<rparr>,
     ftable = replicate NFILE \<lparr>f_type = FD_NONE, f_ref = 0, f_readable = False, f_writable = False, f_pipe = 0,
       f_ip = None, f_off = 0, f_major = 0\<rparr>,
     pipes = Map.empty, cns = \<lparr>cons_buf = replicate 128 0, cons_r = 0, cons_w = 0, cons_e = 0\<rparr>,
     tx_busy = False, devsw = replicate NDEV False\<rparr>"

lemma demo_kfs_runs: "uspace demo_kfs demo_root {0x87FFF000, 0x87FFE000}" "runs demo_kfs 0 demo_root"
  using demo_uspace [of demo_kfs] by (simp_all add: demo_kfs_def runs_def getp_def demo_proc_def)

end
