(* ===== verification/Bio.thy ===== *)
theory Bio
  imports FState
begin

text \<open>
  The buffer cache, \<^verbatim>\<open>kernel/bio.c\<close>. The doubly linked list through \<open>prev\<close> and \<open>next\<close> is the list
  \<open>lru\<close> of buffer indices, most recently used first. \<open>disk_rw\<close> is what \<open>virtio_disk_rw\<close> and the
  device do together: transfer one block. It does not fail; the driver itself, which panics when the
  device reports an error, is in \<open>Virtio\<close>.
\<close>

section \<open>Operations\<close>

definition disk_rw :: "nat \<Rightarrow> bool \<Rightarrow> 'a kfs_scheme \<Rightarrow> 'a kfs_scheme" where
  "disk_rw i wr s =
     (let b = getb s i
      in if wr then s\<lparr>disk := (disk s)(b_blockno b := b_data b), dhist := dhist s @ [(b_blockno b, b_data b)]\<rparr>
         else setb i (\<lambda>b. b\<lparr>b_data := disk s (b_blockno b)\<rparr>) s)"

definition binit :: "'a kfs_scheme \<Rightarrow> 'a kfs_scheme" where
  "binit s = s\<lparr>bufs := map (\<lambda>b. b\<lparr>b_lock := initsleeplock\<rparr>) (bufs s), lru := rev [0..<NBUF]\<rparr>"

definition lock_buf :: "nat \<Rightarrow> 'a kfs_scheme \<Rightarrow> 'a kfs_scheme option" where
  "lock_buf i s = do {
     lk \<leftarrow> acquiresleep (b_lock (getb s i)) s;
     Some (setb i (\<lambda>b. b\<lparr>b_lock := lk\<rparr>) s)
   }"

definition is_block :: "u32 \<Rightarrow> u32 \<Rightarrow> 'a kfs_scheme \<Rightarrow> nat \<Rightarrow> bool" where
  "is_block dev blockno s i \<longleftrightarrow> b_dev (getb s i) = dev \<and> b_blockno (getb s i) = blockno"

definition bget :: "u32 \<Rightarrow> u32 \<Rightarrow> 'a kfs_scheme \<Rightarrow> (nat \<times> 'a kfs_scheme) option" where
  "bget dev blockno s =
     (case find (is_block dev blockno s) (lru s) of
        Some i \<Rightarrow> do {
          s \<leftarrow> lock_buf i (setb i (\<lambda>b. b\<lparr>b_refcnt := b_refcnt b + 1\<rparr>) s);
          Some (i, s)
        }
      | None \<Rightarrow>
          (case find (\<lambda>i. b_refcnt (getb s i) = 0) (rev (lru s)) of
             Some i \<Rightarrow> do {
               s \<leftarrow> lock_buf i (setb i (\<lambda>b. b\<lparr>b_dev := dev, b_blockno := blockno, b_valid := False, b_refcnt := 1\<rparr>) s);
               Some (i, s)
             }
           | None \<Rightarrow> panic ''bget: no buffers''))"

definition bread :: "u32 \<Rightarrow> u32 \<Rightarrow> 'a kfs_scheme \<Rightarrow> (nat \<times> 'a kfs_scheme) option" where
  "bread dev blockno s = do {
     (i, s) \<leftarrow> bget dev blockno s;
     if \<not> b_valid (getb s i)
     then Some (i, setb i (\<lambda>b. b\<lparr>b_valid := True\<rparr>) (disk_rw i False s))
     else Some (i, s)
   }"

definition bwrite :: "nat \<Rightarrow> 'a kfs_scheme \<Rightarrow> 'a kfs_scheme option" where
  "bwrite i s = do {
     h \<leftarrow> holdingsleep (b_lock (getb s i)) s;
     if \<not> h then panic ''bwrite'' else Some (disk_rw i True s)
   }"

definition brelse :: "nat \<Rightarrow> 'a kfs_scheme \<Rightarrow> 'a kfs_scheme option" where
  "brelse i s = do {
     h \<leftarrow> holdingsleep (b_lock (getb s i)) s;
     if \<not> h then panic ''brelse''
     else
       (let (lk, s) = releasesleep (ChBufLock i) (b_lock (getb s i)) s;
            s = setb i (\<lambda>b. b\<lparr>b_lock := lk\<rparr>) s;
            s = setb i (\<lambda>b. b\<lparr>b_refcnt := b_refcnt b - 1\<rparr>) s
        in if b_refcnt (getb s i) = 0 then Some (s\<lparr>lru := i # remove1 i (lru s)\<rparr>) else Some s)
   }"

definition bpin :: "nat \<Rightarrow> 'a kfs_scheme \<Rightarrow> 'a kfs_scheme" where
  "bpin i s = setb i (\<lambda>b. b\<lparr>b_refcnt := b_refcnt b + 1\<rparr>) s"

definition bunpin :: "nat \<Rightarrow> 'a kfs_scheme \<Rightarrow> 'a kfs_scheme" where
  "bunpin i s = setb i (\<lambda>b. b\<lparr>b_refcnt := b_refcnt b - 1\<rparr>) s"

text \<open>Writing the data of a locked buffer, as the callers of \<open>bread\<close> do.\<close>

definition set_data :: "nat \<Rightarrow> (u8 list \<Rightarrow> u8 list) \<Rightarrow> 'a kfs_scheme \<Rightarrow> 'a kfs_scheme" where
  "set_data i f s = setb i (\<lambda>b. b\<lparr>b_data := f (b_data b)\<rparr>) s"

end
