(* ===== verification/Cache.thy ===== *)
theory Cache
  imports Bio
begin

text \<open>
  What the buffer cache of \<^verbatim>\<open>kernel/bio.c\<close> promises. The contract \<open>block_cache\<close> speaks of blocks
  only: the current contents \<open>blk\<close> of a block, what is on disk, how often a block is referenced and which
  blocks are locked. It is proved for the definitions of \<open>Bio\<close>, whose state is an array of buffers and
  a list in order of use, and its clients are the log and the file system.
\<close>

section \<open>The contract\<close>

locale block_cache =
  fixes inv :: "'s \<Rightarrow> bool"
    and blk dsk :: "'s \<Rightarrow> 'b::finite \<Rightarrow> 'd"
    and hist :: "'s \<Rightarrow> ('b \<times> 'd) list"
    and refs :: "'s \<Rightarrow> 'b \<Rightarrow> nat"
    and busy :: "'s \<Rightarrow> 'b \<Rightarrow> bool"
    and hold :: "'s \<Rightarrow> 'h \<Rightarrow> 'b \<Rightarrow> bool"
    and good :: "'d \<Rightarrow> bool"
    and frame :: "'s \<Rightarrow> 's \<Rightarrow> bool"
    and cap lim :: nat
    and dat :: "'s \<Rightarrow> 'h \<Rightarrow> 'd"
    and rd :: "'b \<Rightarrow> 's \<Rightarrow> ('h \<times> 's) option"
    and upd :: "'h \<Rightarrow> ('d \<Rightarrow> 'd) \<Rightarrow> 's \<Rightarrow> 's"
    and wr rel :: "'h \<Rightarrow> 's \<Rightarrow> 's option"
    and pin unpin :: "'h \<Rightarrow> 's \<Rightarrow> 's"
  assumes clean: "inv s \<Longrightarrow> refs s b = 0 \<Longrightarrow> blk s b = dsk s b"
    and good: "inv s \<Longrightarrow> good (blk s b)"
    and holdD: "inv s \<Longrightarrow> hold s h b \<Longrightarrow> busy s b \<and> refs s b \<noteq> 0 \<and> dat s h = blk s b"
    and rd: "inv s \<Longrightarrow> \<not> busy s b \<Longrightarrow> refs s b \<noteq> 0 \<or> card {c. refs s c \<noteq> 0} < cap \<Longrightarrow> refs s b < lim \<Longrightarrow>
      \<exists>h s'. rd b s = Some (h, s') \<and> inv s' \<and> frame s s' \<and> hold s' h b \<and> (\<forall>h' b'. hold s h' b' \<longrightarrow> hold s' h' b') \<and>
        blk s' = blk s \<and> dsk s' = dsk s \<and> hist s' = hist s \<and> refs s' = (refs s)(b := refs s b + 1) \<and>
        busy s' = (busy s)(b := True)"
    and upd: "inv s \<Longrightarrow> hold s h b \<Longrightarrow> good (f (blk s b)) \<Longrightarrow>
      inv (upd h f s) \<and> frame s (upd h f s) \<and> hold (upd h f s) = hold s \<and>
        blk (upd h f s) = (blk s)(b := f (blk s b)) \<and> dsk (upd h f s) = dsk s \<and> hist (upd h f s) = hist s \<and>
        refs (upd h f s) = refs s \<and> busy (upd h f s) = busy s"
    and wr: "inv s \<Longrightarrow> hold s h b \<Longrightarrow>
      \<exists>s'. wr h s = Some s' \<and> inv s' \<and> frame s s' \<and> hold s' = hold s \<and> blk s' = blk s \<and>
        dsk s' = (dsk s)(b := blk s b) \<and> hist s' = hist s @ [(b, blk s b)] \<and> refs s' = refs s \<and> busy s' = busy s"
    and rel: "inv s \<Longrightarrow> hold s h b \<Longrightarrow> 1 < refs s b \<or> blk s b = dsk s b \<Longrightarrow>
      \<exists>s'. rel h s = Some s' \<and> inv s' \<and> frame s s' \<and> (\<forall>h' b'. b' \<noteq> b \<longrightarrow> hold s h' b' \<longrightarrow> hold s' h' b') \<and>
        blk s' = blk s \<and> dsk s' = dsk s \<and> hist s' = hist s \<and> refs s' = (refs s)(b := refs s b - 1) \<and>
        busy s' = (busy s)(b := False)"
    and pin: "inv s \<Longrightarrow> hold s h b \<Longrightarrow> refs s b < lim \<Longrightarrow>
      inv (pin h s) \<and> frame s (pin h s) \<and> hold (pin h s) = hold s \<and> blk (pin h s) = blk s \<and> dsk (pin h s) = dsk s \<and>
        hist (pin h s) = hist s \<and> refs (pin h s) = (refs s)(b := refs s b + 1) \<and> busy (pin h s) = busy s"
    and unpin: "inv s \<Longrightarrow> hold s h b \<Longrightarrow> 1 < refs s b \<Longrightarrow>
      inv (unpin h s) \<and> frame s (unpin h s) \<and> hold (unpin h s) = hold s \<and> blk (unpin h s) = blk s \<and>
        dsk (unpin h s) = dsk s \<and> hist (unpin h s) = hist s \<and> refs (unpin h s) = (refs s)(b := refs s b - 1) \<and>
        busy (unpin h s) = busy s"
    and frame_refl: "frame s s"
    and frame_trans: "frame s t \<Longrightarrow> frame t u \<Longrightarrow> frame s u"

text \<open>Copying a block: the part the log shares between writing its blocks and installing them.\<close>

context block_cache
begin

lemma rd_two:
  assumes inv: "inv s" and ab: "a \<noteq> b" and nb: "\<not> busy s a" "\<not> busy s b"
    and room: "card (insert a (insert b {c. refs s c \<noteq> 0})) \<le> cap" and lim: "refs s a < lim" "refs s b < lim"
  obtains h h' s1 s' where "rd a s = Some (h, s1)" "rd b s1 = Some (h', s')" "inv s'" "frame s s1" "frame s s'"
    "hold s' h a" "hold s' h' b" "blk s' = blk s" "dsk s' = dsk s" "hist s' = hist s"
    "refs s' = (refs s)(a := refs s a + 1, b := refs s b + 1)" "busy s' = (busy s)(a := True, b := True)"
proof -
  let ?R = "{c. refs s c \<noteq> 0}"
  have more: "card X < card (insert c X)" if "c \<notin> X" for c :: 'b and X using that by simp
  have sub: "card (insert a ?R) \<le> card (insert a (insert b ?R))" by (rule card_mono) auto
  have "refs s a \<noteq> 0 \<or> card ?R < cap"
  proof (cases "refs s a = 0")
    case True
    then show ?thesis using more [of a ?R] sub room by simp
  qed simp
  from rd [OF inv nb(1) this lim(1)]
  obtain h s1 where 1: "rd a s = Some (h, s1)" "inv s1" "frame s s1" "hold s1 h a" "blk s1 = blk s"
    "dsk s1 = dsk s" "hist s1 = hist s" "refs s1 = (refs s)(a := refs s a + 1)" "busy s1 = (busy s)(a := True)" by blast
  have R1: "{c. refs s1 c \<noteq> 0} = insert a ?R" using 1(8) by auto
  have "refs s1 b \<noteq> 0 \<or> card {c. refs s1 c \<noteq> 0} < cap"
  proof (cases "refs s b = 0")
    case True
    then have "card (insert a ?R) < card (insert b (insert a ?R))" using ab by (intro more) simp
    then show ?thesis unfolding R1 using room by (simp add: insert_commute)
  qed (use 1(8) ab in simp)
  moreover have "\<not> busy s1 b" "refs s1 b < lim" using 1(8,9) ab nb lim by simp_all
  ultimately obtain h' s' where "rd b s1 = Some (h', s')" "inv s'" "frame s1 s'" "hold s' h' b" "\<forall>j c. hold s1 j c \<longrightarrow> hold s' j c"
    "blk s' = blk s1" "dsk s' = dsk s1" "hist s' = hist s1" "refs s' = (refs s1)(b := refs s1 b + 1)" "busy s' = (busy s1)(b := True)"
    using rd [OF 1(2)] by blast
  with 1 ab show thesis using that [of h s1 h' s'] frame_trans by auto
qed

lemma copy_tail:
  assumes inv: "inv s" and h: "hold s hx x" "hold s hy y" and xy: "x \<noteq> y"
    and cx: "1 < refs s x \<or> blk s x = dsk s x" and k: "k \<Longrightarrow> 1 < refs s y"
  shows "\<exists>s'. Option.bind (wr hy (upd hy (\<lambda>_. dat s hx) s)) (\<lambda>s. Option.bind (rel hx (if k then unpin hy s else s)) (rel hy)) = Some s' \<and>
    inv s' \<and> frame s s' \<and> blk s' = (blk s)(y := blk s x) \<and> dsk s' = (dsk s)(y := blk s x) \<and>
    hist s' = hist s @ [(y, blk s x)] \<and> refs s' = (refs s)(x := refs s x - 1, y := refs s y - (if k then 2 else 1)) \<and>
    busy s' = (busy s)(x := False, y := False)"
proof -
  have dx: "dat s hx = blk s x" using holdD [OF inv h(1)] by simp
  define s1 where "s1 = upd hy (\<lambda>_. dat s hx) s"
  have 1: "inv s1" "frame s s1" "hold s1 = hold s" "blk s1 = (blk s)(y := blk s x)" "dsk s1 = dsk s" "hist s1 = hist s"
    "refs s1 = refs s" "busy s1 = busy s"
    using upd [OF inv h(2), of "\<lambda>_. dat s hx"] good [OF inv, of x] by (simp_all add: s1_def dx)
  have "hold s1 hy y" using 1 h by simp
  from wr [OF 1(1) this]
  obtain s2 where 2: "wr hy s1 = Some s2" "inv s2" "frame s1 s2" "hold s2 = hold s" "blk s2 = (blk s)(y := blk s x)"
    "dsk s2 = (dsk s)(y := blk s x)" "hist s2 = hist s @ [(y, blk s x)]" "refs s2 = refs s" "busy s2 = busy s"
    unfolding 1(3-8) by auto
  define s3 where "s3 = (if k then unpin hy s2 else s2)"
  have 3: "inv s3" "frame s2 s3" "hold s3 = hold s" "blk s3 = blk s2" "dsk s3 = dsk s2" "hist s3 = hist s2"
    "refs s3 = (refs s)(y := refs s y - (if k then 1 else 0))" "busy s3 = busy s"
    using unpin [OF 2(2), of hy y] 2 h k by (simp_all add: s3_def frame_refl)
  have "hold s3 hx x" "1 < refs s3 x \<or> blk s3 x = dsk s3 x" using 3 2 h cx xy by auto
  then obtain s4 where 4: "rel hx s3 = Some s4" "inv s4" "frame s3 s4" "hold s4 hy y" "blk s4 = blk s3" "dsk s4 = dsk s3"
    "hist s4 = hist s3" "refs s4 = (refs s3)(x := refs s3 x - 1)" "busy s4 = (busy s3)(x := False)"
    using rel [OF 3(1)] 3(3) h xy by metis
  have "blk s4 y = dsk s4 y" using 4 3 2 by simp
  then obtain s5 where 5: "rel hy s4 = Some s5" "inv s5" "frame s4 s5" "blk s5 = blk s4" "dsk s5 = dsk s4"
    "hist s5 = hist s4" "refs s5 = (refs s4)(y := refs s4 y - 1)" "busy s5 = (busy s4)(y := False)"
    using rel [OF 4(2,4)] by blast
  have "frame s s5" using 1(2) 2(3) 3(2) 4(3) 5(3) frame_trans by blast
  moreover have "refs s5 = (refs s)(x := refs s x - 1, y := refs s y - (if k then 2 else 1))"
    using 5(7) 4(8) 3(7) xy by (auto simp: fun_eq_iff)
  ultimately show ?thesis
    using 2(1,5-7) 3(4-6,8) 4(1,5-7,9) 5(1,2,4-6,8) by (intro exI [of _ s5]) (simp add: s1_def [symmetric] s3_def [symmetric])
qed

text \<open>Looking at a block: read it and release it.\<close>

lemma peek:
  assumes inv: "inv s" and nb: "\<not> busy s b" and room: "refs s b \<noteq> 0 \<or> card {c. refs s c \<noteq> 0} < cap" and lim: "refs s b < lim"
  obtains h s1 s' where "rd b s = Some (h, s1)" "dat s1 h = blk s b" "frame s s1" "rel h s1 = Some s'" "inv s1" "inv s'" "frame s s'"
    "blk s' = blk s" "dsk s' = dsk s" "hist s' = hist s" "refs s' = refs s" "busy s' = busy s" "hold s1 h b" "blk s1 = blk s"
    "\<forall>h' c. hold s h' c \<longrightarrow> hold s' h' c"
proof -
  obtain h s1 where 1: "rd b s = Some (h, s1)" "inv s1" "frame s s1" "hold s1 h b" "blk s1 = blk s" "dsk s1 = dsk s"
    "hist s1 = hist s" "refs s1 = (refs s)(b := refs s b + 1)" "busy s1 = (busy s)(b := True)"
    and h1: "\<forall>h' c. hold s h' c \<longrightarrow> hold s1 h' c"
    using rd [OF assms] by blast
  have "1 < refs s1 b \<or> blk s1 b = dsk s1 b" using clean [OF inv, of b] 1 by auto
  then obtain s' where 2: "rel h s1 = Some s'" "inv s'" "frame s1 s'" "blk s' = blk s1" "dsk s' = dsk s1" "hist s' = hist s1"
    "refs s' = (refs s1)(b := refs s1 b - 1)" "busy s' = (busy s1)(b := False)"
    and h2: "\<forall>h' c. c \<noteq> b \<longrightarrow> hold s1 h' c \<longrightarrow> hold s' h' c"
    using rel [OF 1(2,4)] by blast
  have "hold s' h' c" if "hold s h' c" for h' c
  proof -
    have "c \<noteq> b" using holdD [OF inv that] nb by auto
    then show ?thesis using that h1 h2 by blast
  qed
  moreover have "refs s' = refs s" "busy s' = busy s" using 1 2 nb by (auto simp: fun_eq_iff)
  moreover have "dat s1 h = blk s b" using holdD [OF 1(2,4)] 1(5) by simp
  ultimately show thesis using that [of h s1 s'] 1 2 frame_trans by auto
qed

end

section \<open>Invariant and abstraction\<close>

lemma getb_setb: "i < length (bufs s) \<Longrightarrow> getb (setb i f s) j = (if i = j then f (getb s i) else getb s j)"
  by (simp add: getb_def setb_def nth_list_update)

lemma setb_simps [simp]:
  "length (bufs (setb i f s)) = length (bufs s)" "lru (setb i f s) = lru s" "disk (setb i f s) = disk s"
  "dhist (setb i f s) = dhist s" "procs (setb i f s) = procs s" "cur (setb i f s) = cur s" "klog (setb i f s) = klog s"
  "getp (setb i f s) = getp s" "wakeup ch (setb i f s) = setb i f (wakeup ch s)"
  by (simp_all add: setb_def getp_def wakeup_def fun_eq_iff myproc_def)

lemma getb_wakeup [simp]: "getb (wakeup ch s) i = getb s i"
  by (simp add: getb_def)

definition buf_ok :: "u32 \<Rightarrow> (u32 \<Rightarrow> u8 list) \<Rightarrow> buf \<Rightarrow> bool" where
  "buf_ok d D b \<longleftrightarrow> length (b_data b) = BSIZE \<and> (b_refcnt b \<noteq> 0 \<or> b_valid b \<longrightarrow> b_dev b = d) \<and>
     (slk_locked (b_lock b) \<longrightarrow> b_refcnt b \<noteq> 0) \<and> (b_refcnt b = 0 \<and> b_valid b \<longrightarrow> b_data b = D (b_blockno b))"

definition cache_inv :: "u32 \<Rightarrow> 'a kfs_scheme \<Rightarrow> bool" where
  "cache_inv d s \<longleftrightarrow> length (bufs s) = NBUF \<and> distinct (lru s) \<and> set (lru s) = {..<NBUF} \<and>
     (\<forall>i<NBUF. buf_ok d (disk s) (getb s i)) \<and>
     (\<forall>i<NBUF. \<forall>j<NBUF. \<forall>b. is_block d b s i \<longrightarrow> is_block d b s j \<longrightarrow> i = j) \<and>
     (\<forall>b. length (disk s b) = BSIZE) \<and> (\<exists>c<length (procs s). cur s = Some c)"

definition slot :: "u32 \<Rightarrow> 'a kfs_scheme \<Rightarrow> u32 \<Rightarrow> nat option" where
  "slot d s b = find (is_block d b s) [0..<NBUF]"

definition blk :: "u32 \<Rightarrow> 'a kfs_scheme \<Rightarrow> u32 \<Rightarrow> u8 list" where
  "blk d s b = (case slot d s b of
     Some i \<Rightarrow> if b_valid (getb s i) then b_data (getb s i) else disk s b | None \<Rightarrow> disk s b)"

definition refs :: "u32 \<Rightarrow> 'a kfs_scheme \<Rightarrow> u32 \<Rightarrow> nat" where
  "refs d s b = (case slot d s b of Some i \<Rightarrow> unat (b_refcnt (getb s i)) | None \<Rightarrow> 0)"

definition busy :: "u32 \<Rightarrow> 'a kfs_scheme \<Rightarrow> u32 \<Rightarrow> bool" where
  "busy d s b = (case slot d s b of Some i \<Rightarrow> slk_locked (b_lock (getb s i)) | None \<Rightarrow> False)"

definition mypid :: "'a kproc_scheme \<Rightarrow> u32" where
  "mypid s = p_pid (getp s (the (cur s)))"

definition hold :: "u32 \<Rightarrow> 'a kfs_scheme \<Rightarrow> nat \<Rightarrow> u32 \<Rightarrow> bool" where
  "hold d s i b \<longleftrightarrow> i < NBUF \<and> is_block d b s i \<and> b_valid (getb s i) \<and>
     slk_locked (b_lock (getb s i)) \<and> slk_pid (b_lock (getb s i)) = mypid s"

text \<open>Everything but the cache, the disk and the run states of processes is as before.\<close>

definition idle_proc :: "proc \<Rightarrow> proc" where
  "idle_proc p = p\<lparr>p_state := UNUSED\<rparr>"

definition bio_frame :: "'a kfs_scheme \<Rightarrow> 'a kfs_scheme \<Rightarrow> bool" where
  "bio_frame s s' \<longleftrightarrow>
     s' = s\<lparr>procs := procs s', disk := disk s', dhist := dhist s', bufs := bufs s', lru := lru s'\<rparr> \<and>
     map idle_proc (procs s') = map idle_proc (procs s)"

lemma bio_frame_refl: "bio_frame s s"
  by (simp add: bio_frame_def)

lemma bio_frame_trans:
  assumes "bio_frame s t" "bio_frame t u"
  shows "bio_frame s u"
proof -
  let ?f = "\<lambda>s. s\<lparr>procs := procs u, disk := disk u, dhist := dhist u, bufs := bufs u, lru := lru u\<rparr>"
  have t: "t = s\<lparr>procs := procs t, disk := disk t, dhist := dhist t, bufs := bufs t, lru := lru t\<rparr>"
    using assms(1) by (simp add: bio_frame_def)
  have "?f t = ?f s" using arg_cong [OF t, of ?f] by simp
  moreover have "u = ?f t" using assms(2) by (simp add: bio_frame_def)
  ultimately show ?thesis using assms by (simp add: bio_frame_def)
qed

lemma bio_frame_keeps:
  assumes "bio_frame s t"
  shows "pmem t = pmem s" "freelist t = freelist s" "sym t = sym s" "conout t = conout s" "cur t = cur s"
    "klog t = klog s" "sb t = sb s" "itable t = itable s" "ftable t = ftable s" "pipes t = pipes s"
    "length (procs t) = length (procs s)" "map p_pid (procs t) = map p_pid (procs s)"
    "map idle_proc (procs t) = map idle_proc (procs s)"
proof -
  have t: "t = s\<lparr>procs := procs t, disk := disk t, dhist := dhist t, bufs := bufs t, lru := lru t\<rparr>"
    and m: "map idle_proc (procs t) = map idle_proc (procs s)"
    using assms by (simp_all add: bio_frame_def)
  show "pmem t = pmem s" "freelist t = freelist s" "sym t = sym s" "conout t = conout s" "cur t = cur s"
    "klog t = klog s" "sb t = sb s" "itable t = itable s" "ftable t = ftable s" "pipes t = pipes s"
    by (subst t, simp)+
  have "map p_pid (map idle_proc (procs t)) = map p_pid (map idle_proc (procs s))" by (simp only: m)
  then show "map p_pid (procs t) = map p_pid (procs s)" by (simp add: idle_proc_def comp_def)
  show "map idle_proc (procs t) = map idle_proc (procs s)" by (fact m)
  show "length (procs t) = length (procs s)" using map_eq_imp_length_eq [OF m] by simp
qed

lemma find_unique:
  assumes "set xs = set ys" "\<And>x y. x \<in> set ys \<Longrightarrow> y \<in> set ys \<Longrightarrow> P x \<Longrightarrow> P y \<Longrightarrow> x = y"
  shows "find P xs = find P ys"
proof (cases "find P xs")
  case None
  then show ?thesis using assms(1) by (simp add: find_None_iff) (metis find_None_iff)
next
  case (Some x)
  then have x: "x \<in> set ys" "P x" using assms(1) by (auto simp: find_Some_iff)
  then obtain y where "find P ys = Some y" by (cases "find P ys") (auto simp: find_None_iff)
  moreover then have "y \<in> set ys" "P y" by (auto simp: find_Some_iff)
  ultimately show ?thesis using assms(2) x Some by metis
qed

lemma cache_inv_uniq:
  "cache_inv d s \<Longrightarrow> i < NBUF \<Longrightarrow> j < NBUF \<Longrightarrow> is_block d b s i \<Longrightarrow> is_block d b s j \<Longrightarrow> i = j"
  by (simp add: cache_inv_def)

lemma slot_Some:
  assumes "cache_inv d s"
  shows "slot d s b = Some i \<longleftrightarrow> i < NBUF \<and> is_block d b s i"
proof
  assume "slot d s b = Some i"
  then show "i < NBUF \<and> is_block d b s i" by (auto simp: slot_def find_Some_iff)
next
  assume i: "i < NBUF \<and> is_block d b s i"
  then obtain j where j: "slot d s b = Some j" by (cases "slot d s b") (auto simp: slot_def find_None_iff)
  then have "j < NBUF" "is_block d b s j" by (auto simp: slot_def find_Some_iff)
  then show "slot d s b = Some i" using i j assms by (auto simp: cache_inv_def)
qed

lemma slot_None: "slot d s b = None \<longleftrightarrow> (\<forall>i<NBUF. \<not> is_block d b s i)"
  by (auto simp: slot_def find_None_iff)

lemma slot_lru:
  assumes "cache_inv d s"
  shows "find (is_block d b s) (lru s) = slot d s b"
  unfolding slot_def by (rule find_unique) (use assms in \<open>auto simp: cache_inv_def\<close>)

lemma slot_cong: "(\<And>i. i < NBUF \<Longrightarrow> is_block d b t i = is_block d b s i) \<Longrightarrow> slot d t b = slot d s b"
  unfolding slot_def by (intro find_cong) auto

section \<open>Changing one buffer\<close>

text \<open>A new state in which buffer \<open>i\<close> is \<open>b'\<close>, the list is reordered and the disk is \<open>disk s'\<close>.\<close>

definition buf_step :: "nat \<Rightarrow> buf \<Rightarrow> 'a kfs_scheme \<Rightarrow> 'a kfs_scheme \<Rightarrow> bool" where
  "buf_step i b' s s' \<longleftrightarrow> bufs s' = (bufs s)[i := b'] \<and> distinct (lru s') \<and> set (lru s') = set (lru s) \<and> bio_frame s s'"

lemma buf_step_getb:
  assumes "buf_step i b' s s'" "cache_inv d s" "i < NBUF"
  shows "getb s' j = (if j = i then b' else getb s j)"
  using assms by (auto simp: buf_step_def getb_def cache_inv_def nth_list_update)

lemma mypid_frame:
  assumes "bio_frame s s'" "cache_inv d s"
  shows "mypid s' = mypid s"
proof -
  obtain c where c: "cur s = Some c" "c < length (procs s)" using assms(2) by (auto simp: cache_inv_def)
  note k = bio_frame_keeps [OF assms(1)]
  have "map p_pid (procs s') ! c = map p_pid (procs s) ! c" by (simp only: k(12))
  then show ?thesis using c k(5,11) by (simp add: mypid_def getp_def)
qed

lemma buf_step_inv:
  assumes st: "buf_step i b' s s'" and inv: "cache_inv d s" and i: "i < NBUF"
    and ok: "buf_ok d (disk s') b'"
    and rest: "\<And>j. j < NBUF \<Longrightarrow> j \<noteq> i \<Longrightarrow> b_refcnt (getb s j) = 0 \<Longrightarrow> b_valid (getb s j) \<Longrightarrow>
      disk s' (b_blockno (getb s j)) = disk s (b_blockno (getb s j))"
    and len: "\<And>b. length (disk s' b) = BSIZE"
    and new: "\<And>j. j < NBUF \<Longrightarrow> b_dev b' = d \<Longrightarrow> is_block d (b_blockno b') s j \<Longrightarrow> j = i"
  shows "cache_inv d s'"
proof -
  note g = buf_step_getb [OF st inv i]
  have "length (bufs s') = NBUF" "distinct (lru s')" "set (lru s') = {..<NBUF}" "\<exists>c<length (procs s'). cur s' = Some c"
    using st inv bio_frame_keeps(5,11) [of s s'] by (auto simp: buf_step_def cache_inv_def)
  moreover have "buf_ok d (disk s') (getb s' j)" if j: "j < NBUF" for j
  proof (cases "j = i")
    case False
    have "buf_ok d (disk s) (getb s j)" using inv j by (simp add: cache_inv_def)
    then show ?thesis using rest [OF j False] False by (auto simp: g buf_ok_def)
  qed (simp add: g ok)
  moreover have "j = k" if jk: "j < NBUF" "k < NBUF" "is_block d b s' j" "is_block d b s' k" for j k b
  proof -
    have bk: "is_block d b s' l = (if l = i then b_dev b' = d \<and> b_blockno b' = b else is_block d b s l)" for l
      by (simp add: is_block_def g)
    show ?thesis
      using jk(3,4) new [OF jk(1)] new [OF jk(2)] cache_inv_uniq [OF inv jk(1,2), of b] unfolding bk
      by (metis (full_types))
  qed
  ultimately show ?thesis using len unfolding cache_inv_def by blast
qed

text \<open>When the buffer keeps its identity, so does every other block.\<close>

lemma buf_step_same:
  assumes st: "buf_step i b' s s'" and inv: "cache_inv d s" and i: "i < NBUF"
    and id: "b_dev b' = b_dev (getb s i)" "b_blockno b' = b_blockno (getb s i)"
  shows "slot d s' = slot d s"
    and "is_block d b s' j = is_block d b s j"
proof -
  show e: "is_block d b s' j = is_block d b s j" for b j
    using buf_step_getb [OF st inv i] id by (auto simp: is_block_def)
  then show "slot d s' = slot d s" by (intro ext slot_cong)
qed

lemma buf_step_same_inv:
  assumes st: "buf_step i b' s s'" and inv: "cache_inv d s" and i: "i < NBUF"
    and id: "b_dev b' = b_dev (getb s i)" "b_blockno b' = b_blockno (getb s i)"
    and ok: "buf_ok d (disk s') b'"
    and rest: "\<And>j. j < NBUF \<Longrightarrow> j \<noteq> i \<Longrightarrow> b_refcnt (getb s j) = 0 \<Longrightarrow> b_valid (getb s j) \<Longrightarrow>
      disk s' (b_blockno (getb s j)) = disk s (b_blockno (getb s j))"
    and len: "\<And>b. length (disk s' b) = BSIZE"
  shows "cache_inv d s'"
proof (rule buf_step_inv [OF st inv i ok rest len])
  fix j assume "j < NBUF" "b_dev b' = d" "is_block d (b_blockno b') s j"
  then show "j = i" using cache_inv_uniq [OF inv _ i, of j] id by (simp add: is_block_def)
qed

lemma buf_step_slot:
  assumes st: "buf_step i b' s s'" and inv: "cache_inv d s" "cache_inv d s'" and i: "i < NBUF"
  shows "slot d s' c = (if b_dev b' = d \<and> b_blockno b' = c then Some i else if slot d s c = Some i then None else slot d s c)"
proof -
  note g = buf_step_getb [OF st inv(1) i]
  have bk: "is_block d c s' l = (if l = i then b_dev b' = d \<and> b_blockno b' = c else is_block d c s l)" for l
    by (simp add: is_block_def g)
  consider "b_dev b' = d \<and> b_blockno b' = c" | "\<not> (b_dev b' = d \<and> b_blockno b' = c)" "slot d s c = Some i"
    | "\<not> (b_dev b' = d \<and> b_blockno b' = c)" "slot d s c \<noteq> Some i" by blast
  then show ?thesis
  proof cases
    case 1
    then show ?thesis using slot_Some [OF inv(2), of c i] i by (simp add: bk)
  next
    case 2
    have "\<not> is_block d c s' l" if "l < NBUF" for l
      using 2 that slot_Some [OF inv(1), of c] cache_inv_uniq [OF inv(1) that i, of c] by (auto simp: bk)
    then have "slot d s' c = None" by (simp add: slot_None)
    then show ?thesis using 2 by simp
  next
    case 3
    then have "\<not> is_block d c s i" using slot_Some [OF inv(1), of c i] i by simp
    then have "slot d s' c = slot d s c" using 3 by (intro slot_cong) (simp add: bk)
    then show ?thesis using 3 by simp
  qed
qed

section \<open>Reading a block\<close>

definition mylock :: "'a kproc_scheme \<Rightarrow> sleeplock" where
  "mylock s = \<lparr>slk_locked = True, slk_pid = mypid s\<rparr>"

lemma lock_fields: "lk\<lparr>slk_locked := True, slk_pid := x\<rparr> = \<lparr>slk_locked = True, slk_pid = x\<rparr>"
  by (cases lk) simp

lemma lock_buf_eq:
  assumes "cache_inv d s" "\<not> slk_locked (b_lock (getb s i))"
  shows "lock_buf i s = Some (setb i (\<lambda>b. b\<lparr>b_lock := mylock s\<rparr>) s)"
  using assms by (auto simp: lock_buf_def acquiresleep_def mylock_def mypid_def cache_inv_def myproc_def lock_fields)

lemma setb_setb: "setb i f (setb i g s) = setb i (\<lambda>b. f (g b)) s"
  by (cases "i < length (bufs s)") (simp_all add: setb_def list_update_beyond)

lemma setb_cong: "f (getb s i) = g (getb s i) \<Longrightarrow> setb i f s = setb i g s"
  by (simp add: setb_def getb_def)

lemma buf_step_setb:
  assumes "cache_inv d s"
  shows "buf_step i (f (getb s i)) s (setb i f s)"
  using assms by (simp add: buf_step_def bio_frame_def setb_def getb_def cache_inv_def)

lemma mypid_setb [simp]: "mypid (setb i f s) = mypid s"
  by (simp add: mypid_def)

definition got :: "u32 \<Rightarrow> u32 \<Rightarrow> nat \<Rightarrow> 'a kfs_scheme \<Rightarrow> buf" where
  "got d b i s = \<lparr>b_valid = True, b_dev = d, b_blockno = b, b_lock = mylock s, b_refcnt = b_refcnt (getb s i) + 1,
     b_data = blk d s b\<rparr>"

lemma mylock_setb [simp]: "mylock (setb i f s) = mylock s"
  by (simp add: mylock_def)

lemma bread_hit:
  assumes inv: "cache_inv d s" and sl: "slot d s b = Some i" and nb: "\<not> busy d s b"
  shows "bread d b s = Some (i, setb i (\<lambda>_. got d b i s) s)"
proof -
  have i: "i < NBUF" "is_block d b s i" using sl slot_Some [OF inv] by auto
  have len: "i < length (bufs s)" using inv i by (simp add: cache_inv_def)
  have nl: "\<not> slk_locked (b_lock (getb s i))" using nb sl by (simp add: busy_def)
  obtain c where c: "cur s = Some c" using inv by (auto simp: cache_inv_def)
  let ?f = "\<lambda>b. b\<lparr>b_refcnt := b_refcnt b + 1, b_lock := mylock s\<rparr>"
  have bg: "bget d b s = Some (i, setb i ?f s)"
    using sl slot_lru [OF inv, of b] nl len c
    by (simp add: bget_def lock_buf_def acquiresleep_def getb_setb setb_setb mylock_def mypid_def myproc_def lock_fields)
  have g: "getb (setb i ?f s) i = ?f (getb s i)" using len by (simp add: getb_setb)
  show ?thesis
  proof (cases "b_valid (getb s i)")
    case True
    then have "?f (getb s i) = got d b i s" using i sl by (simp add: got_def blk_def is_block_def)
    then show ?thesis using bg g True by (simp add: bread_def got_def setb_cong [of ?f s i "\<lambda>_. got d b i s"])
  next
    case False
    let ?h = "\<lambda>b. (?f b)\<lparr>b_data := disk s (b_blockno b), b_valid := True\<rparr>"
    have "?h (getb s i) = got d b i s" using i sl False by (simp add: got_def blk_def is_block_def)
    then have "setb i ?h s = setb i (\<lambda>_. got d b i s) s" by (rule setb_cong)
    then show ?thesis using bg g False by (simp add: bread_def disk_rw_def setb_setb)
  qed
qed

lemma bread_miss:
  assumes inv: "cache_inv d s" and sl: "slot d s b = None" and f: "find (\<lambda>i. b_refcnt (getb s i) = 0) (rev (lru s)) = Some i"
  shows "bread d b s = Some (i, setb i (\<lambda>_. got d b i s) s)"
proof -
  have "i \<in> set (rev (lru s))" and i: "b_refcnt (getb s i) = 0" using f by (auto simp: find_Some_iff simp del: set_rev)
  then have i: "i < NBUF" "b_refcnt (getb s i) = 0" using inv by (auto simp: cache_inv_def)
  have len: "i < length (bufs s)" using inv i by (simp add: cache_inv_def)
  have nl: "\<not> slk_locked (b_lock (getb s i))" using inv i by (auto simp: cache_inv_def buf_ok_def)
  obtain c where c: "cur s = Some c" using inv by (auto simp: cache_inv_def)
  let ?f = "\<lambda>x. x\<lparr>b_dev := d, b_blockno := b, b_valid := False, b_refcnt := 1, b_lock := mylock s\<rparr>"
  have bg: "bget d b s = Some (i, setb i ?f s)"
    using sl slot_lru [OF inv, of b] nl len c f
    by (simp add: bget_def lock_buf_def acquiresleep_def getb_setb setb_setb mylock_def mypid_def myproc_def lock_fields)
  have g: "getb (setb i ?f s) i = ?f (getb s i)" using len by (simp add: getb_setb)
  let ?h = "\<lambda>x. (?f x)\<lparr>b_data := disk s b, b_valid := True\<rparr>"
  have "?h (getb s i) = got d b i s" using i sl by (simp add: got_def blk_def)
  then have "setb i ?h s = setb i (\<lambda>_. got d b i s) s" by (rule setb_cong)
  then show ?thesis using bg g by (simp add: bread_def disk_rw_def setb_setb)
qed

text \<open>The reference counts by block and by buffer agree.\<close>

lemma refs_card:
  assumes inv: "cache_inv d s"
  shows "card {b. refs d s b \<noteq> 0} = card {i. i < NBUF \<and> b_refcnt (getb s i) \<noteq> 0}"
proof -
  let ?I = "{i. i < NBUF \<and> b_refcnt (getb s i) \<noteq> 0}"
  have sl: "slot d s (b_blockno (getb s i)) = Some i" if "i \<in> ?I" for i
    using that inv slot_Some [OF inv, of "b_blockno (getb s i)" i] by (auto simp: cache_inv_def buf_ok_def is_block_def)
  have "{b. refs d s b \<noteq> 0} = (\<lambda>i. b_blockno (getb s i)) ` ?I"
  proof (intro set_eqI iffI)
    fix b assume "b \<in> {b. refs d s b \<noteq> 0}"
    then obtain i where i: "slot d s b = Some i" "b_refcnt (getb s i) \<noteq> 0"
      by (cases "slot d s b") (auto simp: refs_def unat_gt_0)
    then have "i < NBUF" "b = b_blockno (getb s i)" using slot_Some [OF inv] by (auto simp: is_block_def)
    then show "b \<in> (\<lambda>i. b_blockno (getb s i)) ` ?I" using i by auto
  next
    fix b assume "b \<in> (\<lambda>i. b_blockno (getb s i)) ` ?I"
    then obtain i where i: "i \<in> ?I" "b = b_blockno (getb s i)" by auto
    then show "b \<in> {b. refs d s b \<noteq> 0}" using sl [OF i(1)] by (simp add: refs_def unat_gt_0)
  qed
  moreover have "inj_on (\<lambda>i. b_blockno (getb s i)) ?I"
  proof (rule inj_onI)
    fix i j assume ij: "i \<in> ?I" "j \<in> ?I" and e: "b_blockno (getb s i) = b_blockno (getb s j)"
    show "i = j" using sl [OF ij(1)] sl [OF ij(2)] unfolding e by (simp only: option.inject)
  qed
  ultimately show ?thesis by (simp only: card_image)
qed

lemma bread_eq:
  assumes inv: "cache_inv d s" and nb: "\<not> busy d s b"
    and room: "refs d s b \<noteq> 0 \<or> card {c. refs d s c \<noteq> 0} < NBUF"
  obtains i where "i < NBUF" "bread d b s = Some (i, setb i (\<lambda>_. got d b i s) s)"
    "refs d s b = unat (b_refcnt (getb s i))"
    "is_block d b s i \<or> slot d s b = None \<and> b_refcnt (getb s i) = 0"
proof (cases "slot d s b")
  case (Some i)
  then show thesis using that [of i] bread_hit [OF inv Some nb] Some slot_Some [OF inv, of b i] by (simp add: refs_def)
next
  case None
  let ?P = "\<lambda>i. b_refcnt (getb s i) = 0"
  have lru: "set (rev (lru s)) = {..<NBUF}" using inv by (simp add: cache_inv_def)
  have "card {c. refs d s c \<noteq> 0} < NBUF" using room None by (simp add: refs_def)
  then have "card {i. i < NBUF \<and> b_refcnt (getb s i) \<noteq> 0} < NBUF" by (simp only: refs_card [OF inv])
  then have "{i. i < NBUF \<and> b_refcnt (getb s i) \<noteq> 0} \<noteq> {..<NBUF}" by (metis card_lessThan less_irrefl)
  then obtain j where "j \<in> set (rev (lru s))" "?P j" unfolding lru by blast
  then obtain i where i: "find ?P (rev (lru s)) = Some i"
    by (cases "find ?P (rev (lru s))") (auto simp: find_None_iff)
  then have "i \<in> set (rev (lru s))" "?P i" by (auto simp: find_Some_iff simp del: set_rev)
  then show thesis using that [of i] bread_miss [OF inv None i] lru None by (simp add: refs_def)
qed

section \<open>The operations keep the contract\<close>

lemma cache_inv_buf: "cache_inv d s \<Longrightarrow> i < NBUF \<Longrightarrow> buf_ok d (disk s) (getb s i)"
  by (simp add: cache_inv_def)

lemma blk_length: "cache_inv d s \<Longrightarrow> length (blk d s b) = BSIZE"
  using slot_Some [of d s b] by (auto simp: blk_def cache_inv_def buf_ok_def split: option.splits)

lemma blk_clean:
  assumes inv: "cache_inv d s" and r: "refs d s b = 0"
  shows "blk d s b = disk s b"
proof (cases "slot d s b")
  case (Some i)
  then have i: "i < NBUF" "is_block d b s i" using slot_Some [OF inv] by auto
  then have "b_valid (getb s i) \<longrightarrow> b_data (getb s i) = disk s b"
    using inv r Some by (auto simp: cache_inv_def buf_ok_def is_block_def refs_def unat_eq_0)
  then show ?thesis using Some by (simp add: blk_def)
qed (simp add: blk_def)

lemma busy_refs:
  assumes inv: "cache_inv d s" and r: "busy d s b"
  shows "refs d s b \<noteq> 0"
proof -
  obtain i where i: "slot d s b = Some i" "slk_locked (b_lock (getb s i))"
    using r by (cases "slot d s b") (auto simp: busy_def)
  then have "buf_ok d (disk s) (getb s i)" using cache_inv_buf [OF inv] slot_Some [OF inv] by blast
  then show ?thesis using i by (simp add: refs_def buf_ok_def unat_gt_0)
qed

lemma hold_slot: "cache_inv d s \<Longrightarrow> hold d s i b \<Longrightarrow> slot d s b = Some i"
  using slot_Some [of d s b i] by (simp add: hold_def)

lemma hold_views:
  assumes "cache_inv d s" "hold d s i b"
  shows "busy d s b" "refs d s b = unat (b_refcnt (getb s i))" "b_refcnt (getb s i) \<noteq> 0" "blk d s b = b_data (getb s i)"
  using assms hold_slot [OF assms]
  by (auto simp: hold_def busy_def refs_def blk_def cache_inv_def buf_ok_def)

text \<open>Blocks that are not in the changed buffer keep their views.\<close>

lemma view_other:
  assumes st: "buf_step i b' s s'" and inv: "cache_inv d s" and i: "i < NBUF"
    and c: "slot d s' c = slot d s c" "slot d s c \<noteq> Some i" "disk s' c = disk s c"
  shows "blk d s' c = blk d s c" "refs d s' c = refs d s c" "busy d s' c = busy d s c"
  using c buf_step_getb [OF st inv i] by (auto simp: blk_def refs_def busy_def split: option.splits)

lemma view_changed:
  assumes st: "buf_step i b' s s'" and inv: "cache_inv d s" and i: "i < NBUF" and c: "slot d s' c = Some i"
  shows "blk d s' c = (if b_valid b' then b_data b' else disk s' c)" "refs d s' c = unat (b_refcnt b')"
    "busy d s' c = slk_locked (b_lock b')"
  using c buf_step_getb [OF st inv i] by (simp_all add: blk_def refs_def busy_def)

lemma hold_other:
  assumes st: "buf_step i b' s s'" and inv: "cache_inv d s" and i: "i < NBUF" and j: "j \<noteq> i"
  shows "hold d s' j c = hold d s j c"
proof -
  have "bio_frame s s'" using st by (simp add: buf_step_def)
  then have "mypid s' = mypid s" using inv by (rule mypid_frame)
  then show ?thesis using j by (simp add: hold_def is_block_def buf_step_getb [OF st inv i])
qed

lemma bread_spec:
  assumes inv: "cache_inv d s" and nb: "\<not> busy d s b"
    and room: "refs d s b \<noteq> 0 \<or> card {c. refs d s c \<noteq> 0} < NBUF" and lim: "refs d s b < 2 ^ 32 - 1"
  shows "\<exists>i s'. bread d b s = Some (i, s') \<and> cache_inv d s' \<and> bio_frame s s' \<and> hold d s' i b \<and>
    (\<forall>h c. hold d s h c \<longrightarrow> hold d s' h c) \<and> blk d s' = blk d s \<and> disk s' = disk s \<and> dhist s' = dhist s \<and>
    refs d s' = (refs d s)(b := refs d s b + 1) \<and> busy d s' = (busy d s)(b := True)"
proof -
  obtain i where i: "i < NBUF" and br: "bread d b s = Some (i, setb i (\<lambda>_. got d b i s) s)"
    and ri: "refs d s b = unat (b_refcnt (getb s i))" and cs: "is_block d b s i \<or> slot d s b = None \<and> b_refcnt (getb s i) = 0"
    by (rule bread_eq [OF inv nb room])
  define s' where "s' = setb i (\<lambda>_. got d b i s) s"
  have st: "buf_step i (got d b i s) s s'" unfolding s'_def by (rule buf_step_setb [OF inv])
  have ds: "disk s' = disk s" "dhist s' = dhist s" by (simp_all add: s'_def)
  have r1: "unat (b_refcnt (getb s i) + 1) = refs d s b + 1"
    using lim unfolding ri by (subst unat_add_lem [THEN iffD1]) simp_all
  then have nz: "b_refcnt (getb s i) + 1 \<noteq> 0" by (metis add_is_0 one_neq_zero unat_0)
  have inv': "cache_inv d s'"
  proof (rule buf_step_inv [OF st inv i])
    show "buf_ok d (disk s') (got d b i s)" using nz blk_length [OF inv] by (simp add: buf_ok_def got_def)
    show "j = i" if "j < NBUF" "is_block d (b_blockno (got d b i s)) s j" for j
      using that cs i cache_inv_uniq [OF inv that(1) i, of b] by (auto simp: got_def slot_None)
  qed (use inv in \<open>simp_all add: ds cache_inv_def\<close>)
  have sl: "slot d s' c = (if c = b then Some i else if slot d s c = Some i then None else slot d s c)" for c
    using buf_step_slot [OF st inv inv' i, of c] by (auto simp: got_def)
  note ch = view_changed [OF st inv i, of b, unfolded sl, simplified]
  have ev: "blk d s c = disk s c \<and> refs d s c = 0 \<and> \<not> busy d s c" if c: "c \<noteq> b" "slot d s c = Some i" for c
  proof -
    have "b_refcnt (getb s i) = 0" using c cs slot_Some [OF inv, of c i] by (auto simp: is_block_def)
    then have "refs d s c = 0" using c by (simp add: refs_def)
    then show ?thesis using blk_clean [OF inv] busy_refs [OF inv] by blast
  qed
  have "blk d s' c = blk d s c \<and> refs d s' c = ((refs d s)(b := refs d s b + 1)) c \<and> busy d s' c = ((busy d s)(b := True)) c" for c
  proof -
    consider "c = b" | "c \<noteq> b" "slot d s c = Some i" | "c \<noteq> b" "slot d s c \<noteq> Some i" by blast
    then show ?thesis
    proof cases
      case 1
      then show ?thesis using ch r1 by (simp add: got_def mylock_def)
    next
      case 2
      then show ?thesis using ev [OF 2] sl [of c] by (simp add: blk_def refs_def busy_def ds)
    next
      case 3
      then show ?thesis using view_other [OF st inv i, of c] sl [of c] ds by simp
    qed
  qed
  moreover have "hold d s' h c" if h: "hold d s h c" for h c
  proof -
    have "slk_locked (b_lock (getb s h))" using h by (simp add: hold_def)
    moreover have "\<not> slk_locked (b_lock (getb s i))"
      using cs nb slot_Some [OF inv, of b i] i inv by (auto simp: busy_def cache_inv_def buf_ok_def)
    ultimately have "h \<noteq> i" by auto
    then show ?thesis using h hold_other [OF st inv i] by simp
  qed
  moreover have "hold d s' i b"
    using i buf_step_getb [OF st inv i] by (simp add: hold_def is_block_def got_def mylock_def s'_def)
  ultimately show ?thesis
    using br inv' ds st unfolding s'_def [symmetric] by (auto simp: fun_eq_iff buf_step_def)
qed

text \<open>A step on a buffer that the caller holds and whose identity stays.\<close>

lemma held_step:
  assumes st: "buf_step i b' s s'" and inv: "cache_inv d s" and h: "hold d s i b"
    and id: "b_dev b' = d" "b_blockno b' = b" and v: "b_valid b'"
    and ok: "buf_ok d (disk s') b'" and dk: "\<And>c. c \<noteq> b \<Longrightarrow> disk s' c = disk s c" and len: "length (disk s' b) = BSIZE"
  shows "cache_inv d s'" "blk d s' = (blk d s)(b := b_data b')" "refs d s' = (refs d s)(b := unat (b_refcnt b'))"
    "busy d s' = (busy d s)(b := slk_locked (b_lock b'))" "c \<noteq> b \<Longrightarrow> hold d s' j c = hold d s j c"
    "hold d s' i b \<longleftrightarrow> slk_locked (b_lock b') \<and> slk_pid (b_lock b') = mypid s"
proof -
  have i: "i < NBUF" "b_dev (getb s i) = d" "b_blockno (getb s i) = b" using h by (simp_all add: hold_def is_block_def)
  have id': "b_dev b' = b_dev (getb s i)" "b_blockno b' = b_blockno (getb s i)" using id i by simp_all
  note sl = buf_step_same(1) [OF st inv i(1) id'] and sb = hold_slot [OF inv h]
  show "cache_inv d s'"
  proof (rule buf_step_same_inv [OF st inv i(1) id' ok])
    show "length (disk s' c) = BSIZE" for c using len dk inv by (cases "c = b") (simp_all add: cache_inv_def)
    fix j assume j: "j < NBUF" "j \<noteq> i" "b_valid (getb s j)"
    then have "b_dev (getb s j) = d" using cache_inv_buf [OF inv j(1)] by (simp add: buf_ok_def)
    then have "b_blockno (getb s j) \<noteq> b" using cache_inv_uniq [OF inv j(1) i(1), of b] j(2) i by (auto simp: is_block_def)
    then show "disk s' (b_blockno (getb s j)) = disk s (b_blockno (getb s j))" by (rule dk)
  qed
  have ns: "slot d s c \<noteq> Some i" if "c \<noteq> b" for c using that slot_Some [OF inv, of c i] i by (simp add: is_block_def)
  have o: "blk d s' c = blk d s c" "refs d s' c = refs d s c" "busy d s' c = busy d s c" if "c \<noteq> b" for c
    using view_other [OF st inv i(1), of c] sl ns [OF that] dk [OF that] by simp_all
  have c: "blk d s' b = b_data b'" "refs d s' b = unat (b_refcnt b')" "busy d s' b = slk_locked (b_lock b')"
    using view_changed [OF st inv i(1), of b] sl sb v by simp_all
  show "blk d s' = (blk d s)(b := b_data b')" "refs d s' = (refs d s)(b := unat (b_refcnt b'))"
    "busy d s' = (busy d s)(b := slk_locked (b_lock b'))"
    by (rule ext, simp add: o c)+
  have m: "mypid s' = mypid s" using mypid_frame [OF _ inv] st by (simp add: buf_step_def)
  note g = buf_step_getb [OF st inv i(1)]
  show "hold d s' i b \<longleftrightarrow> slk_locked (b_lock b') \<and> slk_pid (b_lock b') = mypid s"
    using i v id m by (simp add: hold_def is_block_def g)
  show "hold d s' j c = hold d s j c" if "c \<noteq> b"
    using hold_other [OF st inv i(1), of j c] that id i m by (cases "j = i") (simp_all add: hold_def is_block_def g)
qed

lemma hold_buf:
  assumes "cache_inv d s" "hold d s i b"
  shows "i < length (bufs s)" "b_dev (getb s i) = d" "b_blockno (getb s i) = b" "b_valid (getb s i)"
    "buf_ok d (disk s) (getb s i)" "holdingsleep (b_lock (getb s i)) s = Some True" "length (disk s b) = BSIZE"
    "slk_locked (b_lock (getb s i))" "slk_pid (b_lock (getb s i)) = mypid s"
  using assms cache_inv_buf [of d s i]
  by (auto simp: hold_def is_block_def cache_inv_def holdingsleep_def mypid_def myproc_def)

lemma held_same:
  assumes st: "buf_step i b' s s'" and inv: "cache_inv d s" and h: "hold d s i b"
    and same: "b_dev b' = d" "b_blockno b' = b" "b_valid b'" "b_lock b' = b_lock (getb s i)"
  shows "hold d s' = hold d s"
proof (intro ext)
  fix j c
  have i: "i < NBUF" using h by (simp add: hold_def)
  have m: "mypid s' = mypid s" using mypid_frame [OF _ inv] st by (simp add: buf_step_def)
  show "hold d s' j c = hold d s j c"
    using hold_other [OF st inv i, of j c] hold_buf [OF inv h] same m i
    by (cases "j = i") (simp_all add: hold_def is_block_def buf_step_getb [OF st inv i])
qed

lemma set_data_spec:
  assumes inv: "cache_inv d s" and h: "hold d s i b" and len: "length (f (blk d s b)) = BSIZE"
  shows "cache_inv d (set_data i f s) \<and> bio_frame s (set_data i f s) \<and> hold d (set_data i f s) = hold d s \<and>
    blk d (set_data i f s) = (blk d s)(b := f (blk d s b)) \<and> disk (set_data i f s) = disk s \<and>
    dhist (set_data i f s) = dhist s \<and> refs d (set_data i f s) = refs d s \<and> busy d (set_data i f s) = busy d s"
proof -
  let ?f = "\<lambda>b. b\<lparr>b_data := f (b_data b)\<rparr>" and ?s = "set_data i f s"
  note hb = hold_buf [OF inv h] and hv = hold_views [OF inv h]
  have st: "buf_step i (?f (getb s i)) s ?s" unfolding set_data_def by (rule buf_step_setb [OF inv])
  have ds: "disk ?s = disk s" "dhist ?s = dhist s" by (simp_all add: set_data_def)
  have ok: "buf_ok d (disk ?s) (?f (getb s i))" using hb(5) hv len by (simp add: buf_ok_def ds)
  have id: "b_dev (?f (getb s i)) = d" "b_blockno (?f (getb s i)) = b" "b_valid (?f (getb s i))" using hb by simp_all
  have dk: "\<And>c. c \<noteq> b \<Longrightarrow> disk ?s c = disk s c" "length (disk ?s b) = BSIZE" using hb ds by simp_all
  note hs = held_step [OF st inv h id ok dk]
  have "hold d ?s = hold d s" by (rule held_same [OF st inv h]) (simp_all add: hb)
  moreover have "refs d ?s = refs d s" "busy d ?s = busy d s"
    using hs(3,4) hv hb by (simp_all add: fun_eq_iff)
  ultimately show ?thesis using hs(1,2) hv ds st by (simp add: buf_step_def)
qed

lemma bwrite_spec:
  assumes inv: "cache_inv d s" and h: "hold d s i b"
  shows "\<exists>s'. bwrite i s = Some s' \<and> cache_inv d s' \<and> bio_frame s s' \<and> hold d s' = hold d s \<and> blk d s' = blk d s \<and>
    disk s' = (disk s)(b := blk d s b) \<and> dhist s' = dhist s @ [(b, blk d s b)] \<and> refs d s' = refs d s \<and> busy d s' = busy d s"
proof -
  let ?b = "getb s i" and ?s = "disk_rw i True s"
  note hb = hold_buf [OF inv h] and hv = hold_views [OF inv h]
  have st: "buf_step i ?b s ?s"
    using inv hb by (simp add: buf_step_def disk_rw_def bio_frame_def cache_inv_def getb_def Let_def)
  have ds: "disk ?s = (disk s)(b := blk d s b)" "dhist ?s = dhist s @ [(b, blk d s b)]"
    using hb hv by (simp_all add: disk_rw_def Let_def)
  have ok: "buf_ok d (disk ?s) ?b" using hb(5) hv by (simp add: buf_ok_def)
  have dk: "\<And>c. c \<noteq> b \<Longrightarrow> disk ?s c = disk s c" "length (disk ?s b) = BSIZE" using ds blk_length [OF inv] by simp_all
  note hs = held_step [OF st inv h hb(2-4) ok dk]
  have "hold d ?s = hold d s" by (rule held_same [OF st inv h]) (simp_all add: hb)
  moreover have "blk d ?s = blk d s" "refs d ?s = refs d s" "busy d ?s = busy d s"
    using hs(2-4) hv hb by (simp_all add: fun_eq_iff)
  moreover have "bwrite i s = Some ?s" using hb(6) by (simp add: bwrite_def)
  ultimately show ?thesis using hs(1) ds st by (simp add: buf_step_def)
qed

lemma wakeup_pids: "map idle_proc (procs (wakeup ch s)) = map idle_proc (procs s)"
  by (rule nth_equalityI) (simp_all add: wakeup_def wake_one_def idle_proc_def)

lemma brelse_spec:
  assumes inv: "cache_inv d s" and h: "hold d s i b" and r: "1 < refs d s b \<or> blk d s b = disk s b"
  shows "\<exists>s'. brelse i s = Some s' \<and> cache_inv d s' \<and> bio_frame s s' \<and>
    (\<forall>j c. c \<noteq> b \<longrightarrow> hold d s j c \<longrightarrow> hold d s' j c) \<and> blk d s' = blk d s \<and> disk s' = disk s \<and> dhist s' = dhist s \<and>
    refs d s' = (refs d s)(b := refs d s b - 1) \<and> busy d s' = (busy d s)(b := False)"
proof -
  note hb = hold_buf [OF inv h] and hv = hold_views [OF inv h]
  have iN: "i < NBUF" using h by (simp add: hold_def)
  let ?b = "(getb s i)\<lparr>b_lock := \<lparr>slk_locked = False, slk_pid = 0\<rparr>, b_refcnt := b_refcnt (getb s i) - 1\<rparr>"
  let ?t = "setb i (\<lambda>_. ?b) (wakeup (ChBufLock i) s)"
  define s' where "s' = (if b_refcnt ?b = 0 then ?t\<lparr>lru := i # remove1 i (lru s)\<rparr> else ?t)"
  have lk: "lk\<lparr>slk_locked := False, slk_pid := 0\<rparr> = \<lparr>slk_locked = False, slk_pid = 0\<rparr>" for lk by (cases lk) simp
  have e: "setb i (\<lambda>b. b\<lparr>b_lock := \<lparr>slk_locked = False, slk_pid = 0\<rparr>, b_refcnt := b_refcnt b - 1\<rparr>) (wakeup (ChBufLock i) s) = ?t"
    by (rule setb_cong) simp
  have rl: "brelse i s = Some s'"
    using hb e by (simp add: brelse_def releasesleep_def lk setb_setb getb_setb s'_def)
  have pids: "map idle_proc (procs (wakeup (ChBufLock i) s)) = map idle_proc (procs s)" by (rule wakeup_pids)
  have lru: "distinct (i # remove1 i (lru s))" "set (i # remove1 i (lru s)) = set (lru s)"
    using inv iN by (auto simp: cache_inv_def)
  have st: "buf_step i ?b s s'"
    using inv pids lru by (simp add: s'_def buf_step_def bio_frame_def setb_def wakeup_def cache_inv_def)
  have ds: "disk s' = disk s" "dhist s' = dhist s" by (simp_all add: s'_def)
  have r1: "unat (b_refcnt (getb s i) - 1) = refs d s b - 1" using hv unat_minus_one by metis
  have ok: "buf_ok d (disk s') ?b"
    using hb(3,5) hv r r1 by (auto simp: buf_ok_def ds)
  have id: "b_dev ?b = d" "b_blockno ?b = b" "b_valid ?b" using hb by simp_all
  have dk: "\<And>c. c \<noteq> b \<Longrightarrow> disk s' c = disk s c" "length (disk s' b) = BSIZE" using ds hb by simp_all
  note hs = held_step [OF st inv h id ok dk]
  have "blk d s' = blk d s" "refs d s' = (refs d s)(b := refs d s b - 1)" "busy d s' = (busy d s)(b := False)"
    using hs(2-4) hv hb r1 by (simp_all add: fun_eq_iff)
  then show ?thesis using hs(1,5) ds st rl by (simp add: buf_step_def)
qed

lemma repin_spec:
  assumes inv: "cache_inv d s" and h: "hold d s i b" and f: "f (b_refcnt (getb s i)) \<noteq> 0"
  defines "s' \<equiv> setb i (\<lambda>b. b\<lparr>b_refcnt := f (b_refcnt b)\<rparr>) s"
  shows "cache_inv d s'" "bio_frame s s'" "hold d s' = hold d s" "blk d s' = blk d s" "disk s' = disk s" "dhist s' = dhist s"
    "refs d s' = (refs d s)(b := unat (f (b_refcnt (getb s i))))" "busy d s' = busy d s"
proof -
  let ?f = "\<lambda>b. b\<lparr>b_refcnt := f (b_refcnt b)\<rparr>"
  note hb = hold_buf [OF inv h] and hv = hold_views [OF inv h]
  have st: "buf_step i (?f (getb s i)) s s'" unfolding s'_def by (rule buf_step_setb [OF inv])
  show ds: "disk s' = disk s" "dhist s' = dhist s" by (simp_all add: s'_def)
  have ok: "buf_ok d (disk s') (?f (getb s i))" using hb(2,5) f by (simp add: buf_ok_def ds)
  have id: "b_dev (?f (getb s i)) = d" "b_blockno (?f (getb s i)) = b" "b_valid (?f (getb s i))" using hb by simp_all
  have dk: "\<And>c. c \<noteq> b \<Longrightarrow> disk s' c = disk s c" "length (disk s' b) = BSIZE" using hb ds by simp_all
  note hs = held_step [OF st inv h id ok dk]
  show "hold d s' = hold d s" by (rule held_same [OF st inv h]) (simp_all add: hb)
  show "blk d s' = blk d s" "busy d s' = busy d s" using hs(2,4) hv hb by (simp_all add: fun_eq_iff)
  show "refs d s' = (refs d s)(b := unat (f (b_refcnt (getb s i))))" using hs(3) by simp
  show "cache_inv d s'" "bio_frame s s'" using hs(1) st by (simp_all add: buf_step_def)
qed

lemma pin_spec:
  assumes "cache_inv d s" "hold d s i b" "refs d s b < 2 ^ 32 - 1"
  shows "cache_inv d (bpin i s) \<and> bio_frame s (bpin i s) \<and> hold d (bpin i s) = hold d s \<and> blk d (bpin i s) = blk d s \<and>
    disk (bpin i s) = disk s \<and> dhist (bpin i s) = dhist s \<and> refs d (bpin i s) = (refs d s)(b := refs d s b + 1) \<and>
    busy d (bpin i s) = busy d s"
proof -
  note hv = hold_views [OF assms(1,2)]
  have u: "unat (b_refcnt (getb s i) + 1) = refs d s b + 1"
    using assms(3) unfolding hv(2) by (subst unat_add_lem [THEN iffD1]) simp_all
  then have "b_refcnt (getb s i) + 1 \<noteq> 0" by (metis add_is_0 one_neq_zero unat_0)
  from repin_spec [OF assms(1,2), of "\<lambda>x. x + 1", OF this] u show ?thesis by (simp add: bpin_def)
qed

lemma unpin_spec:
  assumes "cache_inv d s" "hold d s i b" "1 < refs d s b"
  shows "cache_inv d (bunpin i s) \<and> bio_frame s (bunpin i s) \<and> hold d (bunpin i s) = hold d s \<and> blk d (bunpin i s) = blk d s \<and>
    disk (bunpin i s) = disk s \<and> dhist (bunpin i s) = dhist s \<and> refs d (bunpin i s) = (refs d s)(b := refs d s b - 1) \<and>
    busy d (bunpin i s) = busy d s"
proof -
  note hv = hold_views [OF assms(1,2)]
  have u: "unat (b_refcnt (getb s i) - 1) = refs d s b - 1" using hv unat_minus_one by metis
  then have "b_refcnt (getb s i) - 1 \<noteq> 0" using assms(3) by (metis diff_is_0_eq leD unat_0)
  from repin_spec [OF assms(1,2), of "\<lambda>x. x - 1", OF this] u show ?thesis by (simp add: bunpin_def)
qed

interpretation bc: block_cache "cache_inv d" "blk d" disk dhist "refs d" "busy d" "hold d" "\<lambda>bs. length bs = BSIZE"
  bio_frame NBUF "2 ^ 32 - 1" "\<lambda>s i. b_data (getb s i)" "bread d" set_data bwrite brelse bpin bunpin for d :: u32
proof
  fix s :: "'a kfs_scheme" and h b
  assume "cache_inv d s" "hold d s h b"
  then show "busy d s b \<and> refs d s b \<noteq> 0 \<and> b_data (getb s h) = blk d s b"
    using hold_views [of d s h b] by (simp add: unat_gt_0)
qed (rule blk_clean blk_length bread_spec set_data_spec bwrite_spec brelse_spec pin_spec unpin_spec
    bio_frame_refl bio_frame_trans; assumption)+

section \<open>Properties\<close>

lemma bread_None:
  assumes inv: "cache_inv d s" and c: "busy d s b \<or> slot d s b = None \<and> card {c. refs d s c \<noteq> 0} = NBUF"
  shows "bread d b s = None"
proof (cases "slot d s b")
  case (Some i)
  then have b: "busy d s b" using c by simp
  have i: "i < length (bufs s)" using Some slot_Some [OF inv] inv by (auto simp: cache_inv_def)
  have "slk_locked (b_lock (getb s i))" using b Some by (simp add: busy_def)
  then show ?thesis
    using Some i slot_lru [OF inv, of b] by (simp add: bread_def bget_def lock_buf_def acquiresleep_def getb_setb)
next
  case None
  then have "card {i. i < NBUF \<and> b_refcnt (getb s i) \<noteq> 0} = NBUF"
    using c refs_card [OF inv] by (simp add: busy_def)
  then have "{i. i < NBUF \<and> b_refcnt (getb s i) \<noteq> 0} = {..<NBUF}"
    by (intro card_subset_eq) auto
  then have "b_refcnt (getb s i) \<noteq> 0" if "i < NBUF" for i using that by blast
  then have "find (\<lambda>i. b_refcnt (getb s i) = 0) (rev (lru s)) = None"
    using inv by (auto simp: find_None_iff cache_inv_def)
  then show ?thesis using None slot_lru [OF inv, of b] by (simp add: bread_def bget_def)
qed

lemma in_use_le: "cache_inv d s \<Longrightarrow> card {c. refs d s c \<noteq> 0} \<le> NBUF"
  using card_mono [of "{..<NBUF}" "{i. i < NBUF \<and> b_refcnt (getb s i) \<noteq> 0}"] by (simp only: refs_card) auto

text \<open>C20: \<open>bread\<close> of a block has a result exactly when the block is not locked and is cached or some buffer has no
  reference; otherwise it would wait for the lock, or panics because every buffer is in use.\<close>

theorem bread_defined:
  assumes inv: "cache_inv d s"
  shows "bread d b s \<noteq> None \<longleftrightarrow> \<not> busy d s b \<and> (slot d s b \<noteq> None \<or> card {c. refs d s c \<noteq> 0} < NBUF)"
proof
  assume "bread d b s \<noteq> None"
  then have "\<not> (busy d s b \<or> slot d s b = None \<and> card {c. refs d s c \<noteq> 0} = NBUF)" using bread_None [OF inv, of b] by metis
  then show "\<not> busy d s b \<and> (slot d s b \<noteq> None \<or> card {c. refs d s c \<noteq> 0} < NBUF)"
    using le_neq_implies_less [OF in_use_le [OF inv]] by metis
next
  assume r: "\<not> busy d s b \<and> (slot d s b \<noteq> None \<or> card {c. refs d s c \<noteq> 0} < NBUF)"
  show "bread d b s \<noteq> None"
  proof (cases "slot d s b")
    case (Some i)
    then show ?thesis using bread_hit [OF inv Some] r by simp
  next
    case None
    then have "card {c. refs d s c \<noteq> 0} < NBUF" using r by simp
    then obtain i s' where "bread d b s = Some (i, s')" using bread_eq [OF inv, of b] r by metis
    then show ?thesis by simp
  qed
qed

lemma demo_buf:
  "i < NBUF \<Longrightarrow> getb (demo_kfs\<lparr>disk := D\<rparr>) i = \<lparr>b_valid = False, b_dev = 0, b_blockno = 0, b_lock = initsleeplock,
     b_refcnt = 0, b_data = replicate BSIZE 0\<rparr>"
  by (simp add: demo_kfs_def getb_def)

lemma demo_cache:
  assumes "\<And>b. length (D b) = BSIZE"
  shows "cache_inv 1 (demo_kfs\<lparr>disk := D\<rparr>)" "slot 1 (demo_kfs\<lparr>disk := D\<rparr>) b = None"
    "refs 1 (demo_kfs\<lparr>disk := D\<rparr>) = (\<lambda>_. 0)" "\<not> busy 1 (demo_kfs\<lparr>disk := D\<rparr>) b"
    "blk 1 (demo_kfs\<lparr>disk := D\<rparr>) b = D b"
proof -
  let ?s = "demo_kfs\<lparr>disk := D\<rparr>"
  have nb: "\<not> is_block 1 b ?s i" if "i < NBUF" for b i using that by (simp add: is_block_def demo_buf)
  then show sl: "slot 1 ?s b = None" for b by (simp add: slot_None)
  then show "refs 1 ?s = (\<lambda>_. 0)" "\<not> busy 1 ?s b" "blk 1 ?s b = D b"
    by (simp_all add: refs_def busy_def blk_def fun_eq_iff)
  have "buf_ok 1 (disk ?s) (getb ?s i)" if "i < NBUF" for i
    using demo_buf [OF that] by (simp add: buf_ok_def initsleeplock_def)
  then show "cache_inv 1 ?s" using nb assms unfolding cache_inv_def by (simp add: demo_kfs_def lessThan_atLeast0)
qed

lemma demo_kfs_disk: "demo_kfs = demo_kfs\<lparr>disk := \<lambda>_. replicate BSIZE 0\<rparr>"
  by (simp add: demo_kfs_def)

lemma demo_kfs_cache:
  "cache_inv 1 demo_kfs" "slot 1 demo_kfs b = None" "refs 1 demo_kfs b = 0" "\<not> busy 1 demo_kfs b" "blk 1 demo_kfs b = replicate BSIZE 0"
  by (subst demo_kfs_disk, simp add: demo_cache)+

theorem bread_defined_witness: "bread 1 33 demo_kfs \<noteq> None"
  using bread_defined [OF demo_kfs_cache(1), of 33] demo_kfs_cache by simp

text \<open>C19: a block that \<open>bread\<close> returns has the current contents of the block, the cached one or else the one on
  disk; reading changes the contents of no block, neither cached nor on disk, releases no lock and evicts no block
  that is referenced, and the cache keeps at most one buffer per block.\<close>

theorem bread_coherent:
  assumes "cache_inv d s" "\<not> busy d s b" "refs d s b \<noteq> 0 \<or> card {c. refs d s c \<noteq> 0} < NBUF" "refs d s b < 2 ^ 32 - 1"
  shows "\<exists>i s'. bread d b s = Some (i, s') \<and> b_data (getb s' i) = blk d s b \<and> hold d s' i b \<and> cache_inv d s' \<and>
    blk d s' = blk d s \<and> disk s' = disk s \<and> (\<forall>j c. hold d s j c \<longrightarrow> hold d s' j c) \<and>
    refs d s' = (refs d s)(b := refs d s b + 1)"
proof -
  obtain i s' where r: "bread d b s = Some (i, s')" "cache_inv d s'" "hold d s' i b" "\<forall>j c. hold d s j c \<longrightarrow> hold d s' j c"
    "blk d s' = blk d s" "disk s' = disk s" "refs d s' = (refs d s)(b := refs d s b + 1)"
    using bc.rd [OF assms] by blast
  then show ?thesis using bc.holdD [OF r(2,3)] by auto
qed

theorem bread_coherent_witness:
  "\<exists>i s'. bread 1 33 demo_kfs = Some (i, s') \<and> b_data (getb s' i) = replicate BSIZE 0 \<and> hold 1 s' i 33 \<and> cache_inv 1 s' \<and>
    blk 1 s' = blk 1 demo_kfs \<and> disk s' = disk demo_kfs"
  using bread_coherent [OF demo_kfs_cache(1), of 33] demo_kfs_cache by auto

end
