(* ===== verification/Log.thy ===== *)
theory Log
  imports Cache
begin

text \<open>
  The write-ahead log, \<^verbatim>\<open>kernel/log.c\<close>. \<open>begin_op\<close> has no result when it would have to wait.
  The loops run over \<open>tail = 0 .. n - 1\<close>. A header on disk that claims more than \<open>LOGBLOCKS\<close> blocks
  would make \<open>read_head\<close> write beyond \<open>log.lh.block\<close>; there is no result then.
\<close>

section \<open>Header block\<close>

fun head_blocks :: "u8 list \<Rightarrow> nat \<Rightarrow> u32 list" where
  "head_blocks bs 0 = []"
| "head_blocks bs (Suc n) = head_blocks bs n @ [get32 bs (4 + 4 * n)]"

fun put_blocks :: "u8 list \<Rightarrow> u32 list \<Rightarrow> nat \<Rightarrow> u8 list" where
  "put_blocks bs ws 0 = bs"
| "put_blocks bs ws (Suc n) = put32 (put_blocks bs ws n) (4 + 4 * n) (ws ! n)"

definition read_head :: "'a kfs_scheme \<Rightarrow> 'a kfs_scheme option" where
  "read_head s = do {
     (i, s) \<leftarrow> bread (lg_dev (klog s)) (lg_start (klog s)) s;
     let bs = b_data (getb s i);
     let n = sint (get32 bs 0);
     if int LOGBLOCKS < n then None
     else do {
       let blocks = head_blocks bs (nat n) @ drop (nat n) (lh_block (lg_lh (klog s)));
       brelse i (setlog (\<lambda>l. l\<lparr>lg_lh := \<lparr>lh_n = n, lh_block = blocks\<rparr>\<rparr>) s)
     }
   }"

definition write_head :: "'a kfs_scheme \<Rightarrow> 'a kfs_scheme option" where
  "write_head s = do {
     (i, s) \<leftarrow> bread (lg_dev (klog s)) (lg_start (klog s)) s;
     let lh = lg_lh (klog s);
     let s = set_data i (\<lambda>bs. put_blocks (put32 bs 0 (word_of_int (lh_n lh))) (lh_block lh) (nat (lh_n lh))) s;
     s \<leftarrow> bwrite i s;
     brelse i s
   }"

section \<open>Copying between the log and the home locations\<close>

definition install_one :: "bool \<Rightarrow> nat \<Rightarrow> 'a kfs_scheme \<Rightarrow> 'a kfs_scheme option" where
  "install_one recovering tail s = do {
     let dst = lh_block (lg_lh (klog s)) ! tail;
     s \<leftarrow> (if recovering
           then kprint (''recovering tail %d dst %d'' @ [CHR 0x0A]) [Reg (of_nat tail), Reg (scast dst)] s
           else Some s);
     (lbuf, s) \<leftarrow> bread (lg_dev (klog s)) (lg_start (klog s) + of_nat tail + 1) s;
     (dbuf, s) \<leftarrow> bread (lg_dev (klog s)) dst s;
     let s = set_data dbuf (\<lambda>_. b_data (getb s lbuf)) s;
     s \<leftarrow> bwrite dbuf s;
     let s = (if recovering then s else bunpin dbuf s);
     s \<leftarrow> brelse lbuf s;
     brelse dbuf s
   }"

definition write_log_one :: "nat \<Rightarrow> 'a kfs_scheme \<Rightarrow> 'a kfs_scheme option" where
  "write_log_one tail s = do {
     (to, s) \<leftarrow> bread (lg_dev (klog s)) (lg_start (klog s) + of_nat tail + 1) s;
     (from, s) \<leftarrow> bread (lg_dev (klog s)) (lh_block (lg_lh (klog s)) ! tail) s;
     let s = set_data to (\<lambda>_. b_data (getb s from)) s;
     s \<leftarrow> bwrite to s;
     s \<leftarrow> brelse from s;
     brelse to s
   }"

fun for_each :: "('b \<Rightarrow> 's \<Rightarrow> 's option) \<Rightarrow> 'b list \<Rightarrow> 's \<Rightarrow> 's option" where
  "for_each f [] s = Some s"
| "for_each f (i # is) s = Option.bind (f i s) (for_each f is)"

definition install_trans :: "bool \<Rightarrow> 'a kfs_scheme \<Rightarrow> 'a kfs_scheme option" where
  "install_trans recovering s = for_each (install_one recovering) [0..<nat (lh_n (lg_lh (klog s)))] s"

definition write_log :: "'a kfs_scheme \<Rightarrow> 'a kfs_scheme option" where
  "write_log s = for_each write_log_one [0..<nat (lh_n (lg_lh (klog s)))] s"

definition clear_n :: "'a kfs_scheme \<Rightarrow> 'a kfs_scheme" where
  "clear_n s = setlog (\<lambda>l. l\<lparr>lg_lh := (lg_lh l)\<lparr>lh_n := 0\<rparr>\<rparr>) s"

definition recover_from_log :: "'a kfs_scheme \<Rightarrow> 'a kfs_scheme option" where
  "recover_from_log s = do {
     s \<leftarrow> read_head s;
     s \<leftarrow> install_trans True s;
     write_head (clear_n s)
   }"

text \<open>\<open>sizeof(struct logheader)\<close> is 124, less than \<open>BSIZE\<close>, so \<open>initlog\<close> does not panic.\<close>

definition initlog :: "u32 \<Rightarrow> superblock \<Rightarrow> 'a kfs_scheme \<Rightarrow> 'a kfs_scheme option" where
  "initlog dev sblk s = recover_from_log (setlog (\<lambda>l. l\<lparr>lg_start := sb_logstart sblk, lg_dev := dev\<rparr>) s)"

definition commit :: "'a kfs_scheme \<Rightarrow> 'a kfs_scheme option" where
  "commit s =
     (if 0 < lh_n (lg_lh (klog s)) then do {
        s \<leftarrow> write_log s;
        s \<leftarrow> write_head s;
        s \<leftarrow> install_trans False s;
        write_head (clear_n s)
      } else Some s)"

section \<open>Transactions\<close>

definition can_begin :: "log \<Rightarrow> bool" where
  "can_begin l \<longleftrightarrow> \<not> lg_committing l \<and>
     \<not> lh_n (lg_lh l) + (lg_outstanding l + 1) * MAXOPBLOCKS > int LOGBLOCKS"

definition begin_op :: "'a kfs_scheme \<Rightarrow> 'a kfs_scheme option" where
  "begin_op s =
     (if can_begin (klog s) then Some (setlog (\<lambda>l. l\<lparr>lg_outstanding := lg_outstanding l + 1\<rparr>) s) else None)"

definition end_op :: "'a kfs_scheme \<Rightarrow> 'a kfs_scheme option" where
  "end_op s =
     (let s = setlog (\<lambda>l. l\<lparr>lg_outstanding := lg_outstanding l - 1\<rparr>) s
      in if lg_committing (klog s) then panic ''log.committing''
         else if lg_outstanding (klog s) = 0 then do {
           s \<leftarrow> commit (setlog (\<lambda>l. l\<lparr>lg_committing := True\<rparr>) s);
           Some (wakeup ChLog (setlog (\<lambda>l. l\<lparr>lg_committing := False\<rparr>) s))
         }
         else Some (wakeup ChLog s))"

fun find_index :: "u32 \<Rightarrow> u32 list \<Rightarrow> nat \<Rightarrow> nat" where
  "find_index b [] n = 0"
| "find_index b (x # xs) n = (if n = 0 then 0 else if x = b then 0 else Suc (find_index b xs (n - 1)))"

definition log_write :: "nat \<Rightarrow> 'a kfs_scheme \<Rightarrow> 'a kfs_scheme option" where
  "log_write bi s =
     (let l = klog s; n = lh_n (lg_lh l); bno = b_blockno (getb s bi)
      in if int LOGBLOCKS \<le> n then panic ''too big a transaction''
         else if lg_outstanding l < 1 then panic ''log_write outside of trans''
         else let i = find_index bno (lh_block (lg_lh l)) (nat n);
                  s = setlog (\<lambda>l. l\<lparr>lg_lh := (lg_lh l)\<lparr>lh_block := (lh_block (lg_lh l))[i := bno]\<rparr>\<rparr>) s
              in if int i = n
                 then Some (setlog (\<lambda>l. l\<lparr>lg_lh := (lg_lh l)\<lparr>lh_n := n + 1\<rparr>\<rparr>) (bpin bi s))
                 else Some s)"

end
