(* ===== verification/LogSafe.thy ===== *)
theory LogSafe
  imports Log
begin

text \<open>
  Crash safety of the write-ahead log, \<^verbatim>\<open>kernel/log.c\<close>. Both \<open>commit\<close> and the recovery at boot are
  shown to make exactly a certain sequence of block writes (\<open>commit_writes\<close>, \<open>recovery_writes\<close>); that a
  crash after any number of them, and any number of crashes during recovery, leaves either all or none
  of the blocks of the transaction updated is then a fact about disks. A write of one block is taken to
  be atomic.
\<close>

section \<open>The header block\<close>

lemma length_put_blocks [simp]: "4 + 4 * n \<le> length bs \<Longrightarrow> length (put_blocks bs ws n) = length bs"
  by (induction n) simp_all

lemma get32_put_blocks:
  "4 + 4 * n \<le> length bs \<Longrightarrow> off + 4 \<le> 4 \<or> 4 + 4 * n \<le> off \<Longrightarrow> get32 (put_blocks bs ws n) off = get32 bs off"
  by (induction n) (auto simp: get32_put32_other)

lemma get32_put_blocks_nth:
  "4 + 4 * n \<le> length bs \<Longrightarrow> t < n \<Longrightarrow> get32 (put_blocks bs ws n) (4 + 4 * t) = ws ! t"
proof (induction n)
  case (Suc n)
  then show ?case by (cases "t = n") (auto simp: get32_put32 get32_put32_other)
qed simp

lemma head_blocks_map: "head_blocks bs n = map (\<lambda>t. get32 bs (4 + 4 * t)) [0..<n]"
  by (induction n) simp_all

lemma length_head_blocks [simp]: "length (head_blocks bs n) = n"
  by (simp add: head_blocks_map)

definition header :: "u8 list \<Rightarrow> u32 list \<Rightarrow> nat \<Rightarrow> u8 list" where
  "header bs ws n = put_blocks (put32 bs 0 (of_nat n)) ws n"

lemma header_n: "length bs = BSIZE \<Longrightarrow> n \<le> LOGBLOCKS \<Longrightarrow> get32 (header bs ws n) 0 = of_nat n"
  by (simp add: header_def get32_put_blocks get32_put32)

lemma header_blocks: "length bs = BSIZE \<Longrightarrow> n \<le> LOGBLOCKS \<Longrightarrow> n \<le> length ws \<Longrightarrow> head_blocks (header bs ws n) n = take n ws"
  by (rule nth_equalityI) (simp_all add: head_blocks_map header_def get32_put_blocks_nth)

lemma length_header [simp]: "length bs = BSIZE \<Longrightarrow> n \<le> LOGBLOCKS \<Longrightarrow> length (header bs ws n) = BSIZE"
  by (simp add: header_def)

lemma sint_small: "n \<le> LOGBLOCKS \<Longrightarrow> sint (of_nat n :: u32) = int n"
  by (simp add: signed_of_nat signed_take_bit_int_eq_self)

lemma recovering_prints: "\<exists>out. kprint (''recovering tail %d dst %d'' @ [CHR 0x0A]) [Reg a, Reg b] s = Some (s\<lparr>conout := out\<rparr>)"
  by (simp add: kprint_def str_def conv_def next_reg_def byte_at_def Let_def) (rule exI, rule refl)

section \<open>Writes\<close>

type_synonym blocks = "u32 \<Rightarrow> u8 list"

fun play :: "(u32 \<times> u8 list) list \<Rightarrow> blocks \<Rightarrow> blocks" where
  "play [] D = D"
| "play (w # ws) D = play ws (D(fst w := snd w))"

lemma play_append [simp]: "play (ws @ vs) D = play vs (play ws D)"
  by (induction ws arbitrary: D) simp_all

lemma play_other: "b \<notin> fst ` set ws \<Longrightarrow> play ws D b = D b"
  by (induction ws arbitrary: D) auto

lemma play_distinct: "distinct (map fst ws) \<Longrightarrow> (b, v) \<in> set ws \<Longrightarrow> play ws D b = v"
proof (induction ws arbitrary: D)
  case (Cons w ws)
  then show ?case using play_other [of b ws] by (cases "w = (b, v)") auto
qed simp

text \<open>The area of the log that starts at block \<open>st\<close>, and its data blocks.\<close>

definition log_block :: "u32 \<Rightarrow> nat \<Rightarrow> u32" where
  "log_block st t = st + of_nat t + 1"

definition log_area :: "u32 \<Rightarrow> u32 set" where
  "log_area st = insert st (log_block st ` {..<LOGBLOCKS})"

lemma log_block_area [simp]: "t < LOGBLOCKS \<Longrightarrow> log_block st t \<in> log_area st" "st \<in> log_area st"
  by (simp_all add: log_area_def)

lemma log_block_inj:
  assumes "t < LOGBLOCKS" "u < LOGBLOCKS"
  shows "log_block st t = log_block st u \<longleftrightarrow> t = u" "log_block st t \<noteq> st"
proof -
  have e: "unat (of_nat k :: u32) = k" if "k \<le> LOGBLOCKS" for k using that by (simp add: unat_of_nat)
  show "log_block st t = log_block st u \<longleftrightarrow> t = u"
  proof
    assume "log_block st t = log_block st u"
    then have "of_nat t = (of_nat u :: u32)" by (simp only: log_block_def add_right_cancel add_left_cancel)
    then have "unat (of_nat t :: u32) = unat (of_nat u :: u32)" by (simp only:)
    then show "t = u" using e [OF less_imp_le [OF assms(1)]] e [OF less_imp_le [OF assms(2)]] by (simp only:)
  qed simp
  have "of_nat (Suc t) \<noteq> (0 :: u32)" using e [of "Suc t"] assms(1) by (metis Suc_leI nat.distinct(1) unat_0)
  then show "log_block st t \<noteq> st" by (simp add: log_block_def algebra_simps)
qed

section \<open>Steps of the log on the cache\<close>

lemma cache_cong:
  assumes "bufs t = bufs s" "lru t = lru s" "disk t = disk s" "procs t = procs s" "cur t = cur s"
  shows "cache_inv d t = cache_inv d s" "blk d t = blk d s" "refs d t = refs d s" "busy d t = busy d s" "hold d t = hold d s"
proof -
  have g: "getb t = getb s" "getp t = getp s" using assms by (simp_all add: getb_def getp_def fun_eq_iff)
  then have b: "is_block d b t = is_block d b s" for b by (simp add: is_block_def fun_eq_iff)
  then have sl: "slot d t = slot d s" unfolding slot_def by simp
  show "cache_inv d t = cache_inv d s" by (simp add: cache_inv_def assms g b)
  show "blk d t = blk d s" "refs d t = refs d s" "busy d t = busy d s"
    by (rule ext, simp add: blk_def refs_def busy_def sl g assms split: option.split)+
  show "hold d t = hold d s" by (intro ext) (simp add: hold_def mypid_def assms g b)
qed

lemma setlog_simps [simp]:
  "bufs (setlog f s) = bufs s" "lru (setlog f s) = lru s" "disk (setlog f s) = disk s" "procs (setlog f s) = procs s"
  "cur (setlog f s) = cur s" "dhist (setlog f s) = dhist s" "klog (setlog f s) = f (klog s)"
  by (simp_all add: setlog_def)

lemma cache_setlog [simp]:
  "cache_inv d (setlog f s) = cache_inv d s" "blk d (setlog f s) = blk d s" "refs d (setlog f s) = refs d s"
  "busy d (setlog f s) = busy d s"
  using cache_cong [of "setlog f s" s d] by simp_all

text \<open>Blocks that nobody has locked, with room for another reference.\<close>

definition quiet :: "u32 \<Rightarrow> 'a kfs_scheme \<Rightarrow> u32 set \<Rightarrow> bool" where
  "quiet d s B \<longleftrightarrow> (\<forall>b\<in>B. \<not> busy d s b \<and> refs d s b < 2 ^ 32 - 1)"

definition in_use :: "u32 \<Rightarrow> 'a kfs_scheme \<Rightarrow> nat" where
  "in_use d s = card {b. refs d s b \<noteq> 0}"

lemma in_use_mono: "(\<And>b. refs d t b \<le> refs d s b) \<Longrightarrow> in_use d t \<le> in_use d s"
  unfolding in_use_def by (intro card_mono Collect_mono impI notI) (simp, metis le_zero_eq)

text \<open>What a step of a loop has done: one write, and the references have not grown.\<close>

definition wrote :: "u32 \<Rightarrow> (u32 \<times> u8 list) list \<Rightarrow> 'a kfs_scheme \<Rightarrow> 'a kfs_scheme \<Rightarrow> bool" where
  "wrote d ws s s' \<longleftrightarrow> cache_inv d s' \<and> klog s' = klog s \<and> blk d s' = play ws (blk d s) \<and> disk s' = play ws (disk s) \<and>
     dhist s' = dhist s @ ws \<and> (\<forall>b. refs d s' b \<le> refs d s b) \<and> busy d s' = busy d s"

lemma wrote_trans:
  assumes "wrote d ws s t" "wrote d vs t u"
  shows "wrote d (ws @ vs) s u"
proof -
  have "refs d u b \<le> refs d s b" for b using assms le_trans unfolding wrote_def by blast
  then show ?thesis using assms by (simp add: wrote_def)
qed

lemma wrote_refl: "cache_inv d s \<Longrightarrow> wrote d [] s s"
  by (simp add: wrote_def)

lemma wrote_quiet: "wrote d ws s t \<Longrightarrow> quiet d s B \<Longrightarrow> quiet d t B"
  unfolding wrote_def quiet_def by (metis le_less_trans)

lemma wrote_in_use: "wrote d ws s t \<Longrightarrow> in_use d t \<le> in_use d s"
  by (rule in_use_mono) (simp add: wrote_def)

lemma room_two:
  assumes "in_use d s + 2 \<le> NBUF \<or> in_use d s < NBUF \<and> refs d s b \<noteq> 0"
  shows "card (insert a (insert b {c. refs d s c \<noteq> 0})) \<le> NBUF"
proof -
  let ?R = "{c. refs d s c \<noteq> 0}"
  have le: "card (insert c X) \<le> Suc (card X)" for c :: u32 and X by (rule card_insert_le_m1) simp_all
  from assms show ?thesis
  proof
    assume "in_use d s + 2 \<le> NBUF"
    then show ?thesis using le [of a "insert b ?R"] le [of b ?R] unfolding in_use_def by linarith
  next
    assume "in_use d s < NBUF \<and> refs d s b \<noteq> 0"
    then have "insert b ?R = ?R" "card ?R < NBUF" by (auto simp: in_use_def)
    then show ?thesis using le [of a ?R] by simp
  qed
qed

lemma copied_wrote:
  assumes "cache_inv d s'" "bio_frame s s'" "blk d s' = (blk d s)(y := v)" "disk s' = (disk s)(y := v)"
    "dhist s' = dhist s @ [(y, v)]" "\<And>b. refs d s' b \<le> refs d s b" "busy d s' = busy d s"
  shows "wrote d [(y, v)] s s'"
  using assms bio_frame_keeps(6) [OF assms(2)] by (simp add: wrote_def)

lemma write_log_one_spec:
  assumes inv: "cache_inv d s" and d: "lg_dev (klog s) = d" and st: "lg_start (klog s) = st"
    and h: "lh_block (lg_lh (klog s)) ! t = h" and ne: "log_block st t \<noteq> h"
    and q: "quiet d s {log_block st t, h}" and room: "in_use d s < NBUF" "refs d s h \<noteq> 0"
  shows "\<exists>s'. write_log_one t s = Some s' \<and> wrote d [(log_block st t, blk d s h)] s s' \<and> refs d s' = refs d s"
proof -
  let ?y = "log_block st t"
  have cd: "card (insert ?y (insert h {c. refs d s c \<noteq> 0})) \<le> NBUF" by (rule room_two) (use room in simp)
  have nb: "\<not> busy d s ?y" "\<not> busy d s h" and lim: "refs d s ?y < 2 ^ 32 - 1" "refs d s h < 2 ^ 32 - 1"
    using q by (simp_all add: quiet_def)
  obtain hy hx s1 s2 where rd: "bread d ?y s = Some (hy, s1)" "bread d h s1 = Some (hx, s2)" "cache_inv d s2"
    "bio_frame s s1" "bio_frame s s2" "hold d s2 hy ?y" "hold d s2 hx h" "blk d s2 = blk d s" "disk s2 = disk s" "dhist s2 = dhist s"
    "refs d s2 = (refs d s)(?y := refs d s ?y + 1, h := refs d s h + 1)" "busy d s2 = (busy d s)(?y := True, h := True)"
    by (rule bc.rd_two [OF inv ne nb cd lim])
  have "1 < refs d s2 h" using rd(11) room ne by simp
  then obtain s' where c: "Option.bind (bwrite hy (set_data hy (\<lambda>_. b_data (getb s2 hx)) s2)) (\<lambda>s. Option.bind (brelse hx s) (brelse hy)) = Some s'"
    "cache_inv d s'" "bio_frame s2 s'" "blk d s' = (blk d s)(?y := blk d s h)" "disk s' = (disk s)(?y := blk d s h)"
    "dhist s' = dhist s @ [(?y, blk d s h)]" "refs d s' = (refs d s2)(h := refs d s2 h - 1, ?y := refs d s2 ?y - 1)"
    "busy d s' = (busy d s2)(h := False, ?y := False)"
    using bc.copy_tail [OF rd(3,7,6) ne [symmetric], of False] rd(8-10) by auto
  have "write_log_one t s = Some s'"
    using rd(1,2) c(1) bio_frame_keeps(6) [OF rd(4)] d st h
    by (simp add: write_log_one_def log_block_def add.commute add.left_commute)
  moreover have "wrote d [(?y, blk d s h)] s s'"
  proof (rule copied_wrote)
    show "bio_frame s s'" using rd(5) c(3) by (rule bio_frame_trans)
    show "refs d s' b \<le> refs d s b" for b using c(7) rd(11) ne by simp
    show "busy d s' = busy d s" using c(8) rd(12) q by (auto simp: fun_eq_iff quiet_def)
  qed (use c in simp_all)
  moreover have "refs d s' = refs d s" using c(7) rd(11) ne by (simp add: fun_eq_iff)
  ultimately show ?thesis by blast
qed

lemma install_one_spec:
  assumes inv: "cache_inv d s" and d: "lg_dev (klog s) = d" and st: "lg_start (klog s) = st"
    and h: "lh_block (lg_lh (klog s)) ! t = h" and ne: "log_block st t \<noteq> h"
    and q: "quiet d s {log_block st t, h}"
    and room: "if rec then in_use d s + 2 \<le> NBUF else in_use d s < NBUF \<and> refs d s h \<noteq> 0"
  shows "\<exists>s'. install_one rec t s = Some s' \<and> wrote d [(h, blk d s (log_block st t))] s s' \<and>
    (\<forall>b. b \<noteq> h \<longrightarrow> refs d s' b = refs d s b)"
proof -
  let ?x = "log_block st t"
  obtain out where out: "kprint (''recovering tail %d dst %d'' @ [CHR 0x0A]) [Reg (of_nat t), Reg (scast h)] s = Some (s\<lparr>conout := out\<rparr>)"
    using recovering_prints by blast
  define s0 where "s0 = (if rec then s\<lparr>conout := out\<rparr> else s)"
  have "bufs s0 = bufs s" "lru s0 = lru s" "disk s0 = disk s" "procs s0 = procs s" "cur s0 = cur s"
    by (simp_all add: s0_def)
  note cc = cache_cong [OF this, of d]
  have k0: "klog s0 = klog s" "disk s0 = disk s" "dhist s0 = dhist s" by (simp_all add: s0_def)
  have inv0: "cache_inv d s0" using inv cc by simp
  have cd: "card (insert ?x (insert h {c. refs d s0 c \<noteq> 0})) \<le> NBUF"
    unfolding cc(3) by (rule room_two) (use room in \<open>auto split: if_splits\<close>)
  have nb: "\<not> busy d s0 ?x" "\<not> busy d s0 h" and lim: "refs d s0 ?x < 2 ^ 32 - 1" "refs d s0 h < 2 ^ 32 - 1"
    using q by (simp_all add: quiet_def cc)
  obtain hx hy s1 s2 where rd: "bread d ?x s0 = Some (hx, s1)" "bread d h s1 = Some (hy, s2)" "cache_inv d s2"
    "bio_frame s0 s1" "bio_frame s0 s2" "hold d s2 hx ?x" "hold d s2 hy h" "blk d s2 = blk d s" "disk s2 = disk s" "dhist s2 = dhist s"
    "refs d s2 = (refs d s)(?x := refs d s ?x + 1, h := refs d s h + 1)" "busy d s2 = (busy d s)(?x := True, h := True)"
    by (rule bc.rd_two [OF inv0 ne nb cd lim]) (simp add: cc k0)
  have cx: "1 < refs d s2 ?x \<or> blk d s2 ?x = disk s2 ?x"
    using rd(8,9,11) ne blk_clean [OF inv, of ?x] by (cases "refs d s ?x = 0") simp_all
  have py: "\<not> rec \<Longrightarrow> 1 < refs d s2 h" using rd(11) room by simp
  obtain s' where c: "Option.bind (bwrite hy (set_data hy (\<lambda>_. b_data (getb s2 hx)) s2))
      (\<lambda>s. Option.bind (brelse hx (if \<not> rec then bunpin hy s else s)) (brelse hy)) = Some s'"
    "cache_inv d s'" "bio_frame s2 s'" "blk d s' = (blk d s)(h := blk d s ?x)" "disk s' = (disk s)(h := blk d s ?x)"
    "dhist s' = dhist s @ [(h, blk d s ?x)]" "refs d s' = (refs d s2)(?x := refs d s2 ?x - 1, h := refs d s2 h - (if \<not> rec then 2 else 1))"
    "busy d s' = (busy d s2)(?x := False, h := False)"
    using bc.copy_tail [OF rd(3,6,7) ne cx py] unfolding rd(8-10) by blast
  have "install_one rec t s = Some s'"
    using rd(1,2) c(1) bio_frame_keeps(6) [OF rd(4)] d st h out k0
    by (auto simp: install_one_def log_block_def s0_def Let_def if_distrib add.commute add.left_commute)
  moreover have "wrote d [(h, blk d s ?x)] s s'"
    using c(2-6) bio_frame_keeps(6) [OF bio_frame_trans [OF rd(5) c(3)]] c(7,8) rd(11,12) ne q k0
    by (auto simp: wrote_def fun_eq_iff quiet_def)
  moreover have "\<forall>b. b \<noteq> h \<longrightarrow> refs d s' b = refs d s b" using c(7) rd(11) ne by simp
  ultimately show ?thesis by blast
qed

lemma write_head_spec:
  assumes inv: "cache_inv d s" and d: "lg_dev (klog s) = d" and st: "lg_start (klog s) = st"
    and n: "lh_n (lg_lh (klog s)) = int n" "n \<le> LOGBLOCKS" and q: "quiet d s {st}" and room: "in_use d s < NBUF"
  shows "\<exists>s'. write_head s = Some s' \<and> wrote d [(st, header (blk d s st) (lh_block (lg_lh (klog s))) n)] s s' \<and> refs d s' = refs d s"
proof -
  let ?ws = "lh_block (lg_lh (klog s))"
  let ?f = "\<lambda>bs. put_blocks (put32 bs 0 (word_of_int (lh_n (lg_lh (klog s))))) ?ws (nat (lh_n (lg_lh (klog s))))"
  have f: "?f bs = header bs ?ws n" for bs by (simp add: n header_def)
  have nb: "\<not> busy d s st" and lim: "refs d s st < 2 ^ 32 - 1" using q by (simp_all add: quiet_def)
  have cd: "refs d s st \<noteq> 0 \<or> card {c. refs d s c \<noteq> 0} < NBUF" using room by (simp add: in_use_def)
  obtain h s1 where 1: "bread d st s = Some (h, s1)" "cache_inv d s1" "bio_frame s s1" "hold d s1 h st" "blk d s1 = blk d s"
    "disk s1 = disk s" "dhist s1 = dhist s" "refs d s1 = (refs d s)(st := refs d s st + 1)" "busy d s1 = (busy d s)(st := True)"
    using bc.rd [OF inv nb cd lim] by blast
  have k1: "klog s1 = klog s" by (rule bio_frame_keeps(6) [OF 1(3)])
  let ?s2 = "set_data h ?f s1"
  have "length (?f (blk d s1 st)) = BSIZE" using n(2) blk_length [OF inv] unfolding f 1(5) by simp
  from bc.upd [OF 1(2,4), of ?f, OF this]
  have 2: "cache_inv d ?s2" "bio_frame s1 ?s2" "hold d ?s2 h st" "blk d ?s2 = (blk d s)(st := ?f (blk d s st))" "disk ?s2 = disk s"
    "dhist ?s2 = dhist s" "refs d ?s2 = refs d s1" "busy d ?s2 = busy d s1"
    using 1(4-7) by auto
  obtain s3 where 3: "bwrite h ?s2 = Some s3" "cache_inv d s3" "bio_frame ?s2 s3" "hold d s3 h st" "blk d s3 = blk d ?s2"
    "disk s3 = (disk s)(st := ?f (blk d s st))" "dhist s3 = dhist s @ [(st, ?f (blk d s st))]" "refs d s3 = refs d s1" "busy d s3 = busy d s1"
    using bc.wr [OF 2(1,3)] 2 by auto
  have "blk d s3 st = disk s3 st" using 3 2 by simp
  then obtain s4 where 4: "brelse h s3 = Some s4" "cache_inv d s4" "bio_frame s3 s4" "blk d s4 = blk d s3" "disk s4 = disk s3"
    "dhist s4 = dhist s3" "refs d s4 = (refs d s3)(st := refs d s3 st - 1)" "busy d s4 = (busy d s3)(st := False)"
    using bc.rel [OF 3(2,4)] by blast
  have "write_head s = Some s4" using 1(1) 3(1) 4(1) k1 d st by (simp add: write_head_def Let_def)
  moreover have r: "refs d s4 = refs d s" using 1(8) 3(8) 4(7) by (simp add: fun_eq_iff)
  moreover have "wrote d [(st, header (blk d s st) ?ws n)] s s4"
  proof (rule copied_wrote)
    show "bio_frame s s4" using 1(3) 2(2) 3(3) 4(3) bio_frame_trans by blast
    show "busy d s4 = busy d s" using 1(9) 3(9) 4(8) nb by (simp add: fun_eq_iff)
  qed (use 2(4) 3(5-7) 4(2,4-6) r in \<open>simp_all add: f\<close>)
  ultimately show ?thesis by blast
qed

text \<open>The log is ready to be written: the blocks \<open>hs\<close> of the transaction are distinct and outside the log.\<close>

definition log_ok :: "u32 \<Rightarrow> u32 \<Rightarrow> u32 list \<Rightarrow> 'a kfs_scheme \<Rightarrow> bool" where
  "log_ok d st hs s \<longleftrightarrow> cache_inv d s \<and> lg_dev (klog s) = d \<and> lg_start (klog s) = st \<and>
     length hs \<le> length (lh_block (lg_lh (klog s))) \<and> take (length hs) (lh_block (lg_lh (klog s))) = hs \<and>
     length hs \<le> LOGBLOCKS \<and> distinct hs \<and> set hs \<inter> log_area st = {} \<and> quiet d s (set hs \<union> log_area st)"

lemma log_ok_wrote:
  assumes "log_ok d st hs s" "wrote d ws s t"
  shows "log_ok d st hs t"
proof -
  have "quiet d t (set hs \<union> log_area st)" using wrote_quiet [OF assms(2)] assms(1) by (simp add: log_ok_def)
  moreover have "cache_inv d t" "klog t = klog s" using assms(2) by (simp_all add: wrote_def)
  ultimately show ?thesis using assms(1) by (simp add: log_ok_def)
qed

lemma log_okD:
  assumes "log_ok d st hs s" "t < length hs"
  shows "lh_block (lg_lh (klog s)) ! t = hs ! t" "log_block st t \<noteq> hs ! t" "quiet d s {log_block st t, hs ! t}"
    "t < LOGBLOCKS" "hs ! t \<notin> log_area st"
proof -
  have t: "t < LOGBLOCKS" "hs ! t \<in> set hs" "set hs \<inter> log_area st = {}" using assms by (auto simp: log_ok_def)
  then show "t < LOGBLOCKS" "hs ! t \<notin> log_area st" by auto
  then show "log_block st t \<noteq> hs ! t" using log_block_area(1) by metis
  show "quiet d s {log_block st t, hs ! t}" using assms(1) t by (auto simp: log_ok_def quiet_def)
  have "take (length hs) (lh_block (lg_lh (klog s))) ! t = hs ! t" using assms by (simp add: log_ok_def)
  then show "lh_block (lg_lh (klog s)) ! t = hs ! t" using assms(2) by simp
qed

lemma write_log_loop:
  assumes "log_ok d st hs s" "in_use d s < NBUF" "\<And>h. h \<in> set hs \<Longrightarrow> refs d s h \<noteq> 0" "set ts \<subseteq> {..<length hs}"
  shows "\<exists>s'. for_each write_log_one ts s = Some s' \<and> wrote d (map (\<lambda>t. (log_block st t, blk d s (hs ! t))) ts) s s' \<and>
    refs d s' = refs d s"
  using assms
proof (induction ts arbitrary: s)
  case (Cons t ts)
  then have t: "t < length hs" by simp
  note D = log_okD [OF Cons.prems(1) t]
  have inv: "cache_inv d s" "lg_dev (klog s) = d" "lg_start (klog s) = st" using Cons.prems(1) by (auto simp: log_ok_def)
  have pin: "refs d s (hs ! t) \<noteq> 0" using Cons.prems(3) t by simp
  obtain s1 where 1: "write_log_one t s = Some s1" "wrote d [(log_block st t, blk d s (hs ! t))] s s1" "refs d s1 = refs d s"
    using write_log_one_spec [OF inv D(1-3) Cons.prems(2) pin] by blast
  have "in_use d s1 < NBUF" using 1(3) Cons.prems(2) by (simp add: in_use_def)
  then obtain s' where 2: "for_each write_log_one ts s1 = Some s'" "refs d s' = refs d s1"
    "wrote d (map (\<lambda>t. (log_block st t, blk d s1 (hs ! t))) ts) s1 s'"
    using Cons.IH [OF log_ok_wrote [OF Cons.prems(1) 1(2)]] Cons.prems(3,4) 1(3) by auto
  have "blk d s1 (hs ! u) = blk d s (hs ! u)" if "u \<in> set ts" for u
    using 1(2) log_okD(5) [OF Cons.prems(1), of u] D(4) that Cons.prems(4) by (auto simp: wrote_def)
  then have eq: "map (\<lambda>t. (log_block st t, blk d s1 (hs ! t))) ts = map (\<lambda>t. (log_block st t, blk d s (hs ! t))) ts" by simp
  show ?case using 1(1,3) 2(1,2) wrote_trans [OF 1(2) 2(3) [unfolded eq]] by simp
qed (simp add: wrote_refl log_ok_def)

lemma install_loop:
  assumes "log_ok d st hs s" "if rec then in_use d s + 2 \<le> NBUF else in_use d s < NBUF \<and> (\<forall>t\<in>set ts. refs d s (hs ! t) \<noteq> 0)"
    "set ts \<subseteq> {..<length hs}" "distinct ts"
  shows "\<exists>s'. for_each (install_one rec) ts s = Some s' \<and> wrote d (map (\<lambda>t. (hs ! t, blk d s (log_block st t))) ts) s s'"
  using assms
proof (induction ts arbitrary: s)
  case (Cons t ts)
  then have t: "t < length hs" by simp
  note D = log_okD [OF Cons.prems(1) t]
  have inv: "cache_inv d s" "lg_dev (klog s) = d" "lg_start (klog s) = st" "distinct hs" using Cons.prems(1) by (auto simp: log_ok_def)
  have room: "if rec then in_use d s + 2 \<le> NBUF else in_use d s < NBUF \<and> refs d s (hs ! t) \<noteq> 0"
    using Cons.prems(2) by (auto split: if_splits)
  obtain s1 where 1: "install_one rec t s = Some s1" "wrote d [(hs ! t, blk d s (log_block st t))] s s1"
    "\<And>b. b \<noteq> hs ! t \<Longrightarrow> refs d s1 b = refs d s b"
    using install_one_spec [OF inv(1-3) D(1-3) room] by blast
  have ne: "hs ! u \<noteq> hs ! t" "u < length hs" if "u \<in> set ts" for u
    using that Cons.prems(3,4) inv(4) by (auto simp: nth_eq_iff_index_eq)
  have "if rec then in_use d s1 + 2 \<le> NBUF else in_use d s1 < NBUF \<and> (\<forall>t\<in>set ts. refs d s1 (hs ! t) \<noteq> 0)"
    using Cons.prems(2) wrote_in_use [OF 1(2)] 1(3) ne by (auto split: if_splits)
  then obtain s' where 2: "for_each (install_one rec) ts s1 = Some s'"
    "wrote d (map (\<lambda>t. (hs ! t, blk d s1 (log_block st t))) ts) s1 s'"
    using Cons.IH [OF log_ok_wrote [OF Cons.prems(1) 1(2)]] Cons.prems(3,4) by auto
  have "blk d s1 (log_block st u) = blk d s (log_block st u)" if "u \<in> set ts" for u
  proof -
    have "log_block st u \<noteq> hs ! t" using log_okD(4) [OF Cons.prems(1) ne(2) [OF that]] D(5) log_block_area(1) by metis
    then show ?thesis using 1(2) by (simp add: wrote_def)
  qed
  then have eq: "map (\<lambda>t. (hs ! t, blk d s1 (log_block st t))) ts = map (\<lambda>t. (hs ! t, blk d s (log_block st t))) ts" by simp
  show ?case using 1(1) 2(1) wrote_trans [OF 1(2) 2(2) [unfolded eq]] by simp
qed (simp add: wrote_refl log_ok_def)

section \<open>Commit and recovery make these writes\<close>

lemma put_blocks_cong: "(\<And>t. t < n \<Longrightarrow> ws ! t = vs ! t) \<Longrightarrow> put_blocks bs ws n = put_blocks bs vs n"
  by (induction n) simp_all

definition commit_writes :: "u32 \<Rightarrow> u32 list \<Rightarrow> blocks \<Rightarrow> (u32 \<times> u8 list) list" where
  "commit_writes st hs B =
     map (\<lambda>t. (log_block st t, B (hs ! t))) [0..<length hs] @ [(st, header (B st) hs (length hs))] @
     map (\<lambda>t. (hs ! t, B (hs ! t))) [0..<length hs] @ [(st, put32 (header (B st) hs (length hs)) 0 0)]"

definition recovery_writes :: "u32 \<Rightarrow> blocks \<Rightarrow> (u32 \<times> u8 list) list" where
  "recovery_writes st D =
     (let n = nat (sint (get32 (D st) 0)); hs = head_blocks (D st) n
      in map (\<lambda>t. (hs ! t, D (log_block st t))) [0..<n] @ [(st, put32 (D st) 0 0)])"

lemma play_log_blocks:
  assumes "n \<le> LOGBLOCKS"
  shows "t < n \<Longrightarrow> play (map (\<lambda>t. (log_block st t, f t)) [0..<n]) D (log_block st t) = f t"
    "b \<notin> log_block st ` {..<LOGBLOCKS} \<Longrightarrow> play (map (\<lambda>t. (log_block st t, f t)) [0..<n]) D b = D b"
proof -
  have "inj_on (log_block st) {0..<n}" using assms log_block_inj(1) by (intro inj_onI) simp
  then have "distinct (map fst (map (\<lambda>t. (log_block st t, f t)) [0..<n]))"
    by (simp add: comp_def distinct_map)
  then show "play (map (\<lambda>t. (log_block st t, f t)) [0..<n]) D (log_block st t) = f t" if "t < n"
    using that by (intro play_distinct) auto
  show "play (map (\<lambda>t. (log_block st t, f t)) [0..<n]) D b = D b" if "b \<notin> log_block st ` {..<LOGBLOCKS}"
    using that assms by (intro play_other) auto
qed

lemma header_cong: "take n ws = vs \<Longrightarrow> n \<le> length ws \<Longrightarrow> header bs ws n = header bs vs n"
  unfolding header_def by (intro put_blocks_cong) (metis nth_take)

lemma header_0: "header bs ws 0 = put32 bs 0 0"
  by (simp add: header_def)

lemma log_block_not_start: "st \<notin> log_block st ` {..<LOGBLOCKS}"
proof
  assume "st \<in> log_block st ` {..<LOGBLOCKS}"
  then obtain t where "t < LOGBLOCKS" "log_block st t = st" by (metis imageE lessThan_iff)
  then show False using log_block_inj(2) by blast
qed

lemma commit_refines:
  assumes ok: "log_ok d st hs s" and n: "lh_n (lg_lh (klog s)) = int (length hs)" "hs \<noteq> []"
    and room: "in_use d s < NBUF" and pin: "\<And>h. h \<in> set hs \<Longrightarrow> refs d s h \<noteq> 0"
  shows "\<exists>s'. commit s = Some s' \<and> cache_inv d s' \<and> disk s' = play (commit_writes st hs (blk d s)) (disk s) \<and>
    dhist s' = dhist s @ commit_writes st hs (blk d s) \<and> lh_n (lg_lh (klog s')) = 0"
proof -
  let ?n = "length hs" and ?B = "blk d s" and ?ws = "lh_block (lg_lh (klog s))"
  define H where "H = header (?B st) hs ?n"
  have n30: "?n \<le> LOGBLOCKS" and tk: "take ?n ?ws = hs" "?n \<le> length ?ws" and dis: "set hs \<inter> log_area st = {}" "distinct hs"
    using ok by (auto simp: log_ok_def)
  have ts: "set [0..<?n] \<subseteq> {..<?n}" by auto
  obtain s1 where 1: "for_each write_log_one [0..<?n] s = Some s1" "refs d s1 = refs d s"
    "wrote d (map (\<lambda>t. (log_block st t, ?B (hs ! t))) [0..<?n]) s s1"
    using write_log_loop [OF ok room pin ts] by auto
  have ok1: "log_ok d st hs s1" by (rule log_ok_wrote [OF ok 1(3)])
  have k1: "klog s1 = klog s" and B1: "blk d s1 = play (map (\<lambda>t. (log_block st t, ?B (hs ! t))) [0..<?n]) ?B"
    using 1(3) by (simp_all add: wrote_def)
  have b1: "blk d s1 st = ?B st" unfolding B1 by (rule play_log_blocks(2) [OF n30 log_block_not_start])
  have l1: "cache_inv d s1" "lg_dev (klog s1) = d" "lg_start (klog s1) = st" "quiet d s1 {st}"
    using ok1 by (auto simp: log_ok_def quiet_def)
  have u1: "in_use d s1 < NBUF" using room 1(2) by (simp add: in_use_def)
  obtain s2 where 2: "write_head s1 = Some s2" "refs d s2 = refs d s1" "wrote d [(st, H)] s1 s2"
    using write_head_spec [OF l1(1-3) _ n30 l1(4) u1] n(1) k1 b1 header_cong [OF tk] by (auto simp: H_def)
  have ok2: "log_ok d st hs s2" and k2: "klog s2 = klog s"
    using log_ok_wrote [OF ok1 2(3)] 2(3) k1 by (simp_all add: wrote_def)
  have "blk d s2 (log_block st t) = ?B (hs ! t)" if "t < ?n" for t
    using 2(3) B1 play_log_blocks(1) [OF n30 that] log_block_inj(2) [of t t st] n30 that by (simp add: wrote_def)
  then have m: "map (\<lambda>t. (hs ! t, blk d s2 (log_block st t))) [0..<?n] = map (\<lambda>t. (hs ! t, ?B (hs ! t))) [0..<?n]" by simp
  have "in_use d s2 < NBUF \<and> (\<forall>t\<in>set [0..<?n]. refs d s2 (hs ! t) \<noteq> 0)"
    using 1(2) 2(2) room pin by (simp add: in_use_def)
  then obtain s3 where 3: "for_each (install_one False) [0..<?n] s2 = Some s3"
    "wrote d (map (\<lambda>t. (hs ! t, ?B (hs ! t))) [0..<?n]) s2 s3"
    using install_loop [OF ok2, of False "[0..<?n]"] ts unfolding m by auto
  have ok3: "log_ok d st hs s3" and k3: "klog s3 = klog s"
    using log_ok_wrote [OF ok2 3(2)] 3(2) k2 by (simp_all add: wrote_def)
  have "st \<notin> set hs" using dis(1) log_block_area(2) by blast
  then have "play (map (\<lambda>t. (hs ! t, ?B (hs ! t))) [0..<?n]) (blk d s2) st = blk d s2 st" by (intro play_other) auto
  then have "blk d s3 st = blk d s2 st" using 3(2) by (simp add: wrote_def)
  then have b3: "blk d s3 st = H" using 2(3) by (simp add: wrote_def)
  let ?c = "clear_n s3"
  have l3: "cache_inv d ?c" "lg_dev (klog ?c) = d" "lg_start (klog ?c) = st" "lh_n (lg_lh (klog ?c)) = int 0" "quiet d ?c {st}"
    using ok3 by (auto simp: log_ok_def quiet_def clear_n_def)
  have "in_use d ?c < NBUF"
    using wrote_in_use [OF 3(2)] 1(2) 2(2) room by (simp add: in_use_def clear_n_def)
  from write_head_spec [OF l3(1-4) _ l3(5) this]
  obtain s4 where 4: "write_head ?c = Some s4" "wrote d [(st, put32 H 0 0)] ?c s4"
    using b3 by (auto simp: header_0 clear_n_def)
  have "commit s = Some s4"
    using n 1(1) 2(1) 3(1) 4(1) k1 k2 by (simp add: commit_def write_log_def install_trans_def)
  moreover have "disk s4 = play (commit_writes st hs ?B) (disk s)" "dhist s4 = dhist s @ commit_writes st hs ?B"
    using 1(3) 2(3) 3(2) 4(2) by (simp_all add: wrote_def commit_writes_def H_def clear_n_def)
  moreover have "cache_inv d s4" "lh_n (lg_lh (klog s4)) = 0" using 4(2) by (simp_all add: wrote_def clear_n_def)
  ultimately show ?thesis by blast
qed

definition log_disk_ok :: "u32 \<Rightarrow> blocks \<Rightarrow> bool" where
  "log_disk_ok st D \<longleftrightarrow>
     (let n = sint (get32 (D st) 0); hs = head_blocks (D st) (nat n)
      in 0 \<le> n \<and> n \<le> int LOGBLOCKS \<and> distinct hs \<and> set hs \<inter> log_area st = {})"

text \<open>The state in which \<open>initlog\<close> is called at boot: no buffer is in use.\<close>

definition fresh_cache :: "u32 \<Rightarrow> 'a kfs_scheme \<Rightarrow> bool" where
  "fresh_cache d s \<longleftrightarrow> cache_inv d s \<and> refs d s = (\<lambda>_. 0) \<and> length (lh_block (lg_lh (klog s))) = LOGBLOCKS"

lemma read_head_spec:
  assumes inv: "cache_inv d s" and q: "quiet d s {st}" and room: "in_use d s < NBUF"
    and l: "lg_dev (klog s) = d" "lg_start (klog s) = st" and n: "sint (get32 (blk d s st) 0) = int n" "n \<le> LOGBLOCKS"
  obtains s' where "read_head s = Some s'" "cache_inv d s'" "blk d s' = blk d s" "disk s' = disk s" "dhist s' = dhist s"
    "refs d s' = refs d s" "busy d s' = busy d s"
    "klog s' = (klog s)\<lparr>lg_lh := \<lparr>lh_n = int n, lh_block = head_blocks (blk d s st) n @ drop n (lh_block (lg_lh (klog s)))\<rparr>\<rparr>"
proof -
  have nb: "\<not> busy d s st" and lim: "refs d s st < 2 ^ 32 - 1" using q by (simp_all add: quiet_def)
  have cd: "refs d s st \<noteq> 0 \<or> card {c. refs d s c \<noteq> 0} < NBUF" using room by (simp add: in_use_def)
  obtain h s1 where 1: "bread d st s = Some (h, s1)" "cache_inv d s1" "bio_frame s s1" "hold d s1 h st" "blk d s1 = blk d s"
    "disk s1 = disk s" "dhist s1 = dhist s" "refs d s1 = (refs d s)(st := refs d s st + 1)" "busy d s1 = (busy d s)(st := True)"
    using bc.rd [OF inv nb cd lim] by blast
  have k1: "klog s1 = klog s" by (rule bio_frame_keeps(6) [OF 1(3)])
  have dt: "b_data (getb s1 h) = blk d s st" using bc.holdD [OF 1(2,4)] 1(5) by simp
  let ?lh = "\<lparr>lh_n = int n, lh_block = head_blocks (blk d s st) n @ drop n (lh_block (lg_lh (klog s)))\<rparr>"
  let ?s = "setlog (\<lambda>l. l\<lparr>lg_lh := ?lh\<rparr>) s1"
  have inv2: "cache_inv d ?s" "hold d ?s h st" using 1(2,4) cache_cong(5) [of ?s s1 d] by simp_all
  have "1 < refs d ?s st \<or> blk d ?s st = disk ?s st" using 1(5,6,8) blk_clean [OF inv, of st] by auto
  then obtain s' where 2: "brelse h ?s = Some s'" "cache_inv d s'" "bio_frame ?s s'" "blk d s' = blk d s1" "disk s' = disk s1"
    "dhist s' = dhist s1" "refs d s' = (refs d s1)(st := refs d s1 st - 1)" "busy d s' = (busy d s1)(st := False)"
    using bc.rel [OF inv2] by auto
  have "read_head s = Some s'"
    using 1(1) 2(1) k1 dt l n by (simp add: read_head_def Let_def)
  moreover have "klog s' = (klog s)\<lparr>lg_lh := ?lh\<rparr>" using bio_frame_keeps(6) [OF 2(3)] k1 by simp
  moreover have "refs d s' = refs d s" "busy d s' = busy d s" using 1(8,9) 2(7,8) nb by (simp_all add: fun_eq_iff)
  ultimately show thesis using that [of s'] 1 2 by simp
qed

lemma recover_refines:
  assumes fr: "fresh_cache d s" and ok: "log_disk_ok st (disk s)" and sb: "sb_logstart sblk = st"
  shows "\<exists>s'. initlog d sblk s = Some s' \<and> cache_inv d s' \<and> disk s' = play (recovery_writes st (disk s)) (disk s) \<and>
    dhist s' = dhist s @ recovery_writes st (disk s)"
proof -
  let ?D = "disk s" and ?s = "setlog (\<lambda>l. l\<lparr>lg_start := st, lg_dev := d\<rparr>) s"
  define n where "n = nat (sint (get32 (?D st) 0))"
  define hs where "hs = head_blocks (?D st) n"
  have inv: "cache_inv d s" and r0: "refs d s = (\<lambda>_. 0)" using fr by (simp_all add: fresh_cache_def)
  have n: "sint (get32 (?D st) 0) = int n" "n \<le> LOGBLOCKS" and hs: "distinct hs" "set hs \<inter> log_area st = {}" "length hs = n"
    using ok by (auto simp: log_disk_ok_def n_def hs_def Let_def)
  have BD: "blk d s = ?D" using blk_clean [OF inv] r0 by (simp add: fun_eq_iff)
  have q: "quiet d s B" for B using busy_refs [OF inv] r0 by (auto simp: quiet_def)
  have u0: "in_use d s = 0" using r0 by (simp add: in_use_def)
  obtain s1 where 1: "read_head ?s = Some s1" "cache_inv d s1" "blk d s1 = ?D" "disk s1 = ?D" "dhist s1 = dhist s"
    "refs d s1 = (\<lambda>_. 0)" "busy d s1 = busy d s"
    "klog s1 = (klog ?s)\<lparr>lg_lh := \<lparr>lh_n = int n, lh_block = hs @ drop n (lh_block (lg_lh (klog s)))\<rparr>\<rparr>"
    by (rule read_head_spec [of d ?s st n]) (use inv q [of "{st}"] u0 n BD r0 in \<open>simp_all add: quiet_def in_use_def hs_def\<close>)
  have ok1: "log_ok d st hs s1"
    using 1(2,6-8) hs n q [of "set hs \<union> log_area st"] by (simp add: log_ok_def quiet_def)
  have u1: "in_use d s1 = 0" using 1(6) by (simp add: in_use_def)
  then obtain s2 where 2: "for_each (install_one True) [0..<n] s1 = Some s2"
    "wrote d (map (\<lambda>t. (hs ! t, ?D (log_block st t))) [0..<n]) s1 s2"
    using install_loop [OF ok1, of True "[0..<n]"] hs(3) 1(3) by (auto simp: atLeast0LessThan)
  have ok2: "log_ok d st hs s2" and k2: "klog s2 = klog s1" using log_ok_wrote [OF ok1 2(2)] 2(2) by (simp_all add: wrote_def)
  have "st \<notin> set hs" using hs(2) log_block_area(2) by blast
  then have "play (map (\<lambda>t. (hs ! t, ?D (log_block st t))) [0..<n]) ?D st = ?D st"
    using hs(3) by (intro play_other) auto
  then have b2: "blk d s2 st = ?D st" using 2(2) 1(3) by (simp add: wrote_def)
  let ?c = "clear_n s2"
  have l2: "cache_inv d ?c" "lg_dev (klog ?c) = d" "lg_start (klog ?c) = st" "lh_n (lg_lh (klog ?c)) = int 0" "quiet d ?c {st}"
    using ok2 by (auto simp: log_ok_def quiet_def clear_n_def)
  have "in_use d ?c < NBUF" using wrote_in_use [OF 2(2)] u1 by (simp add: in_use_def clear_n_def)
  from write_head_spec [OF l2(1-4) _ l2(5) this]
  obtain s3 where 3: "write_head ?c = Some s3" "wrote d [(st, put32 (?D st) 0 0)] ?c s3"
    using b2 by (auto simp: header_0 clear_n_def)
  have "initlog d sblk s = Some s3"
    using 1(1,8) 2(1) 3(1) sb by (simp add: initlog_def recover_from_log_def install_trans_def)
  moreover have "recovery_writes st ?D = map (\<lambda>t. (hs ! t, ?D (log_block st t))) [0..<n] @ [(st, put32 (?D st) 0 0)]"
    by (simp add: recovery_writes_def Let_def n_def hs_def)
  ultimately show ?thesis using 1(4,5) 2(2) 3(2) by (simp add: wrote_def clear_n_def)
qed

section \<open>Crashes\<close>

text \<open>The disk between transactions, with contents \<open>E\<close> outside the log; and the disk of a committed
  transaction that writes \<open>B h\<close> to each block \<open>h\<close> of \<open>hs\<close>, over old contents \<open>E\<close>.\<close>

definition idle :: "u32 \<Rightarrow> blocks \<Rightarrow> blocks \<Rightarrow> bool" where
  "idle st E D \<longleftrightarrow> length (D st) = BSIZE \<and> get32 (D st) 0 = 0 \<and> (\<forall>b. b \<notin> log_area st \<longrightarrow> D b = E b)"

definition armed :: "u32 \<Rightarrow> u32 list \<Rightarrow> blocks \<Rightarrow> blocks \<Rightarrow> blocks \<Rightarrow> bool" where
  "armed st hs B E D \<longleftrightarrow> D st = header (B st) hs (length hs) \<and>
     (\<forall>t<length hs. D (log_block st t) = B (hs ! t)) \<and> (\<forall>b. b \<notin> log_area st \<union> set hs \<longrightarrow> D b = E b)"

definition updated :: "u32 list \<Rightarrow> blocks \<Rightarrow> blocks \<Rightarrow> blocks" where
  "updated hs B E b = (if b \<in> set hs then B b else E b)"

definition trans_ok :: "u32 \<Rightarrow> u32 list \<Rightarrow> blocks \<Rightarrow> bool" where
  "trans_ok st hs B \<longleftrightarrow> length hs \<le> LOGBLOCKS \<and> distinct hs \<and> set hs \<inter> log_area st = {} \<and> length (B st) = BSIZE"

definition home_writes :: "u32 list \<Rightarrow> blocks \<Rightarrow> (u32 \<times> u8 list) list" where
  "home_writes hs B = map (\<lambda>t. (hs ! t, B (hs ! t))) [0..<length hs]"

lemma set_home_writes: "set (home_writes hs B) = (\<lambda>h. (h, B h)) ` set hs"
proof -
  have "home_writes hs B = map (\<lambda>h. (h, B h)) hs" by (rule nth_equalityI) (simp_all add: home_writes_def)
  then show ?thesis by simp
qed

lemma play_take_home:
  assumes "b \<notin> set hs"
  shows "play (take j (home_writes hs B)) D b = D b"
proof (rule play_other)
  have "set (take j (home_writes hs B)) \<subseteq> set (home_writes hs B)" by (rule set_take_subset)
  then show "b \<notin> fst ` set (take j (home_writes hs B))" using assms by (auto simp: set_home_writes)
qed

lemma play_home:
  assumes "distinct hs" "h \<in> set hs"
  shows "play (home_writes hs B) D h = B h"
proof (rule play_distinct)
  have "map fst (home_writes hs B) = hs" by (simp add: home_writes_def comp_def map_nth)
  then show "distinct (map fst (home_writes hs B))" using assms by simp
  show "(h, B h) \<in> set (home_writes hs B)" using assms by (simp add: set_home_writes)
qed

lemma armed_install:
  assumes ok: "trans_ok st hs B" and a: "armed st hs B E D"
  shows "armed st hs B E (play (take j (home_writes hs B)) D)"
    "idle st (updated hs B E) ((play (home_writes hs B) D)(st := put32 (header (B st) hs (length hs)) 0 0))"
proof -
  have nl: "b \<notin> set hs" if "b \<in> log_area st" for b
    using ok that by (auto simp: trans_ok_def)
  have l: "length hs \<le> LOGBLOCKS" "length (B st) = BSIZE" "distinct hs" using ok by (auto simp: trans_ok_def)
  have "log_block st t \<in> log_area st" if "t < length hs" for t using that l(1) by simp
  then have keep: "play (take j (home_writes hs B)) D (log_block st t) = D (log_block st t)" if "t < length hs" for t j
    using that nl by (intro play_take_home) blast
  have "play (take j (home_writes hs B)) D st = D st" by (rule play_take_home) (rule nl [OF log_block_area(2)])
  then show "armed st hs B E (play (take j (home_writes hs B)) D)"
    using a keep play_take_home [of _ hs j B D] by (simp add: armed_def)
  let ?H = "header (B st) hs (length hs)" and ?D = "play (home_writes hs B) D"
  have "?D b = updated hs B E b" if "b \<notin> log_area st" for b
    using that a play_home [OF l(3), of b B D] play_take_home [of b hs "length (home_writes hs B)" B D]
    by (cases "b \<in> set hs") (simp_all add: updated_def armed_def)
  moreover have "length ?H = BSIZE" using l by simp
  ultimately show "idle st (updated hs B E) (?D(st := put32 ?H 0 0))"
    using log_block_area(2) by (auto simp: idle_def get32_put32)
qed

lemma recovery_idle: "idle st E D \<Longrightarrow> recovery_writes st D = [(st, put32 (D st) 0 0)]"
  by (simp add: recovery_writes_def idle_def)

lemma recovery_armed:
  assumes ok: "trans_ok st hs B" and a: "armed st hs B E D"
  shows "recovery_writes st D = home_writes hs B @ [(st, put32 (header (B st) hs (length hs)) 0 0)]"
proof -
  have l: "length hs \<le> LOGBLOCKS" "length (B st) = BSIZE" using ok by (auto simp: trans_ok_def)
  have D: "D st = header (B st) hs (length hs)" "\<And>t. t < length hs \<Longrightarrow> D (log_block st t) = B (hs ! t)"
    using a by (simp_all add: armed_def)
  have "nat (sint (get32 (D st) 0)) = length hs" using D(1) header_n [OF l(2,1)] sint_small [OF l(1)] by simp
  moreover have "head_blocks (D st) (length hs) = hs" using D(1) header_blocks [OF l(2,1), of hs] by simp
  ultimately show ?thesis using D by (simp add: recovery_writes_def home_writes_def Let_def)
qed

lemma idle_clear: "idle st E D \<Longrightarrow> idle st E (D(st := put32 (D st) 0 0))"
  using log_block_area(2) by (auto simp: idle_def get32_put32)

text \<open>Disks a crash can leave: after some of the writes of the commit, and then after some of the writes
  of any number of recoveries. The flag tells whether the header had been written.\<close>

inductive crashed :: "u32 \<Rightarrow> u32 list \<Rightarrow> blocks \<Rightarrow> blocks \<Rightarrow> bool \<Rightarrow> blocks \<Rightarrow> bool" for st hs B E where
  crash_commit: "crashed st hs B E (length hs < k) (play (take k (commit_writes st hs B)) E)"
| crash_recovery: "crashed st hs B E c D \<Longrightarrow> crashed st hs B E c (play (take j (recovery_writes st D)) D)"

lemma commit_prefix:
  assumes ok: "trans_ok st hs B" and E: "idle st E E"
  shows "if length hs < k then armed st hs B E (play (take k (commit_writes st hs B)) E) \<or>
      idle st (updated hs B E) (play (take k (commit_writes st hs B)) E)
    else idle st E (play (take k (commit_writes st hs B)) E)"
proof -
  let ?n = "length hs" and ?H = "header (B st) hs (length hs)"
  let ?L = "map (\<lambda>t. (log_block st t, B (hs ! t))) [0..<?n]"
  have n: "?n \<le> LOGBLOCKS" using ok by (simp add: trans_ok_def)
  have w: "commit_writes st hs B = ?L @ (st, ?H) # home_writes hs B @ [(st, put32 ?H 0 0)]"
    by (simp add: commit_writes_def home_writes_def)
  show ?thesis
  proof (cases "?n < k")
    case False
    have sub: "set (take k ?L) \<subseteq> set ?L" by (rule set_take_subset)
    have in_log: "fst ` set ?L \<subseteq> log_block st ` {..<LOGBLOCKS}" using n by auto
    have "b \<notin> fst ` set (take k ?L)" if "b \<notin> log_area st \<or> b = st" for b
    proof -
      have "b \<notin> log_block st ` {..<LOGBLOCKS}" using that log_block_not_start [of st] unfolding log_area_def by (metis insertI2)
      then show ?thesis using image_mono [OF sub, of fst] in_log by blast
    qed
    then have "play (take k ?L) E b = E b" if "b \<notin> log_area st \<or> b = st" for b using that by (intro play_other) blast
    then have "idle st E (play (take k ?L) E)" using E by (simp add: idle_def)
    then show ?thesis using False by (simp add: w)
  next
    case True
    let ?D = "(play ?L E)(st := ?H)"
    have "armed st hs B E ?D"
      unfolding armed_def
    proof (intro conjI allI impI)
      fix t assume t: "t < ?n"
      then have "log_block st t \<noteq> st" using log_block_inj(2) [of t t st] n by simp
      then show "?D (log_block st t) = B (hs ! t)" using play_log_blocks(1) [OF n t] by simp
    next
      fix b assume "b \<notin> log_area st \<union> set hs"
      then have "b \<noteq> st" "b \<notin> log_block st ` {..<LOGBLOCKS}" by (auto simp: log_area_def)
      then show "?D b = E b" using play_log_blocks(2) [OF n] by simp
    qed simp
    note ar = armed_install [OF ok this]
    obtain j where j: "k = Suc (?n + j)" using True less_iff_Suc_add by auto
    have "take k (commit_writes st hs B) = ?L @ (st, ?H) # take j (home_writes hs B @ [(st, put32 ?H 0 0)])"
      by (simp add: w j)
    then have p: "play (take k (commit_writes st hs B)) E = play (take j (home_writes hs B @ [(st, put32 ?H 0 0)])) ?D" by simp
    show ?thesis
    proof (cases "j \<le> length (home_writes hs B)")
      case True
      then show ?thesis using ar(1) [of j] p \<open>?n < k\<close> by simp
    next
      case False
      then show ?thesis using ar(2) p \<open>?n < k\<close> by simp
    qed
  qed
qed

lemma recovery_prefix:
  assumes ok: "trans_ok st hs B"
  shows "armed st hs B E D \<Longrightarrow> armed st hs B E (play (take j (recovery_writes st D)) D) \<or>
      idle st (updated hs B E) (play (take j (recovery_writes st D)) D)"
    "idle st F D \<Longrightarrow> idle st F (play (take j (recovery_writes st D)) D)"
proof -
  show "armed st hs B E (play (take j (recovery_writes st D)) D) \<or>
      idle st (updated hs B E) (play (take j (recovery_writes st D)) D)" if a: "armed st hs B E D"
    using recovery_armed [OF ok a] armed_install [OF ok a] by (cases "j \<le> length (home_writes hs B)") simp_all
  show "idle st F (play (take j (recovery_writes st D)) D)" if "idle st F D"
    using that idle_clear by (cases j) (simp_all add: recovery_idle)
qed

lemma crashed_inv:
  assumes ok: "trans_ok st hs B" and E: "idle st E E" and c: "crashed st hs B E c D"
  shows "if c then armed st hs B E D \<or> idle st (updated hs B E) D else idle st E D"
  using c
proof induction
  case (crash_commit k)
  show ?case using commit_prefix [OF ok E, of k] by simp
next
  case (crash_recovery c D j)
  then show ?case using recovery_prefix [OF ok, of _ D j] by (auto split: if_splits)
qed

lemma crashed_recovers:
  assumes ok: "trans_ok st hs B" and E: "idle st E E" and c: "crashed st hs B E c D"
  shows "log_disk_ok st D" "idle st (if c then updated hs B E else E) (play (recovery_writes st D) D)"
proof -
  note i = crashed_inv [OF ok E c]
  have l: "length hs \<le> LOGBLOCKS" "length (B st) = BSIZE" "distinct hs" "set hs \<inter> log_area st = {}"
    using ok by (auto simp: trans_ok_def)
  have ai: "log_disk_ok st D \<and> idle st (updated hs B E) (play (recovery_writes st D) D)" if a: "armed st hs B E D"
  proof -
    have "D st = header (B st) hs (length hs)" using a by (simp add: armed_def)
    then have "sint (get32 (D st) 0) = int (length hs)" "head_blocks (D st) (length hs) = hs"
      using header_n [OF l(2,1)] sint_small [OF l(1)] header_blocks [OF l(2,1), of hs] by simp_all
    then have "log_disk_ok st D" using l by (simp add: log_disk_ok_def)
    then show ?thesis using recovery_armed [OF ok a] armed_install(2) [OF ok a] by simp
  qed
  have ii: "log_disk_ok st D \<and> idle st F (play (recovery_writes st D) D)" if "idle st F D" for F
    using that idle_clear [OF that] by (simp add: recovery_idle log_disk_ok_def) (simp add: idle_def)
  show "log_disk_ok st D" "idle st (if c then updated hs B E else E) (play (recovery_writes st D) D)"
    using i ai ii by (auto split: if_splits)
qed

text \<open>The same disks, generated by the code: the machine stops after some of the writes that \<open>commit\<close> makes, and
  then after some of the writes that \<open>initlog\<close> makes when it is started on the disk that was left.\<close>

inductive crash_disk :: "u32 \<Rightarrow> superblock \<Rightarrow> u32 list \<Rightarrow> 'a kfs_scheme \<Rightarrow> bool \<Rightarrow> blocks \<Rightarrow> bool"
  for d sblk hs and s :: "'a kfs_scheme" where
  stop_commit: "commit s = Some s' \<Longrightarrow> dhist s' = dhist s @ ws \<Longrightarrow> crash_disk d sblk hs s (length hs < k) (play (take k ws) (disk s))"
| stop_recovery: "crash_disk d sblk hs s c (disk (b :: 'a kfs_scheme)) \<Longrightarrow> fresh_cache d b \<Longrightarrow> initlog d sblk b = Some b' \<Longrightarrow> dhist b' = dhist b @ ws \<Longrightarrow>
    crash_disk d sblk hs s c (play (take k ws) (disk b))"

lemma crash_disk_crashed:
  assumes ok: "log_ok d st hs s" and n: "lh_n (lg_lh (klog s)) = int (length hs)" "hs \<noteq> []"
    and room: "in_use d s < NBUF" and pin: "\<And>h. h \<in> set hs \<Longrightarrow> refs d s h \<noteq> 0"
    and tr: "trans_ok st hs (blk d s)" "idle st (disk s) (disk s)" and sb: "sb_logstart sblk = st"
    and D: "crash_disk d sblk hs s c D"
  shows "crashed st hs (blk d s) (disk s) c D"
  using D
proof induction
  case (stop_commit s' ws k)
  then have "ws = commit_writes st hs (blk d s)" using commit_refines [OF ok n room pin] by auto
  then show ?case using crash_commit by simp
next
  case (stop_recovery c b b' ws k)
  have "log_disk_ok st (disk b)" by (rule crashed_recovers(1) [OF tr stop_recovery.IH])
  then have "ws = recovery_writes st (disk b)"
    using recover_refines [OF stop_recovery.hyps(2) _ sb] stop_recovery.hyps(3,4) by auto
  then show ?case using crash_recovery [OF stop_recovery.IH] by simp
qed

section \<open>Sample states\<close>

lemma play_length: "(\<And>b. length (D b) = n) \<Longrightarrow> (\<And>w. w \<in> set ws \<Longrightarrow> length (snd w) = n) \<Longrightarrow> length (play ws D b) = n"
  by (induction ws arbitrary: D) auto

lemma demo_fresh:
  assumes "\<And>b. length (D b) = BSIZE"
  shows "fresh_cache 1 (demo_kfs\<lparr>disk := D\<rparr>)"
  using demo_cache(1,3) [OF assms] by (simp add: fresh_cache_def) (simp add: demo_kfs_def)

text \<open>Block 100 is logged: it is in buffer 0, pinned, with new contents.\<close>

definition demo_logged :: kfs where
  "demo_logged = demo_kfs\<lparr>
     bufs := (bufs demo_kfs)[0 := \<lparr>b_valid = True, b_dev = 1, b_blockno = 100, b_lock = initsleeplock, b_refcnt = 1,
       b_data = replicate BSIZE 7\<rparr>],
     klog := (klog demo_kfs)\<lparr>lg_lh := \<lparr>lh_n = 1, lh_block = 100 # replicate 29 0\<rparr>\<rparr>\<rparr>"

lemma demo_logged_buf:
  "i < NBUF \<Longrightarrow> getb demo_logged i =
     (if i = 0 then \<lparr>b_valid = True, b_dev = 1, b_blockno = 100, b_lock = initsleeplock, b_refcnt = 1, b_data = replicate BSIZE 7\<rparr>
      else \<lparr>b_valid = False, b_dev = 0, b_blockno = 0, b_lock = initsleeplock, b_refcnt = 0, b_data = replicate BSIZE 0\<rparr>)"
  by (simp add: demo_logged_def demo_kfs_def getb_def nth_list_update)

lemma demo_logged_inv: "cache_inv 1 demo_logged"
proof -
  have b: "is_block 1 b demo_logged i \<longleftrightarrow> i = 0 \<and> b = 100" if "i < NBUF" for b i
    using that by (auto simp: is_block_def demo_logged_buf)
  have "buf_ok 1 (disk demo_logged) (getb demo_logged i)" if "i < NBUF" for i
    using that by (simp add: demo_logged_buf buf_ok_def initsleeplock_def)
  then show ?thesis
    unfolding cache_inv_def using b by (simp add: demo_logged_def demo_kfs_def lessThan_atLeast0)
qed

lemma demo_logged_views:
  "slot 1 demo_logged b = (if b = 100 then Some 0 else None)"
  "refs 1 demo_logged b = (if b = 100 then 1 else 0)" "\<not> busy 1 demo_logged b"
  "in_use 1 demo_logged = 1"
proof -
  have sl: "slot 1 demo_logged b = (if b = 100 then Some 0 else None)" for b
    using slot_Some [OF demo_logged_inv, of b 0] slot_None [of 1 demo_logged b]
    by (auto simp: is_block_def demo_logged_buf)
  then show "slot 1 demo_logged b = (if b = 100 then Some 0 else None)" .
  show r: "refs 1 demo_logged b = (if b = 100 then 1 else 0)" for b by (simp add: refs_def sl demo_logged_buf)
  show "\<not> busy 1 demo_logged b" by (simp add: busy_def sl demo_logged_buf initsleeplock_def)
  have "{b. refs 1 demo_logged b \<noteq> 0} = {100}" by (auto simp: r)
  then show "in_use 1 demo_logged = 1" by (simp add: in_use_def)
qed

lemma demo_logged_ok: "log_ok 1 2 [100] demo_logged"
proof -
  have "unat b \<le> 32" if "b \<in> log_area 2" for b :: u32
  proof -
    have "b = 2 \<or> (\<exists>t<LOGBLOCKS. b = of_nat (t + 3))" using that by (auto simp: log_area_def log_block_def algebra_simps)
    then show ?thesis
    proof
      assume "\<exists>t<LOGBLOCKS. b = of_nat (t + 3)"
      then obtain t where "t < LOGBLOCKS" "b = of_nat (t + 3)" by blast
      moreover then have "unat b = t + 3" by (simp only: unat_of_nat) simp
      ultimately show ?thesis by simp
    qed simp
  qed
  from this [of 100] have "100 \<notin> log_area 2" by auto
  then show ?thesis
    using demo_logged_inv demo_logged_views by (simp add: log_ok_def quiet_def demo_logged_def demo_kfs_def)
qed

section \<open>Space in the log\<close>

lemma bread_klog: "bread d b s = Some (i, s') \<Longrightarrow> klog s' = klog s"
  by (auto simp: bread_def bget_def lock_buf_def disk_rw_def Let_def split: option.splits bind_splits if_splits)

lemma bwrite_klog: "bwrite i s = Some s' \<Longrightarrow> klog s' = klog s"
  by (auto simp: bwrite_def disk_rw_def Let_def split: bind_splits if_splits)

lemma brelse_klog: "brelse i s = Some s' \<Longrightarrow> klog s' = klog s"
  by (auto simp: brelse_def releasesleep_def Let_def split: bind_splits if_splits)

lemmas bio_klog = bread_klog bwrite_klog brelse_klog

lemma klog_set_data [simp]: "klog (set_data i f s) = klog s"
  by (simp add: set_data_def)

lemma klog_bunpin [simp]: "klog (bunpin i s) = klog s"
  by (simp add: bunpin_def)

lemma kprint_klog: "kprint f a s = Some s' \<Longrightarrow> klog s' = klog s"
  by (auto simp: kprint_def)

lemma write_head_klog: "write_head s = Some s' \<Longrightarrow> klog s' = klog s"
  by (auto simp: write_head_def Let_def dest!: bio_klog split: bind_splits)

lemma write_log_one_klog: "write_log_one t s = Some s' \<Longrightarrow> klog s' = klog s"
  by (auto simp: write_log_one_def Let_def dest!: bio_klog split: bind_splits)

lemma install_one_klog: "install_one rec t s = Some s' \<Longrightarrow> klog s' = klog s"
  by (auto simp: install_one_def Let_def dest!: bio_klog kprint_klog split: bind_splits if_splits)

lemma for_each_klog: "(\<And>t s s'. f t s = Some s' \<Longrightarrow> klog s' = klog s) \<Longrightarrow> for_each f ts s = Some s' \<Longrightarrow> klog s' = klog s"
proof (induction ts arbitrary: s)
  case (Cons t ts)
  then show ?case by (fastforce split: bind_splits)
qed simp

lemma write_log_klog: "write_log s = Some s' \<Longrightarrow> klog s' = klog s"
  unfolding write_log_def by (erule for_each_klog [rotated]) (rule write_log_one_klog)

lemma install_trans_klog: "install_trans rec s = Some s' \<Longrightarrow> klog s' = klog s"
  unfolding install_trans_def by (erule for_each_klog [rotated]) (rule install_one_klog)

lemma commit_klog:
  assumes "commit s = Some s'"
  shows "klog s' = (if 0 < lh_n (lg_lh (klog s)) then (klog s)\<lparr>lg_lh := (lg_lh (klog s))\<lparr>lh_n := 0\<rparr>\<rparr> else klog s)"
  using assms
  by (auto simp: commit_def clear_n_def split: if_splits bind_splits
      dest!: write_head_klog write_log_klog install_trans_klog)

text \<open>States of the log in a run in which every operation between \<open>begin_op\<close> and \<open>end_op\<close> keeps to its
  budget of \<open>MAXOPBLOCKS\<close> calls of \<open>log_write\<close>. The list holds what is left of the budgets of the
  operations in progress. Steps of the rest of the kernel leave the log alone.\<close>

inductive log_run :: "'a kfs_scheme \<Rightarrow> nat list \<Rightarrow> bool" where
  log_run_start: "lh_n (lg_lh (klog s)) = 0 \<Longrightarrow> lg_outstanding (klog s) = 0 \<Longrightarrow> \<not> lg_committing (klog s) \<Longrightarrow> log_run s []"
| log_run_other: "log_run s bs \<Longrightarrow> klog s' = klog s \<Longrightarrow> log_run s' bs"
| log_run_begin: "log_run s bs \<Longrightarrow> begin_op s = Some s' \<Longrightarrow> log_run s' (nat MAXOPBLOCKS # bs)"
| log_run_write: "log_run s (as @ Suc b # cs) \<Longrightarrow> log_write i s = Some s' \<Longrightarrow> log_run s' (as @ b # cs)"
| log_run_end: "log_run s (as @ b # cs) \<Longrightarrow> end_op s = Some s' \<Longrightarrow> log_run s' (as @ cs)"

definition log_space :: "log \<Rightarrow> nat list \<Rightarrow> bool" where
  "log_space l bs \<longleftrightarrow> \<not> lg_committing l \<and> lg_outstanding l = int (length bs) \<and> (\<forall>b\<in>set bs. b \<le> nat MAXOPBLOCKS) \<and>
     0 \<le> lh_n (lg_lh l) \<and> lh_n (lg_lh l) + int (sum_list bs) \<le> int LOGBLOCKS"

lemma sum_budget: "(\<forall>b\<in>set bs. b \<le> k) \<Longrightarrow> sum_list bs \<le> k * length bs"
  by (induction bs) auto

lemma log_write_klog:
  assumes "log_write i s = Some s'"
  shows "lg_committing (klog s') = lg_committing (klog s)" "lg_outstanding (klog s') = lg_outstanding (klog s)"
    "lh_n (lg_lh (klog s')) = lh_n (lg_lh (klog s)) \<or> lh_n (lg_lh (klog s')) = lh_n (lg_lh (klog s)) + 1"
  using assms by (auto simp: log_write_def Let_def bpin_def split: if_splits)

lemma log_run_space: "log_run s bs \<Longrightarrow> log_space (klog s) bs"
proof (induction rule: log_run.induct)
  case (log_run_begin s bs s')
  have "sum_list bs \<le> 10 * length bs" using log_run_begin.IH sum_budget by (auto simp: log_space_def)
  then show ?case
    using log_run_begin by (auto simp: begin_op_def can_begin_def log_space_def split: if_splits)
next
  case (log_run_write s as b cs i s')
  then show ?case using log_write_klog [OF log_run_write.hyps(2)] by (auto simp: log_space_def)
next
  case (log_run_end s as b cs s')
  then show ?case
    by (auto simp: end_op_def log_space_def Let_def split: if_splits bind_splits dest!: commit_klog)
qed (auto simp: log_space_def)

section \<open>Properties\<close>

text \<open>C1: a transaction is atomic over crashes. Let the machine stop after any number of the block writes that
  \<open>commit\<close> makes, and then any number of times after some of the block writes that \<open>initlog\<close> makes when it starts on
  the disk that was left. Then \<open>initlog\<close> on the last disk returns, and every block outside the log has the
  contents from before the transaction or, when the header had been written, every block of the transaction has its new
  contents and the others are unchanged. The writes of \<open>commit\<close> are exactly \<open>commit_writes\<close> and those of \<open>initlog\<close>
  exactly \<open>recovery_writes\<close>, in this order.\<close>

theorem commit_crash_atomic:
  assumes ok: "log_ok d st hs s" and n: "lh_n (lg_lh (klog s)) = int (length hs)" "hs \<noteq> []"
    and room: "in_use d s < NBUF" and pin: "\<And>h. h \<in> set hs \<Longrightarrow> refs d s h \<noteq> 0"
    and clean: "get32 (disk s st) 0 = 0" and crash: "crash_disk d sblk hs s c (disk b)"
    and boot: "fresh_cache d b" "sb_logstart sblk = st"
  shows "\<exists>s' b'. commit s = Some s' \<and> dhist s' = dhist s @ commit_writes st hs (blk d s) \<and>
    initlog d sblk b = Some b' \<and> dhist b' = dhist b @ recovery_writes st (disk b) \<and>
    (\<forall>x. x \<notin> log_area st \<longrightarrow> disk b' x = (if c \<and> x \<in> set hs then blk d s x else disk s x))"
proof -
  have inv: "cache_inv d s" using ok by (simp add: log_ok_def)
  have tr: "trans_ok st hs (blk d s)" using ok blk_length [OF inv] by (simp add: trans_ok_def log_ok_def)
  have id: "idle st (disk s) (disk s)" using clean inv by (simp add: idle_def cache_inv_def)
  note cr = crash_disk_crashed [OF ok n room pin tr id boot(2) crash]
  note r = crashed_recovers [OF tr id cr]
  obtain b' where "initlog d sblk b = Some b'" "disk b' = play (recovery_writes st (disk b)) (disk b)"
    "dhist b' = dhist b @ recovery_writes st (disk b)"
    using recover_refines [OF boot(1) r(1) boot(2)] by blast
  moreover obtain s' where "commit s = Some s'" "dhist s' = dhist s @ commit_writes st hs (blk d s)"
    using commit_refines [OF ok n room pin] by blast
  ultimately show ?thesis using r(2) by (auto simp: idle_def updated_def)
qed

lemma zero_block_head: "get32 (replicate BSIZE 0) 0 = 0"
  by (simp add: get32_def get_bytes_def numeral_eq_Suc)

theorem commit_crash_atomic_witness:
  "\<exists>s' (b :: kfs) b'. commit demo_logged = Some s' \<and> disk b = play (take 2 (commit_writes 2 [100] (blk 1 demo_logged))) (disk demo_logged) \<and>
    initlog 1 (sb demo_kfs) b = Some b' \<and> disk b' 100 = replicate BSIZE 7"
proof -
  let ?B = "blk 1 demo_logged" and ?W = "take 2 (commit_writes 2 [100] (blk 1 demo_logged))"
  define b where "b = demo_kfs\<lparr>disk := play ?W (disk demo_logged)\<rparr>"
  have B: "length (?B x) = BSIZE" for x by (rule blk_length [OF demo_logged_inv])
  have new: "?B 100 = replicate BSIZE 7" by (simp add: blk_def demo_logged_views demo_logged_buf)
  have W: "?W = [(log_block 2 0, ?B 100), (2, header (?B 2) [100] 1)]" by (simp add: commit_writes_def)
  have D0: "length (disk demo_logged x) = BSIZE" for x by (simp add: demo_logged_def demo_kfs_def)
  have "length (snd w) = BSIZE" if "w \<in> set ?W" for w using that B unfolding W by auto
  then have "length (play ?W (disk demo_logged) x) = BSIZE" for x by (intro play_length D0)
  then have f: "fresh_cache 1 b" unfolding b_def by (rule demo_fresh)
  have n: "lh_n (lg_lh (klog demo_logged)) = int (length [100 :: u32])" by (simp add: demo_logged_def)
  have z: "get32 (disk demo_logged 2) 0 = 0" by (simp add: demo_logged_def demo_kfs_def zero_block_head)
  have l: "sb_logstart (sb demo_kfs) = 2" by (simp add: demo_kfs_def)
  have nl: "(100 :: u32) \<notin> log_area 2" using demo_logged_ok by (simp add: log_ok_def)
  have u: "in_use 1 demo_logged < NBUF" by (simp add: demo_logged_views)
  have p: "refs 1 demo_logged h \<noteq> 0" if "h \<in> set [100]" for h using that by (simp add: demo_logged_views)
  obtain t where "commit demo_logged = Some t" "dhist t = dhist demo_logged @ commit_writes 2 [100] ?B"
    using commit_refines [OF demo_logged_ok n _ u p] by auto
  from stop_commit [OF this, of 1 "sb demo_kfs" "[100]" 2]
  have c: "crash_disk 1 (sb demo_kfs) [100] demo_logged (length [100 :: u32] < 2) (disk b)" by (simp add: b_def)
  obtain s' b' where "commit demo_logged = Some s'" "initlog 1 (sb demo_kfs) b = Some b'"
    "\<And>x. x \<notin> log_area 2 \<Longrightarrow> disk b' x = (if x \<in> set [100] then ?B x else disk demo_logged x)"
    using commit_crash_atomic [OF demo_logged_ok n _ u p z c f l] by auto
  moreover have "disk b = play ?W (disk demo_logged)" by (simp add: b_def)
  ultimately show ?thesis using nl new by (metis list.set_intros(1))
qed

text \<open>C16: \<open>commit\<close> of a transaction returns with the log cleared in memory and on disk, every block of the
  transaction at its home location with its cached contents and every other block outside the log unchanged; the
  cache invariant holds.\<close>

theorem commit_installs:
  assumes ok: "log_ok d st hs s" and n: "lh_n (lg_lh (klog s)) = int (length hs)" "hs \<noteq> []"
    and room: "in_use d s < NBUF" and pin: "\<And>h. h \<in> set hs \<Longrightarrow> refs d s h \<noteq> 0" and clean: "get32 (disk s st) 0 = 0"
  shows "\<exists>s'. commit s = Some s' \<and> cache_inv d s' \<and> lh_n (lg_lh (klog s')) = 0 \<and> get32 (disk s' st) 0 = 0 \<and>
    (\<forall>x. x \<notin> log_area st \<longrightarrow> disk s' x = (if x \<in> set hs then blk d s x else disk s x))"
proof -
  have inv: "cache_inv d s" using ok by (simp add: log_ok_def)
  have tr: "trans_ok st hs (blk d s)" using ok blk_length [OF inv] by (simp add: trans_ok_def log_ok_def)
  have id: "idle st (disk s) (disk s)" using clean inv by (simp add: idle_def cache_inv_def)
  let ?W = "commit_writes st hs (blk d s)"
  have "\<not> armed st hs (blk d s) (disk s) (play ?W (disk s))"
  proof
    assume "armed st hs (blk d s) (disk s) (play ?W (disk s))"
    then have "put32 (header (blk d s st) hs (length hs)) 0 0 = header (blk d s st) hs (length hs)"
      by (simp add: armed_def commit_writes_def)
    moreover have h: "length (blk d s st) = BSIZE" "length hs \<le> LOGBLOCKS" using tr by (simp_all add: trans_ok_def)
    ultimately have "get32 (header (blk d s st) hs (length hs)) 0 = 0"
      using get32_put32 [of 0 "header (blk d s st) hs (length hs)" 0] by simp
    then have "sint (of_nat (length hs) :: u32) = 0" using header_n [OF h] by simp
    then show False using sint_small [OF h(2)] n(2) by simp
  qed
  then have "idle st (updated hs (blk d s) (disk s)) (play ?W (disk s))"
    using commit_prefix [OF tr id, of "length ?W"] by (simp add: commit_writes_def)
  then show ?thesis using commit_refines [OF ok n room pin] by (auto simp: idle_def updated_def)
qed

theorem commit_installs_witness:
  "\<exists>s'. commit demo_logged = Some s' \<and> cache_inv 1 s' \<and> lh_n (lg_lh (klog s')) = 0 \<and> disk s' 100 = replicate BSIZE 7"
proof -
  have n: "lh_n (lg_lh (klog demo_logged)) = int (length [100 :: u32])" by (simp add: demo_logged_def)
  have new: "blk 1 demo_logged 100 = replicate BSIZE 7" by (simp add: blk_def demo_logged_views demo_logged_buf)
  have z: "get32 (disk demo_logged 2) 0 = 0" by (simp add: demo_logged_def demo_kfs_def zero_block_head)
  have nl: "(100 :: u32) \<notin> log_area 2" using demo_logged_ok by (simp add: log_ok_def)
  have u: "in_use 1 demo_logged < NBUF" by (simp add: demo_logged_views)
  have p: "refs 1 demo_logged h \<noteq> 0" if "h \<in> set [100]" for h using that by (simp add: demo_logged_views)
  from commit_installs [OF demo_logged_ok n _ u p z] show ?thesis using nl new by auto
qed

text \<open>C17: while every operation keeps to \<open>MAXOPBLOCKS\<close> calls of \<open>log_write\<close>, the reservation made by \<open>begin_op\<close>
  is enough: a call within the budget never panics, and the log never holds more than \<open>LOGBLOCKS\<close> blocks.\<close>

theorem log_write_has_space:
  assumes "log_run s (as @ Suc b # cs)"
  shows "\<exists>s'. log_write i s = Some s' \<and> lh_n (lg_lh (klog s')) \<le> int LOGBLOCKS"
  using log_run_space [OF assms] by (auto simp: log_space_def log_write_def Let_def)

theorem log_write_has_space_witness:
  "\<exists>s s'. begin_op demo_kfs = Some s \<and> log_write 0 s = Some s' \<and> lh_n (lg_lh (klog s')) \<le> int LOGBLOCKS"
proof -
  obtain s where s: "begin_op demo_kfs = Some s" by (simp add: begin_op_def can_begin_def demo_kfs_def)
  have "log_run demo_kfs []" by (rule log_run_start) (simp_all add: demo_kfs_def)
  then have "log_run s (nat MAXOPBLOCKS # [])" by (rule log_run_begin) (rule s)
  then have "log_run s ([] @ Suc 9 # [])" by (simp add: numeral_eq_Suc)
  from log_write_has_space [OF this, of 0] s show ?thesis by blast
qed

text \<open>C18: a commit needs a buffer that is not in use. When every buffer of the cache is pinned by the
  transaction or held, \<open>commit\<close> does not return: \<open>bread\<close> of the first log block panics. As \<open>LOGBLOCKS\<close> equals \<open>NBUF\<close>, the
  reservation of \<open>begin_op\<close> does not exclude this.\<close>

theorem commit_full_cache_panics:
  assumes "cache_inv d s" "lg_dev (klog s) = d" "lg_start (klog s) = st" "0 < lh_n (lg_lh (klog s))"
    and "in_use d s = NBUF" "refs d s (log_block st 0) = 0"
  shows "commit s = None"
proof -
  have "slot d s (log_block st 0) = None"
  proof (rule ccontr)
    assume "slot d s (log_block st 0) \<noteq> None"
    then obtain i where i: "slot d s (log_block st 0) = Some i" by blast
    then have "b_refcnt (getb s i) = 0" using assms(6) by (simp add: refs_def unat_eq_0)
    moreover have "i < NBUF" using i slot_Some [OF assms(1)] by blast
    ultimately have "{i. i < NBUF \<and> b_refcnt (getb s i) \<noteq> 0} \<subseteq> {..<NBUF} - {i}" by auto
    then have "card {i. i < NBUF \<and> b_refcnt (getb s i) \<noteq> 0} \<le> card ({..<NBUF} - {i})" by (intro card_mono) auto
    then show False using assms(5) \<open>i < NBUF\<close> unfolding in_use_def refs_card [OF assms(1)] by simp
  qed
  then have "bread d (log_block st 0) s = None"
    using assms(5) unfolding in_use_def by (intro bread_None [OF assms(1)] disjI2 conjI)
  then have "write_log_one 0 s = None" using assms(2,3) by (simp add: write_log_one_def log_block_def)
  moreover have "[0..<nat (lh_n (lg_lh (klog s)))] = 0 # [1..<nat (lh_n (lg_lh (klog s)))]"
    using assms(4) by (simp add: upt_conv_Cons)
  ultimately show ?thesis using assms(4) by (simp add: commit_def write_log_def)
qed

text \<open>Thirty blocks, the most that three operations may log, each pinned in its buffer.\<close>

definition demo_full :: kfs where
  "demo_full = demo_kfs\<lparr>
     bufs := map (\<lambda>i. \<lparr>b_valid = True, b_dev = 1, b_blockno = of_nat (100 + i), b_lock = initsleeplock, b_refcnt = 1,
       b_data = replicate BSIZE 7\<rparr>) [0..<NBUF],
     klog := (klog demo_kfs)\<lparr>lg_outstanding := 0, lg_lh := \<lparr>lh_n = 30, lh_block = map (\<lambda>i. of_nat (100 + i)) [0..<NBUF]\<rparr>\<rparr>\<rparr>"

lemma demo_full_buf: "i < NBUF \<Longrightarrow> getb demo_full i = \<lparr>b_valid = True, b_dev = 1, b_blockno = of_nat (100 + i),
    b_lock = initsleeplock, b_refcnt = 1, b_data = replicate BSIZE 7\<rparr>"
  by (simp add: demo_full_def getb_def)

lemma demo_full_block: "i < NBUF \<Longrightarrow> is_block 1 b demo_full i \<longleftrightarrow> unat b = 100 + i"
proof -
  assume i: "i < NBUF"
  have "unat (of_nat (100 + i) :: u32) = 100 + i" using i by (simp only: unat_of_nat) simp
  moreover have "b = of_nat (100 + i) \<longleftrightarrow> unat b = unat (of_nat (100 + i) :: u32)" by (simp only: word_unat_eq_iff)
  ultimately show ?thesis using i by (auto simp: is_block_def demo_full_buf simp del: of_nat_add)
qed

lemma demo_full_inv: "cache_inv 1 demo_full" "in_use 1 demo_full = NBUF" "refs 1 demo_full (log_block 2 0) = 0"
proof -
  have "buf_ok 1 (disk demo_full) (getb demo_full i)" if "i < NBUF" for i
    using that by (simp add: demo_full_buf buf_ok_def initsleeplock_def)
  moreover have "i = j" if "i < NBUF" "j < NBUF" "is_block 1 b demo_full i" "is_block 1 b demo_full j" for i j b
    using that by (simp add: demo_full_block)
  ultimately show inv: "cache_inv 1 demo_full"
    unfolding cache_inv_def by (simp add: demo_full_def demo_kfs_def lessThan_atLeast0)
  have "{i. i < NBUF \<and> b_refcnt (getb demo_full i) \<noteq> 0} = {..<NBUF}" by (auto simp: demo_full_buf)
  then show "in_use 1 demo_full = NBUF" unfolding in_use_def refs_card [OF inv] by simp
  have "slot 1 demo_full 3 = None" by (simp add: slot_None demo_full_block)
  then show "refs 1 demo_full (log_block 2 0) = 0" by (simp add: refs_def log_block_def)
qed

theorem commit_full_cache_panics_witness: "lh_n (lg_lh (klog demo_full)) \<le> int LOGBLOCKS \<and> commit demo_full = None"
  using commit_full_cache_panics [OF demo_full_inv(1) _ _ _ demo_full_inv(2,3)] by (simp add: demo_full_def demo_kfs_def)

end
