(* ===== verification/Fs.thy ===== *)
theory Fs
  imports Log
begin

text \<open>
  The file system, \<^verbatim>\<open>kernel/fs.c\<close>: block allocation in the bitmap, inodes on disk and in the inode
  table, file contents, directories and path names. An inode is named by its index in
  \<open>itable.inode\<close>. Path names are the bytes before the terminating zero. The destination of \<open>readi\<close>
  is a user address or a kernel buffer, whose new bytes are returned; the source of \<open>writei\<close> is a
  user address or the bytes of a kernel buffer.
\<close>

section \<open>Super block\<close>

definition decode_sb :: "u8 list \<Rightarrow> superblock" where
  "decode_sb bs = \<lparr>sb_magic = get32 bs 0, sb_size = get32 bs 4, sb_nblocks = get32 bs 8, sb_ninodes = get32 bs 12,
     sb_nlog = get32 bs 16, sb_logstart = get32 bs 20, sb_inodestart = get32 bs 24, sb_bmapstart = get32 bs 28\<rparr>"

definition readsb :: "u32 \<Rightarrow> 'a kfs_scheme \<Rightarrow> (superblock \<times> 'a kfs_scheme) option" where
  "readsb dev s = do {
     (bp, s) \<leftarrow> bread dev 1 s;
     let sblk = decode_sb (b_data (getb s bp));
     s \<leftarrow> brelse bp s;
     Some (sblk, s)
   }"

definition IBLOCK :: "u32 \<Rightarrow> superblock \<Rightarrow> u32" where
  "IBLOCK i sblk = i div of_nat IPB + sb_inodestart sblk"

definition BBLOCK :: "u32 \<Rightarrow> superblock \<Rightarrow> u32" where
  "BBLOCK b sblk = b div of_nat BPB + sb_bmapstart sblk"

section \<open>Blocks\<close>

definition bzero :: "u32 \<Rightarrow> u32 \<Rightarrow> 'a kfs_scheme \<Rightarrow> 'a kfs_scheme option" where
  "bzero dev bno s = do {
     (bp, s) \<leftarrow> bread dev bno s;
     let s = set_data bp (\<lambda>_. replicate BSIZE 0) s;
     s \<leftarrow> log_write bp s;
     brelse bp s
   }"

definition bit_mask :: "nat \<Rightarrow> u8" where
  "bit_mask bi = push_bit (bi mod 8) 1"

definition bit_used :: "u8 list \<Rightarrow> nat \<Rightarrow> bool" where
  "bit_used bs bi \<longleftrightarrow> bs ! (bi div 8) AND bit_mask bi \<noteq> 0"

definition set_used :: "nat \<Rightarrow> u8 list \<Rightarrow> u8 list" where
  "set_used bi bs = bs[bi div 8 := bs ! (bi div 8) OR bit_mask bi]"

definition set_unused :: "nat \<Rightarrow> u8 list \<Rightarrow> u8 list" where
  "set_unused bi bs = bs[bi div 8 := bs ! (bi div 8) AND NOT (bit_mask bi)]"

fun balloc_loop :: "u32 \<Rightarrow> nat list \<Rightarrow> 'a kfs_scheme \<Rightarrow> (u32 \<times> 'a kfs_scheme) option" where
  "balloc_loop dev [] s = do {
     s \<leftarrow> kprint (''balloc: out of blocks'' @ [CHR 0x0A]) [] s;
     Some (0, s)
   }"
| "balloc_loop dev (b # bs) s = do {
     (bp, s) \<leftarrow> bread dev (BBLOCK (of_nat b) (sb s)) s;
     case find (\<lambda>bi. \<not> bit_used (b_data (getb s bp)) bi) [0..<min BPB (unat (sb_size (sb s)) - b)] of
       Some bi \<Rightarrow> do {
         let s = set_data bp (set_used bi) s;
         s \<leftarrow> log_write bp s;
         s \<leftarrow> brelse bp s;
         s \<leftarrow> bzero dev (of_nat (b + bi)) s;
         Some (of_nat (b + bi), s)
       }
     | None \<Rightarrow> do {
         s \<leftarrow> brelse bp s;
         balloc_loop dev bs s
       }
   }"

definition bitmap_starts :: "nat \<Rightarrow> nat list" where
  "bitmap_starts sz = map (\<lambda>k. k * BPB) [0..<(sz + BPB - 1) div BPB]"

definition balloc :: "u32 \<Rightarrow> 'a kfs_scheme \<Rightarrow> (u32 \<times> 'a kfs_scheme) option" where
  "balloc dev s = balloc_loop dev (bitmap_starts (unat (sb_size (sb s)))) s"

definition bfree :: "u32 \<Rightarrow> u32 \<Rightarrow> 'a kfs_scheme \<Rightarrow> 'a kfs_scheme option" where
  "bfree dev b s = do {
     (bp, s) \<leftarrow> bread dev (BBLOCK b (sb s)) s;
     let bi = unat b mod BPB;
     if \<not> bit_used (b_data (getb s bp)) bi then panic ''freeing free block''
     else do {
       s \<leftarrow> log_write bp (set_data bp (set_unused bi) s);
       brelse bp s
     }
   }"

section \<open>Inodes\<close>

definition iinit :: "'a kfs_scheme \<Rightarrow> 'a kfs_scheme" where
  "iinit s = s\<lparr>itable := map (\<lambda>ip. ip\<lparr>i_lock := initsleeplock\<rparr>) (itable s)\<rparr>"

text \<open>The on-disk inode at byte \<open>off\<close> of a block.\<close>

definition dinode_off :: "u32 \<Rightarrow> nat" where
  "dinode_off inum = 64 * (unat inum mod IPB)"

definition load_dinode :: "u8 list \<Rightarrow> nat \<Rightarrow> inode \<Rightarrow> inode" where
  "load_dinode bs off ip = ip\<lparr>i_type := get16 bs off, i_major := get16 bs (off + 2), i_minor := get16 bs (off + 4),
     i_nlink := get16 bs (off + 6), i_size := get32 bs (off + 8),
     i_addrs := map (\<lambda>k. get32 bs (off + 12 + 4 * k)) [0..<NDIRECT + 1]\<rparr>"

definition dinode_bytes :: "inode \<Rightarrow> u8 list" where
  "dinode_bytes ip = word_bytes 2 (i_type ip) @ word_bytes 2 (i_major ip) @ word_bytes 2 (i_minor ip) @
     word_bytes 2 (i_nlink ip) @ word_bytes 4 (i_size ip) @ concat (map (word_bytes 4) (i_addrs ip))"

fun find_inode :: "u32 \<Rightarrow> u32 \<Rightarrow> inode list \<Rightarrow> nat option" where
  "find_inode dev inum [] = None"
| "find_inode dev inum (ip # ips) =
     (if 0 < i_ref ip \<and> i_dev ip = dev \<and> i_inum ip = inum then Some 0
      else map_option Suc (find_inode dev inum ips))"

fun find_empty :: "inode list \<Rightarrow> nat option" where
  "find_empty [] = None"
| "find_empty (ip # ips) = (if i_ref ip = 0 then Some 0 else map_option Suc (find_empty ips))"

definition iget :: "u32 \<Rightarrow> u32 \<Rightarrow> 'a kfs_scheme \<Rightarrow> (nat \<times> 'a kfs_scheme) option" where
  "iget dev inum s =
     (case find_inode dev inum (itable s) of
        Some i \<Rightarrow> Some (i, seti i (\<lambda>ip. ip\<lparr>i_ref := i_ref ip + 1\<rparr>) s)
      | None \<Rightarrow>
          (case find_empty (itable s) of
             None \<Rightarrow> panic ''iget: no inodes''
           | Some i \<Rightarrow> Some (i, seti i (\<lambda>ip. ip\<lparr>i_dev := dev, i_inum := inum, i_ref := 1, i_valid := False\<rparr>) s)))"

fun ialloc_loop :: "u32 \<Rightarrow> u16 \<Rightarrow> nat list \<Rightarrow> 'a kfs_scheme \<Rightarrow> (nat option \<times> 'a kfs_scheme) option" where
  "ialloc_loop dev ty [] s = do {
     s \<leftarrow> kprint (''ialloc: no inodes'' @ [CHR 0x0A]) [] s;
     Some (None, s)
   }"
| "ialloc_loop dev ty (inum # inums) s = do {
     (bp, s) \<leftarrow> bread dev (IBLOCK (of_nat inum) (sb s)) s;
     let off = dinode_off (of_nat inum);
     if get16 (b_data (getb s bp)) off = 0 then do {
       let s = set_data bp (\<lambda>bs. put16 (put_bytes bs off (replicate 64 0)) off ty) s;
       s \<leftarrow> log_write bp s;
       s \<leftarrow> brelse bp s;
       (i, s) \<leftarrow> iget dev (of_nat inum) s;
       Some (Some i, s)
     } else do {
       s \<leftarrow> brelse bp s;
       ialloc_loop dev ty inums s
     }
   }"

definition ialloc :: "u32 \<Rightarrow> u16 \<Rightarrow> 'a kfs_scheme \<Rightarrow> (nat option \<times> 'a kfs_scheme) option" where
  "ialloc dev ty s = ialloc_loop dev ty [1..<unat (sb_ninodes (sb s))] s"

definition iupdate :: "nat \<Rightarrow> 'a kfs_scheme \<Rightarrow> 'a kfs_scheme option" where
  "iupdate i s = do {
     let ip = geti s i;
     (bp, s) \<leftarrow> bread (i_dev ip) (IBLOCK (i_inum ip) (sb s)) s;
     let s = set_data bp (\<lambda>bs. put_bytes bs (dinode_off (i_inum ip)) (dinode_bytes ip)) s;
     s \<leftarrow> log_write bp s;
     brelse bp s
   }"

definition idup :: "nat \<Rightarrow> 'a kfs_scheme \<Rightarrow> 'a kfs_scheme" where
  "idup i s = seti i (\<lambda>ip. ip\<lparr>i_ref := i_ref ip + 1\<rparr>) s"

definition ilock :: "nat \<Rightarrow> 'a kfs_scheme \<Rightarrow> 'a kfs_scheme option" where
  "ilock i s =
     (if i_ref (geti s i) < 1 then panic ''ilock''
      else do {
        lk \<leftarrow> acquiresleep (i_lock (geti s i)) s;
        let s = seti i (\<lambda>ip. ip\<lparr>i_lock := lk\<rparr>) s;
        if i_valid (geti s i) then Some s
        else do {
          let ip = geti s i;
          (bp, s) \<leftarrow> bread (i_dev ip) (IBLOCK (i_inum ip) (sb s)) s;
          let s = seti i (load_dinode (b_data (getb s bp)) (dinode_off (i_inum ip))) s;
          s \<leftarrow> brelse bp s;
          let s = seti i (\<lambda>ip. ip\<lparr>i_valid := True\<rparr>) s;
          if i_type (geti s i) = 0 then panic ''ilock: no type'' else Some s
        }
      })"

definition iunlock :: "nat \<Rightarrow> 'a kfs_scheme \<Rightarrow> 'a kfs_scheme option" where
  "iunlock i s = do {
     h \<leftarrow> holdingsleep (i_lock (geti s i)) s;
     if \<not> h \<or> i_ref (geti s i) < 1 then panic ''iunlock''
     else (let (lk, s) = releasesleep (ChInodeLock i) (i_lock (geti s i)) s
           in Some (seti i (\<lambda>ip. ip\<lparr>i_lock := lk\<rparr>) s))
   }"

section \<open>Contents\<close>

definition bmap :: "nat \<Rightarrow> nat \<Rightarrow> 'a kfs_scheme \<Rightarrow> (u32 \<times> 'a kfs_scheme) option" where
  "bmap i bn s =
     (let ip = geti s i
      in if bn < NDIRECT then
           (if i_addrs ip ! bn = 0 then do {
              (addr, s) \<leftarrow> balloc (i_dev ip) s;
              if addr = 0 then Some (0, s)
              else Some (addr, seti i (\<lambda>ip. ip\<lparr>i_addrs := (i_addrs ip)[bn := addr]\<rparr>) s)
            } else Some (i_addrs ip ! bn, s))
         else if bn - NDIRECT < NINDIRECT then
           (let bn = bn - NDIRECT
            in do {
              (ind, s) \<leftarrow>
                (if i_addrs ip ! NDIRECT = 0 then do {
                   (addr, s) \<leftarrow> balloc (i_dev ip) s;
                   if addr = 0 then Some (0, s)
                   else Some (addr, seti i (\<lambda>ip. ip\<lparr>i_addrs := (i_addrs ip)[NDIRECT := addr]\<rparr>) s)
                 } else Some (i_addrs ip ! NDIRECT, s));
              if ind = 0 then Some (0, s)
              else do {
                (bp, s) \<leftarrow> bread (i_dev ip) ind s;
                let addr = get32 (b_data (getb s bp)) (4 * bn);
                (addr, s) \<leftarrow>
                  (if addr = 0 then do {
                     (addr, s) \<leftarrow> balloc (i_dev ip) s;
                     if addr \<noteq> 0 then do {
                       s \<leftarrow> log_write bp (set_data bp (\<lambda>bs. put32 bs (4 * bn) addr) s);
                       Some (addr, s)
                     } else Some (addr, s)
                   } else Some (addr, s));
                s \<leftarrow> brelse bp s;
                Some (addr, s)
              }
            })
         else panic ''bmap: out of range'')"

definition trunc_direct :: "nat \<Rightarrow> nat \<Rightarrow> 'a kfs_scheme \<Rightarrow> 'a kfs_scheme option" where
  "trunc_direct i k s =
     (let ip = geti s i
      in if i_addrs ip ! k \<noteq> 0 then do {
           s \<leftarrow> bfree (i_dev ip) (i_addrs ip ! k) s;
           Some (seti i (\<lambda>ip. ip\<lparr>i_addrs := (i_addrs ip)[k := 0]\<rparr>) s)
         } else Some s)"

definition trunc_indirect :: "u32 \<Rightarrow> nat \<Rightarrow> nat \<Rightarrow> 'a kfs_scheme \<Rightarrow> 'a kfs_scheme option" where
  "trunc_indirect dev bp j s =
     (let a = get32 (b_data (getb s bp)) (4 * j) in if a \<noteq> 0 then bfree dev a s else Some s)"

definition itrunc :: "nat \<Rightarrow> 'a kfs_scheme \<Rightarrow> 'a kfs_scheme option" where
  "itrunc i s = do {
     s \<leftarrow> for_each (trunc_direct i) [0..<NDIRECT] s;
     let ip = geti s i;
     s \<leftarrow> (if i_addrs ip ! NDIRECT \<noteq> 0 then do {
             (bp, s) \<leftarrow> bread (i_dev ip) (i_addrs ip ! NDIRECT) s;
             s \<leftarrow> for_each (trunc_indirect (i_dev ip) bp) [0..<NINDIRECT] s;
             s \<leftarrow> brelse bp s;
             s \<leftarrow> bfree (i_dev ip) (i_addrs ip ! NDIRECT) s;
             Some (seti i (\<lambda>ip. ip\<lparr>i_addrs := (i_addrs ip)[NDIRECT := 0]\<rparr>) s)
           } else Some s);
     iupdate i (seti i (\<lambda>ip. ip\<lparr>i_size := 0\<rparr>) s)
   }"

definition iput :: "nat \<Rightarrow> 'a kfs_scheme \<Rightarrow> 'a kfs_scheme option" where
  "iput i s = do {
     let ip = geti s i;
     s \<leftarrow> (if i_ref ip = 1 \<and> i_valid ip \<and> i_nlink ip = 0 then do {
             lk \<leftarrow> acquiresleep (i_lock ip) s;
             s \<leftarrow> itrunc i (seti i (\<lambda>ip. ip\<lparr>i_lock := lk\<rparr>) s);
             s \<leftarrow> iupdate i (seti i (\<lambda>ip. ip\<lparr>i_type := 0\<rparr>) s);
             let s = seti i (\<lambda>ip. ip\<lparr>i_valid := False\<rparr>) s;
             (let (lk, s) = releasesleep (ChInodeLock i) (i_lock (geti s i)) s
              in Some (seti i (\<lambda>ip. ip\<lparr>i_lock := lk\<rparr>) s))
           } else Some s);
     Some (seti i (\<lambda>ip. ip\<lparr>i_ref := i_ref ip - 1\<rparr>) s)
   }"

definition iunlockput :: "nat \<Rightarrow> 'a kfs_scheme \<Rightarrow> 'a kfs_scheme option" where
  "iunlockput i s = Option.bind (iunlock i s) (iput i)"

definition ireclaim_one :: "u32 \<Rightarrow> nat \<Rightarrow> 'a kfs_scheme \<Rightarrow> 'a kfs_scheme option" where
  "ireclaim_one dev inum s = do {
     (bp, s) \<leftarrow> bread dev (IBLOCK (of_nat inum) (sb s)) s;
     let bs = b_data (getb s bp);
     let off = dinode_off (of_nat inum);
     (ip, s) \<leftarrow>
       (if get16 bs off \<noteq> 0 \<and> get16 bs (off + 6) = 0 then do {
          s \<leftarrow> kprint (''ireclaim: orphaned inode %d'' @ [CHR 0x0A]) [Reg (of_nat inum)] s;
          (i, s) \<leftarrow> iget dev (of_nat inum) s;
          Some (Some i, s)
        } else Some (None, s));
     s \<leftarrow> brelse bp s;
     (case ip of
        None \<Rightarrow> Some s
      | Some i \<Rightarrow> do {
          s \<leftarrow> begin_op s;
          s \<leftarrow> ilock i s;
          s \<leftarrow> iunlock i s;
          s \<leftarrow> iput i s;
          end_op s
        })
   }"

definition ireclaim :: "u32 \<Rightarrow> 'a kfs_scheme \<Rightarrow> 'a kfs_scheme option" where
  "ireclaim dev s = for_each (ireclaim_one dev) [1..<unat (sb_ninodes (sb s))] s"

definition fsinit :: "u32 \<Rightarrow> 'a kfs_scheme \<Rightarrow> 'a kfs_scheme option" where
  "fsinit dev s = do {
     (sblk, s) \<leftarrow> readsb dev s;
     let s = s\<lparr>sb := sblk\<rparr>;
     if sb_magic sblk \<noteq> FSMAGIC then panic ''invalid file system''
     else do {
       s \<leftarrow> initlog dev sblk s;
       ireclaim dev s
     }
   }"

section \<open>Reading and writing\<close>

record stat =
  st_dev :: u32
  st_ino :: u32
  st_type :: u16
  st_nlink :: u16
  st_size :: u64

definition stati :: "inode \<Rightarrow> stat" where
  "stati ip = \<lparr>st_dev = i_dev ip, st_ino = i_inum ip, st_type = i_type ip, st_nlink = i_nlink ip,
     st_size = ucast (i_size ip)\<rparr>"

text \<open>\<open>readi\<close> returns the count (or -1) and the bytes it copied out; with a user destination these
  have been stored there.\<close>

definition copy_to :: "u64 option \<Rightarrow> u8 list \<Rightarrow> 'a kfs_scheme \<Rightarrow> (int \<times> 'a kfs_scheme) option" where
  "copy_to dst bs s = (case dst of None \<Rightarrow> Some (0, s) | Some d \<Rightarrow> either_copyout True d bs s)"

function readi_loop :: "nat \<Rightarrow> u64 option \<Rightarrow> nat \<Rightarrow> nat \<Rightarrow> 'a kfs_scheme \<Rightarrow> (int \<times> u8 list \<times> 'a kfs_scheme) option" where
  "readi_loop i dst off n s =
     (if n = 0 then Some (0, [], s)
      else let m = min n (BSIZE - off mod BSIZE)
      in do {
        (addr, s) \<leftarrow> bmap i (off div BSIZE) s;
        if addr = 0 then Some (0, [], s)
        else do {
          (bp, s) \<leftarrow> bread (i_dev (geti s i)) addr s;
          let bs = get_bytes (b_data (getb s bp)) (off mod BSIZE) m;
          (e, s) \<leftarrow> copy_to dst bs s;
          s \<leftarrow> brelse bp s;
          if e = - 1 then Some (- 1, [], s)
          else do {
            (r, rest, s) \<leftarrow> readi_loop i (map_option (\<lambda>d. d + of_nat m) dst) (off + m) (n - m) s;
            Some (if r = - 1 then - 1 else int m + r, bs @ rest, s)
          }
        }
      })"
  by pat_completeness auto
termination
  by (relation "measure (\<lambda>(i, dst, off, n, s). n)") auto

declare readi_loop.simps [simp del]

definition readi :: "nat \<Rightarrow> u64 option \<Rightarrow> u32 \<Rightarrow> u32 \<Rightarrow> 'a kfs_scheme \<Rightarrow> (int \<times> u8 list \<times> 'a kfs_scheme) option" where
  "readi i dst off n s =
     (let size = i_size (geti s i)
      in if size < off \<or> off + n < off then Some (0, [], s)
         else let n = (if size < off + n then size - off else n)
              in readi_loop i dst (unat off) (unat n) s)"

datatype wsrc = UserSrc u64 | KernSrc "u8 list"

fun advance :: "nat \<Rightarrow> wsrc \<Rightarrow> wsrc" where
  "advance m (UserSrc a) = UserSrc (a + of_nat m)"
| "advance m (KernSrc bs) = KernSrc (drop m bs)"

fun copy_from :: "wsrc \<Rightarrow> nat \<Rightarrow> 'a kfs_scheme \<Rightarrow> (int \<times> u8 list \<times> 'a kfs_scheme) option" where
  "copy_from (UserSrc a) m s = either_copyin True a m s"
| "copy_from (KernSrc bs) m s = Some (0, take m bs, s)"

text \<open>The loop of \<open>writei\<close> returns the number of bytes written. A failing copy leaves in the buffer
  what it copied before it failed.\<close>

function writei_loop :: "nat \<Rightarrow> wsrc \<Rightarrow> nat \<Rightarrow> nat \<Rightarrow> 'a kfs_scheme \<Rightarrow> (nat \<times> 'a kfs_scheme) option" where
  "writei_loop i src off n s =
     (if n = 0 then Some (0, s)
      else let m = min n (BSIZE - off mod BSIZE)
      in do {
        (addr, s) \<leftarrow> bmap i (off div BSIZE) s;
        if addr = 0 then Some (0, s)
        else do {
          (bp, s) \<leftarrow> bread (i_dev (geti s i)) addr s;
          (e, bs, s) \<leftarrow> copy_from src m s;
          let s = set_data bp (\<lambda>d. put_bytes d (off mod BSIZE) bs) s;
          if e = - 1 then do {
            s \<leftarrow> brelse bp s;
            Some (0, s)
          } else do {
            s \<leftarrow> log_write bp s;
            s \<leftarrow> brelse bp s;
            (r, s) \<leftarrow> writei_loop i (advance m src) (off + m) (n - m) s;
            Some (m + r, s)
          }
        }
      })"
  by pat_completeness auto
termination
  by (relation "measure (\<lambda>(i, src, off, n, s). n)") auto

declare writei_loop.simps [simp del]

definition writei :: "nat \<Rightarrow> wsrc \<Rightarrow> u32 \<Rightarrow> u32 \<Rightarrow> 'a kfs_scheme \<Rightarrow> (int \<times> 'a kfs_scheme) option" where
  "writei i src off n s =
     (if i_size (geti s i) < off \<or> off + n < off then Some (- 1, s)
      else if of_nat (MAXFILE * BSIZE) < off + n then Some (- 1, s)
      else do {
        (tot, s) \<leftarrow> writei_loop i src (unat off) (unat n) s;
        let off' = off + of_nat tot;
        let s = (if i_size (geti s i) < off' then seti i (\<lambda>ip. ip\<lparr>i_size := off'\<rparr>) s else s);
        s \<leftarrow> iupdate i s;
        Some (int tot, s)
      })"

section \<open>Directories\<close>

definition namecmp :: "u8 list \<Rightarrow> u8 list \<Rightarrow> int" where
  "namecmp s t = strncmp (cstr s) (cstr t) DIRSIZ"

definition de_inum :: "u8 list \<Rightarrow> u16" where
  "de_inum de = get16 de 0"

definition de_name :: "u8 list \<Rightarrow> u8 list" where
  "de_name de = get_bytes de 2 DIRSIZ"

text \<open>The scan for a name gives the inode and the offset of the entry.\<close>

function dirlookup_loop :: "nat \<Rightarrow> u8 list \<Rightarrow> nat \<Rightarrow> nat \<Rightarrow> 'a kfs_scheme \<Rightarrow> ((nat \<times> nat) option \<times> 'a kfs_scheme) option" where
  "dirlookup_loop dp name sz off s =
     (if sz \<le> off then Some (None, s)
      else do {
        (r, de, s) \<leftarrow> readi dp None (of_nat off) 16 s;
        if r \<noteq> 16 then panic ''dirlookup read''
        else if de_inum de \<noteq> 0 \<and> namecmp name (de_name de) = 0 then do {
          (i, s) \<leftarrow> iget (i_dev (geti s dp)) (ucast (de_inum de)) s;
          Some (Some (i, off), s)
        } else dirlookup_loop dp name sz (off + 16) s
      })"
  by pat_completeness auto
termination
  by (relation "measure (\<lambda>(dp, name, sz, off, s). sz - off)") auto

declare dirlookup_loop.simps [simp del]

definition dirlookup :: "nat \<Rightarrow> u8 list \<Rightarrow> 'a kfs_scheme \<Rightarrow> ((nat \<times> nat) option \<times> 'a kfs_scheme) option" where
  "dirlookup dp name s =
     (if i_type (geti s dp) \<noteq> T_DIR then panic ''dirlookup not DIR''
      else dirlookup_loop dp name (unat (i_size (geti s dp))) 0 s)"

function free_dirent :: "nat \<Rightarrow> nat \<Rightarrow> nat \<Rightarrow> 'a kfs_scheme \<Rightarrow> (nat \<times> 'a kfs_scheme) option" where
  "free_dirent dp sz off s =
     (if sz \<le> off then Some (off, s)
      else do {
        (r, de, s) \<leftarrow> readi dp None (of_nat off) 16 s;
        if r \<noteq> 16 then panic ''dirlink read''
        else if de_inum de = 0 then Some (off, s)
        else free_dirent dp sz (off + 16) s
      })"
  by pat_completeness auto
termination
  by (relation "measure (\<lambda>(dp, sz, off, s). sz - off)") auto

declare free_dirent.simps [simp del]

definition dirent_bytes :: "u8 list \<Rightarrow> u16 \<Rightarrow> u8 list" where
  "dirent_bytes name inum = word_bytes 2 inum @ strncpy (cstr name) DIRSIZ"

definition dirlink :: "nat \<Rightarrow> u8 list \<Rightarrow> u32 \<Rightarrow> 'a kfs_scheme \<Rightarrow> (int \<times> 'a kfs_scheme) option" where
  "dirlink dp name inum s = do {
     (found, s) \<leftarrow> dirlookup dp name s;
     case found of
       Some (i, _) \<Rightarrow> do {
         s \<leftarrow> iput i s;
         Some (- 1, s)
       }
     | None \<Rightarrow> do {
         (off, s) \<leftarrow> free_dirent dp (unat (i_size (geti s dp))) 0 s;
         (r, s) \<leftarrow> writei dp (KernSrc (dirent_bytes name (ucast inum))) (of_nat off) 16 s;
         Some (if r \<noteq> 16 then - 1 else 0, s)
       }
   }"

section \<open>Paths\<close>

abbreviation (input) SLASH :: u8 where "SLASH \<equiv> 47"

definition skipelem :: "u8 list \<Rightarrow> (u8 list \<times> u8 list) option" where
  "skipelem path =
     (let path = dropWhile (\<lambda>c. c = SLASH) path
      in if path = [] then None
         else let elem = takeWhile (\<lambda>c. c \<noteq> SLASH) path;
                  path = dropWhile (\<lambda>c. c \<noteq> SLASH) path
              in Some (dropWhile (\<lambda>c. c = SLASH) path, take DIRSIZ elem))"

lemma skipelem_shorter:
  assumes "skipelem path = Some (rest, elem)"
  shows "length rest < length path"
proof -
  define p where "p = dropWhile (\<lambda>c. c = SLASH) path"
  have p: "p \<noteq> []" "rest = dropWhile (\<lambda>c. c = SLASH) (dropWhile (\<lambda>c. c \<noteq> SLASH) p)"
    using assms by (auto simp: skipelem_def p_def Let_def split: if_splits)
  have "hd p \<noteq> SLASH"
    using p(1) hd_dropWhile [of "\<lambda>c. c = SLASH" path] by (simp add: p_def)
  then obtain c q where q: "p = c # q" "c \<noteq> SLASH"
    using p(1) by (cases p) auto
  have "length rest \<le> length q"
    using p(2) q by simp (meson length_dropWhile_le order_trans)
  also have "\<dots> < length p"
    using q by simp
  also have "\<dots> \<le> length path"
    by (simp add: p_def length_dropWhile_le)
  finally show ?thesis .
qed

text \<open>\<open>namex\<close> returns the inode and the last element it copied to \<open>name\<close>.\<close>

function namex_loop :: "nat \<Rightarrow> u8 list \<Rightarrow> bool \<Rightarrow> u8 list \<Rightarrow> 'a kfs_scheme \<Rightarrow> (nat option \<times> u8 list \<times> 'a kfs_scheme) option" where
  "namex_loop i path parent name s =
     (case skipelem path of
        None \<Rightarrow>
          if parent then do { s \<leftarrow> iput i s; Some (None, name, s) } else Some (Some i, name, s)
      | Some (path', name) \<Rightarrow> do {
          s \<leftarrow> ilock i s;
          if i_type (geti s i) \<noteq> T_DIR then do {
            s \<leftarrow> iunlockput i s;
            Some (None, name, s)
          } else if parent \<and> path' = [] then do {
            s \<leftarrow> iunlock i s;
            Some (Some i, name, s)
          } else do {
            (found, s) \<leftarrow> dirlookup i name s;
            s \<leftarrow> iunlockput i s;
            case found of
              None \<Rightarrow> Some (None, name, s)
            | Some (nxt, _) \<Rightarrow> namex_loop nxt path' parent name s
          }
        })"
  by pat_completeness auto
termination
  by (relation "measure (\<lambda>(i, path, parent, name, s). length path)") (auto dest: skipelem_shorter)

declare namex_loop.simps [simp del]

definition namex :: "u8 list \<Rightarrow> bool \<Rightarrow> 'a kfs_scheme \<Rightarrow> (nat option \<times> u8 list \<times> 'a kfs_scheme) option" where
  "namex path parent s = do {
     (i, s) \<leftarrow>
       (if path \<noteq> [] \<and> hd path = SLASH then iget ROOTDEV ROOTINO s
        else do {
          p \<leftarrow> myproc s;
          i \<leftarrow> p_cwd (getp s p);
          Some (i, idup i s)
        });
     namex_loop i path parent [] s
   }"

definition namei :: "u8 list \<Rightarrow> 'a kfs_scheme \<Rightarrow> (nat option \<times> 'a kfs_scheme) option" where
  "namei path s = do { (r, _, s) \<leftarrow> namex path False s; Some (r, s) }"

definition nameiparent :: "u8 list \<Rightarrow> 'a kfs_scheme \<Rightarrow> (nat option \<times> u8 list \<times> 'a kfs_scheme) option" where
  "nameiparent path s = namex path True s"

end
