(* ===== verification/Txn.thy ===== *)
theory Txn
  imports LogSafe Fs
begin

text \<open>
  The file system inside a transaction. Between \<open>begin_op\<close> and \<open>end_op\<close> the blocks of the disk are what
  the cache says they are (\<open>blk\<close>); an update reads a block, changes it, hands it to \<open>log_write\<close> and releases
  it. On top of this the block bitmap (\<open>balloc\<close>, \<open>bfree\<close>) and the inodes on disk (\<open>iupdate\<close>, \<open>ilock\<close>) of
  \<^verbatim>\<open>kernel/fs.c\<close> are specified.
\<close>

section \<open>Logged blocks\<close>

definition logged :: "'a kfs_scheme \<Rightarrow> u32 list" where
  "logged s = take (nat (lh_n (lg_lh (klog s)))) (lh_block (lg_lh (klog s)))"

definition txn :: "u32 \<Rightarrow> 'a kfs_scheme \<Rightarrow> bool" where
  "txn d s \<longleftrightarrow> cache_inv d s \<and> lg_dev (klog s) = d \<and> 1 \<le> lg_outstanding (klog s) \<and>
     length (lh_block (lg_lh (klog s))) = LOGBLOCKS \<and> 0 \<le> lh_n (lg_lh (klog s)) \<and> lh_n (lg_lh (klog s)) \<le> int LOGBLOCKS \<and>
     distinct (logged s) \<and> (\<forall>b\<in>set (logged s). refs d s b \<noteq> 0) \<and> (\<forall>b. b \<notin> set (logged s) \<longrightarrow> blk d s b = disk s b)"

lemma find_index_found: "n \<le> length ws \<Longrightarrow> b \<in> set (take n ws) \<Longrightarrow> find_index b ws n < n \<and> ws ! find_index b ws n = b"
proof (induction b ws n rule: find_index.induct)
  case (2 b x xs n)
  then show ?case by (cases n) auto
qed simp

lemma find_index_new: "n \<le> length ws \<Longrightarrow> b \<notin> set (take n ws) \<Longrightarrow> find_index b ws n = n"
proof (induction b ws n rule: find_index.induct)
  case (2 b x xs n)
  then show ?case by (cases n) auto
qed simp

text \<open>Everything but the cache, the disk, the header of the log and the run states of processes is as before.\<close>

definition txn_frame :: "'a kfs_scheme \<Rightarrow> 'a kfs_scheme \<Rightarrow> bool" where
  "txn_frame s s' \<longleftrightarrow> (\<exists>lh. bio_frame (setlog (\<lambda>l. l\<lparr>lg_lh := lh\<rparr>) s) s')"

lemma txn_frame_bio: "bio_frame s s' \<Longrightarrow> txn_frame s s'"
  unfolding txn_frame_def by (rule exI [of _ "lg_lh (klog s)"]) (simp add: setlog_def)

lemma bio_frame_setlog:
  assumes "bio_frame s t"
  shows "bio_frame (setlog f s) (setlog f t)"
proof -
  have k: "klog t = klog s" by (rule bio_frame_keeps(6) [OF assms])
  let ?u = "\<lambda>s. s\<lparr>procs := procs t, disk := disk t, dhist := dhist t, bufs := bufs t, lru := lru t\<rparr>"
  have "t = ?u s" using assms by (simp add: bio_frame_def)
  from arg_cong [OF this, of "\<lambda>u. u\<lparr>klog := f (klog s)\<rparr>"]
  have "t\<lparr>klog := f (klog s)\<rparr> = ?u (s\<lparr>klog := f (klog s)\<rparr>)" by simp
  moreover have "map idle_proc (procs t) = map idle_proc (procs s)" using assms by (simp add: bio_frame_def)
  ultimately show ?thesis unfolding bio_frame_def setlog_def k by simp
qed

lemma txn_frame_trans:
  assumes "txn_frame s t" "txn_frame t u"
  shows "txn_frame s u"
proof -
  obtain a b where a: "bio_frame (setlog (\<lambda>l. l\<lparr>lg_lh := a\<rparr>) s) t" and b: "bio_frame (setlog (\<lambda>l. l\<lparr>lg_lh := b\<rparr>) t) u"
    using assms by (auto simp: txn_frame_def)
  have "bio_frame (setlog (\<lambda>l. l\<lparr>lg_lh := b\<rparr>) (setlog (\<lambda>l. l\<lparr>lg_lh := a\<rparr>) s)) (setlog (\<lambda>l. l\<lparr>lg_lh := b\<rparr>) t)"
    by (rule bio_frame_setlog [OF a])
  then have "bio_frame (setlog (\<lambda>l. l\<lparr>lg_lh := b\<rparr>) s) (setlog (\<lambda>l. l\<lparr>lg_lh := b\<rparr>) t)" by (simp add: setlog_def)
  then show ?thesis unfolding txn_frame_def using bio_frame_trans [OF _ b] by blast
qed

lemma txn_frame_keeps:
  assumes "txn_frame s t"
  shows "sb t = sb s" "itable t = itable s" "ftable t = ftable s" "pipes t = pipes s" "pmem t = pmem s" "freelist t = freelist s"
    "cur t = cur s" "lg_outstanding (klog t) = lg_outstanding (klog s)" "lg_dev (klog t) = lg_dev (klog s)"
    "lg_start (klog t) = lg_start (klog s)" "length (procs t) = length (procs s)" "map p_pid (procs t) = map p_pid (procs s)"
    "geti t = geti s" "map idle_proc (procs t) = map idle_proc (procs s)" "sym t = sym s"
proof -
  obtain lh where f: "bio_frame (setlog (\<lambda>l. l\<lparr>lg_lh := lh\<rparr>) s) t" using assms by (auto simp: txn_frame_def)
  note k = bio_frame_keeps [OF f]
  show "sb t = sb s" "itable t = itable s" "ftable t = ftable s" "pipes t = pipes s" "pmem t = pmem s" "freelist t = freelist s"
    "cur t = cur s" "lg_outstanding (klog t) = lg_outstanding (klog s)" "lg_dev (klog t) = lg_dev (klog s)"
    "lg_start (klog t) = lg_start (klog s)" "length (procs t) = length (procs s)" "map p_pid (procs t) = map p_pid (procs s)"
    "map idle_proc (procs t) = map idle_proc (procs s)" "sym t = sym s"
    using k by (simp_all add: setlog_def)
  then show "geti t = geti s" by (simp add: geti_def fun_eq_iff)
qed

text \<open>The same for code that may also print.\<close>

definition fs_frame :: "'a kfs_scheme \<Rightarrow> 'a kfs_scheme \<Rightarrow> bool" where
  "fs_frame s s' \<longleftrightarrow> (\<exists>out. txn_frame (s\<lparr>conout := out\<rparr>) s')"

lemma fs_frame_txn: "txn_frame s s' \<Longrightarrow> fs_frame s s'"
  unfolding fs_frame_def by (rule exI [of _ "conout s"]) simp

lemma txn_frame_conout:
  assumes "txn_frame s t"
  shows "txn_frame (s\<lparr>conout := out\<rparr>) (t\<lparr>conout := out\<rparr>)"
proof -
  obtain lh where f: "bio_frame (setlog (\<lambda>l. l\<lparr>lg_lh := lh\<rparr>) s) t" using assms by (auto simp: txn_frame_def)
  let ?s = "setlog (\<lambda>l. l\<lparr>lg_lh := lh\<rparr>) s"
  let ?u = "\<lambda>s. s\<lparr>procs := procs t, disk := disk t, dhist := dhist t, bufs := bufs t, lru := lru t\<rparr>"
  have "t = ?u ?s" using f by (simp add: bio_frame_def)
  from arg_cong [OF this, of "\<lambda>u. u\<lparr>conout := out\<rparr>"]
  have "t\<lparr>conout := out\<rparr> = ?u (setlog (\<lambda>l. l\<lparr>lg_lh := lh\<rparr>) (s\<lparr>conout := out\<rparr>))" by (simp add: setlog_def)
  moreover have "map idle_proc (procs t) = map idle_proc (procs s)" using f by (simp add: bio_frame_def setlog_def)
  ultimately have "bio_frame (setlog (\<lambda>l. l\<lparr>lg_lh := lh\<rparr>) (s\<lparr>conout := out\<rparr>)) (t\<lparr>conout := out\<rparr>)"
    unfolding bio_frame_def by (simp add: setlog_def)
  then show ?thesis by (auto simp: txn_frame_def)
qed

lemma fs_frame_trans:
  assumes "fs_frame s t" "fs_frame t u"
  shows "fs_frame s u"
proof -
  obtain a b where a: "txn_frame (s\<lparr>conout := a\<rparr>) t" and b: "txn_frame (t\<lparr>conout := b\<rparr>) u" using assms by (auto simp: fs_frame_def)
  have "txn_frame (s\<lparr>conout := b\<rparr>) (t\<lparr>conout := b\<rparr>)" using txn_frame_conout [OF a, of b] by simp
  then show ?thesis unfolding fs_frame_def using txn_frame_trans [OF _ b] by blast
qed

lemma fs_frame_keeps:
  assumes "fs_frame s t"
  shows "sb t = sb s" "itable t = itable s" "ftable t = ftable s" "pmem t = pmem s" "freelist t = freelist s"
    "cur t = cur s" "lg_outstanding (klog t) = lg_outstanding (klog s)" "geti t = geti s"
    "map idle_proc (procs t) = map idle_proc (procs s)" "length (procs t) = length (procs s)" "sym t = sym s"
proof -
  obtain out where "txn_frame (s\<lparr>conout := out\<rparr>) t" using assms by (auto simp: fs_frame_def)
  note k = txn_frame_keeps [OF this]
  show "sb t = sb s" "itable t = itable s" "ftable t = ftable s" "pmem t = pmem s" "freelist t = freelist s"
    "cur t = cur s" "lg_outstanding (klog t) = lg_outstanding (klog s)"
    "map idle_proc (procs t) = map idle_proc (procs s)" "length (procs t) = length (procs s)" "sym t = sym s"
    using k by simp_all
  then show "geti t = geti s" by (simp add: geti_def fun_eq_iff)
qed

lemma log_write_spec:
  assumes inv: "cache_inv d s" and h: "hold d s i b" and out: "1 \<le> lg_outstanding (klog s)"
    and l: "length (lh_block (lg_lh (klog s))) = LOGBLOCKS" "0 \<le> lh_n (lg_lh (klog s))" "lh_n (lg_lh (klog s)) < int LOGBLOCKS"
    and lim: "refs d s b < 2 ^ 32 - 1"
  obtains s' where "log_write i s = Some s'" "cache_inv d s'" "txn_frame s s'" "hold d s' = hold d s" "blk d s' = blk d s"
    "disk s' = disk s" "dhist s' = dhist s" "busy d s' = busy d s"
    "refs d s' = (refs d s)(b := refs d s b + (if b \<in> set (logged s) then 0 else 1))"
    "logged s' = (if b \<in> set (logged s) then logged s else logged s @ [b])"
    "length (lh_block (lg_lh (klog s'))) = LOGBLOCKS" "lh_n (lg_lh (klog s')) = int (length (logged s'))"
proof -
  let ?ws = "lh_block (lg_lh (klog s))"
  define n where "n = nat (lh_n (lg_lh (klog s)))"
  have n: "lh_n (lg_lh (klog s)) = int n" "n < LOGBLOCKS" using l by (auto simp: n_def)
  have bn: "b_blockno (getb s i) = b" by (rule hold_buf(3) [OF inv h])
  have lg: "logged s = take n ?ws" by (simp add: logged_def n_def)
  show thesis
  proof (cases "b \<in> set (logged s)")
    case True
    define k where "k = find_index b ?ws n"
    have k: "k < n" "?ws ! k = b" using find_index_found [of n ?ws b] True n(2) l(1) unfolding lg k_def by auto
    have same: "?ws[k := b] = ?ws" using k by (metis list_update_id)
    have "log_write i s = Some (setlog (\<lambda>l. l\<lparr>lg_lh := (lg_lh l)\<lparr>lh_block := (lh_block (lg_lh l))[k := b]\<rparr>\<rparr>) s)"
      using l(3) out n k(1) bn by (simp add: log_write_def Let_def k_def)
    also have "\<dots> = Some s" using same by (simp add: setlog_def)
    finally show thesis
      using that [of s] inv True txn_frame_bio [OF bio_frame_refl, of s] l n by (simp add: lg)
  next
    case False
    have k: "find_index b ?ws n = n" using find_index_new [of n ?ws b] False n(2) l(1) unfolding lg by auto
    let ?f = "\<lambda>l. l\<lparr>lg_lh := \<lparr>lh_n = int n + 1, lh_block = ?ws[n := b]\<rparr>\<rparr>"
    let ?s = "setlog ?f (bpin i s)"
    have kp: "klog (bpin i s) = klog s" by (simp add: bpin_def)
    have lw: "log_write i s = Some ?s"
      using l(3) out n k bn by (cases "lg_lh (klog s)") (simp add: log_write_def Let_def setlog_def bpin_def setb_def)
    from bc.pin [OF inv h lim]
    have p: "cache_inv d (bpin i s)" "bio_frame s (bpin i s)" "hold d (bpin i s) = hold d s" "blk d (bpin i s) = blk d s"
      "disk (bpin i s) = disk s" "dhist (bpin i s) = dhist s" "refs d (bpin i s) = (refs d s)(b := refs d s b + 1)"
      "busy d (bpin i s) = busy d s" by simp_all
    have "hold d ?s = hold d (bpin i s)" by (rule cache_cong(5)) simp_all
    moreover have "txn_frame s ?s"
      unfolding txn_frame_def using bio_frame_setlog [OF p(2), of ?f] kp
      by (intro exI [of _ "\<lparr>lh_n = int n + 1, lh_block = ?ws[n := b]\<rparr>"])
    moreover have lg': "logged ?s = logged s @ [b]"
      using n l(1) unfolding lg by (simp add: logged_def kp take_Suc_conv_app_nth nat_add_distrib Suc_nat_eq_nat_zadd1)
    ultimately show thesis
      using that [of ?s] lw p False l n by (simp add: lg kp)
  qed
qed

lemma txnD:
  assumes "txn d s"
  shows "cache_inv d s" "length (logged s) = nat (lh_n (lg_lh (klog s)))" "lh_n (lg_lh (klog s)) = int (length (logged s))"
    "1 \<le> lg_outstanding (klog s)" "length (lh_block (lg_lh (klog s))) = LOGBLOCKS" "lg_dev (klog s) = d"
  using assms by (auto simp: txn_def logged_def)

text \<open>The three parts of an update: reading a block, changing and logging it, and releasing it.\<close>

lemma txn_read:
  assumes tx: "txn d s" and nb: "\<not> busy d s b" and lim: "refs d s b < 2 ^ 32 - 1" and room: "refs d s b \<noteq> 0 \<or> in_use d s < NBUF"
  obtains i s1 where "bread d b s = Some (i, s1)" "txn d s1" "bio_frame s s1" "hold d s1 i b" "b_data (getb s1 i) = blk d s b"
    "blk d s1 = blk d s" "disk s1 = disk s" "dhist s1 = dhist s" "refs d s1 = (refs d s)(b := refs d s b + 1)"
    "busy d s1 = (busy d s)(b := True)" "logged s1 = logged s" "\<forall>j c. hold d s j c \<longrightarrow> hold d s1 j c"
proof -
  note D = txnD [OF tx]
  have cd: "refs d s b \<noteq> 0 \<or> card {c. refs d s c \<noteq> 0} < NBUF" using room by (simp add: in_use_def)
  obtain i s1 where 1: "bread d b s = Some (i, s1)" "cache_inv d s1" "bio_frame s s1" "hold d s1 i b" "blk d s1 = blk d s" "disk s1 = disk s"
    "dhist s1 = dhist s" "refs d s1 = (refs d s)(b := refs d s b + 1)" "busy d s1 = (busy d s)(b := True)"
    "\<forall>j c. hold d s j c \<longrightarrow> hold d s1 j c"
    using bc.rd [OF D(1) nb cd lim] by blast
  have k: "klog s1 = klog s" by (rule bio_frame_keeps(6) [OF 1(3)])
  then have "logged s1 = logged s" by (simp add: logged_def)
  moreover have "txn d s1" using tx 1 k by (simp add: txn_def logged_def)
  moreover have "b_data (getb s1 i) = blk d s b" using bc.holdD [OF 1(2,4)] 1(5) by simp
  ultimately show thesis using that 1 by blast
qed

lemma txn_held_update:
  assumes tx: "txn d s" and h: "hold d s i b" and lim: "refs d s b < 2 ^ 32 - 1" and len: "length (f (blk d s b)) = BSIZE"
    and space: "length (logged s) < LOGBLOCKS"
  obtains s' where "log_write i (set_data i f s) = Some s'" "txn d s'" "txn_frame s s'" "hold d s' = hold d s"
    "blk d s' = (blk d s)(b := f (blk d s b))" "disk s' = disk s" "dhist s' = dhist s" "busy d s' = busy d s"
    "refs d s' = (refs d s)(b := refs d s b + (if b \<in> set (logged s) then 0 else 1))"
    "logged s' = (if b \<in> set (logged s) then logged s else logged s @ [b])"
proof -
  note D = txnD [OF tx]
  let ?u = "set_data i f s"
  from bc.upd [OF D(1) h, of f, OF len]
  have 2: "cache_inv d ?u" "bio_frame s ?u" "hold d ?u i b" "blk d ?u = (blk d s)(b := f (blk d s b))" "disk ?u = disk s"
    "dhist ?u = dhist s" "refs d ?u = refs d s" "busy d ?u = busy d s" "hold d ?u = hold d s" using h by simp_all
  have k: "klog ?u = klog s" by (rule bio_frame_keeps(6) [OF 2(2)])
  then have lg: "logged ?u = logged s" by (simp add: logged_def)
  obtain s2 where 3: "log_write i ?u = Some s2" "cache_inv d s2" "txn_frame ?u s2" "hold d s2 = hold d ?u" "blk d s2 = blk d ?u"
    "disk s2 = disk ?u" "dhist s2 = dhist ?u" "busy d s2 = busy d ?u"
    "refs d s2 = (refs d ?u)(b := refs d ?u b + (if b \<in> set (logged s) then 0 else 1))"
    "logged s2 = (if b \<in> set (logged s) then logged s else logged s @ [b])"
    "length (lh_block (lg_lh (klog s2))) = LOGBLOCKS" "lh_n (lg_lh (klog s2)) = int (length (logged s2))"
    by (rule log_write_spec [OF 2(1,3), unfolded k lg]) (use D space lim 2(7) in simp_all)
  have f2: "txn_frame s s2" by (rule txn_frame_trans [OF txn_frame_bio [OF 2(2)] 3(3)])
  have rb: "refs d s b \<noteq> 0" using bc.holdD [OF D(1) h] by simp
  have o: "distinct (logged s)" "\<forall>c\<in>set (logged s). refs d s c \<noteq> 0" "\<forall>c. c \<notin> set (logged s) \<longrightarrow> blk d s c = disk s c"
    using tx by (simp_all add: txn_def)
  have "distinct (logged s2)" "set (logged s2) = insert b (set (logged s))" "length (logged s2) \<le> LOGBLOCKS"
    using 3(10) o(1) space by auto
  moreover have "\<forall>c\<in>insert b (set (logged s)). refs d s2 c \<noteq> 0" using 3(9) 2(7) rb o(2) by simp
  moreover have "\<forall>c. c \<notin> insert b (set (logged s)) \<longrightarrow> blk d s2 c = disk s2 c" using 3(5,6) 2(4,5) o(3) by simp
  ultimately have "txn d s2"
    using 3(2,11,12) D(4,6) txn_frame_keeps(8,9) [OF f2] unfolding txn_def by simp
  then show thesis using that [of s2] 3 2 f2 by simp
qed

lemma txn_release:
  assumes tx: "txn d s" and h: "hold d s i b" and lg: "b \<in> set (logged s) \<longrightarrow> 1 < refs d s b"
  obtains s' where "brelse i s = Some s'" "txn d s'" "bio_frame s s'" "blk d s' = blk d s" "disk s' = disk s" "dhist s' = dhist s"
    "refs d s' = (refs d s)(b := refs d s b - 1)" "busy d s' = (busy d s)(b := False)" "logged s' = logged s"
    "\<forall>j c. c \<noteq> b \<longrightarrow> hold d s j c \<longrightarrow> hold d s' j c"
proof -
  note D = txnD [OF tx]
  have "1 < refs d s b \<or> blk d s b = disk s b" using lg tx by (auto simp: txn_def)
  then obtain s' where 4: "brelse i s = Some s'" "cache_inv d s'" "bio_frame s s'" "blk d s' = blk d s" "disk s' = disk s"
    "dhist s' = dhist s" "refs d s' = (refs d s)(b := refs d s b - 1)" "busy d s' = (busy d s)(b := False)"
    "\<forall>j c. c \<noteq> b \<longrightarrow> hold d s j c \<longrightarrow> hold d s' j c"
    using bc.rel [OF D(1) h] by blast
  have k: "klog s' = klog s" by (rule bio_frame_keeps(6) [OF 4(3)])
  then have "logged s' = logged s" by (simp add: logged_def)
  moreover have "txn d s'" using tx 4 k lg by (auto simp: txn_def logged_def)
  ultimately show thesis using that 4 by blast
qed

lemma logged_update:
  assumes tx: "txn d s" and nb: "\<not> busy d s b" and lim: "refs d s b + 1 < 2 ^ 32 - 1"
    and room: "refs d s b \<noteq> 0 \<or> in_use d s < NBUF" and len: "length (f (blk d s b)) = BSIZE" and space: "length (logged s) < LOGBLOCKS"
  obtains i s1 s2 s' where "bread d b s = Some (i, s1)" "b_data (getb s1 i) = blk d s b" "bio_frame s s1"
    "log_write i (set_data i f s1) = Some s2" "brelse i s2 = Some s'" "txn d s'" "txn_frame s s'" "txn_frame s s2"
    "blk d s' = (blk d s)(b := f (blk d s b))" "disk s' = disk s" "dhist s' = dhist s" "busy d s' = busy d s"
    "refs d s' = (refs d s)(b := refs d s b + (if b \<in> set (logged s) then 0 else 1))"
    "logged s' = (if b \<in> set (logged s) then logged s else logged s @ [b])" "\<forall>j c. hold d s j c \<longrightarrow> hold d s' j c"
proof -
  have l1: "refs d s b < 2 ^ 32 - 1" using lim by simp
  obtain i s1 where 1: "bread d b s = Some (i, s1)" "txn d s1" "bio_frame s s1" "hold d s1 i b" "b_data (getb s1 i) = blk d s b"
    "blk d s1 = blk d s" "disk s1 = disk s" "dhist s1 = dhist s" "refs d s1 = (refs d s)(b := refs d s b + 1)"
    "busy d s1 = (busy d s)(b := True)" "logged s1 = logged s" "\<forall>j c. hold d s j c \<longrightarrow> hold d s1 j c"
    by (rule txn_read [OF tx nb l1 room])
  obtain s2 where 2: "log_write i (set_data i f s1) = Some s2" "txn d s2" "txn_frame s1 s2" "hold d s2 = hold d s1"
    "blk d s2 = (blk d s1)(b := f (blk d s1 b))" "disk s2 = disk s1" "dhist s2 = dhist s1" "busy d s2 = busy d s1"
    "refs d s2 = (refs d s1)(b := refs d s1 b + (if b \<in> set (logged s1) then 0 else 1))"
    "logged s2 = (if b \<in> set (logged s1) then logged s1 else logged s1 @ [b])"
    by (rule txn_held_update [OF 1(2,4), of f]) (use lim len space 1 in simp_all)
  have h2: "hold d s2 i b" using 2(4) 1(4) by simp
  have r: "b \<in> set (logged s2) \<longrightarrow> 1 < refs d s2 b" using 2(9) 1(9,11) tx by (auto simp: txn_def)
  obtain s' where 3: "brelse i s2 = Some s'" "txn d s'" "bio_frame s2 s'" "blk d s' = blk d s2" "disk s' = disk s2" "dhist s' = dhist s2"
    "refs d s' = (refs d s2)(b := refs d s2 b - 1)" "busy d s' = (busy d s2)(b := False)" "logged s' = logged s2"
    "\<forall>j c. c \<noteq> b \<longrightarrow> hold d s2 j c \<longrightarrow> hold d s' j c"
    by (rule txn_release [OF 2(2) h2 r])
  have f2: "txn_frame s s2" by (rule txn_frame_trans [OF txn_frame_bio [OF 1(3)] 2(3)])
  have f': "txn_frame s s'" by (rule txn_frame_trans [OF f2 txn_frame_bio [OF 3(3)]])
  have hk: "hold d s' j c" if "hold d s j c" for j c
  proof -
    have "c \<noteq> b" using bc.holdD [OF txnD(1) [OF tx] that] nb by auto
    moreover have "hold d s2 j c" using that 1(12) 2(4) by simp
    ultimately show ?thesis using 3(10) by blast
  qed
  have rf: "refs d s' = (refs d s)(b := refs d s b + (if b \<in> set (logged s) then 0 else 1))"
    using 3(7) 2(9) 1(9,11) by (auto simp: fun_eq_iff)
  have bz: "busy d s' = busy d s" using 3(8) 2(8) 1(10) nb by (simp add: fun_eq_iff)
  show thesis using that [of i s1 s2 s'] 1 2 3 f2 f' rf bz hk by simp
qed

lemma logged_peek:
  assumes tx: "txn d s" and nb: "\<not> busy d s b" and lim: "refs d s b < 2 ^ 32 - 1" and room: "refs d s b \<noteq> 0 \<or> in_use d s < NBUF"
  obtains i s1 s' where "bread d b s = Some (i, s1)" "b_data (getb s1 i) = blk d s b" "bio_frame s s1" "brelse i s1 = Some s'" "txn d s'"
    "bio_frame s s'" "blk d s' = blk d s" "disk s' = disk s" "dhist s' = dhist s" "busy d s' = busy d s" "refs d s' = refs d s"
    "logged s' = logged s" "\<forall>j c. hold d s j c \<longrightarrow> hold d s' j c"
proof -
  obtain i s1 where 1: "bread d b s = Some (i, s1)" "txn d s1" "bio_frame s s1" "hold d s1 i b" "b_data (getb s1 i) = blk d s b"
    "blk d s1 = blk d s" "disk s1 = disk s" "dhist s1 = dhist s" "refs d s1 = (refs d s)(b := refs d s b + 1)"
    "busy d s1 = (busy d s)(b := True)" "logged s1 = logged s" "\<forall>j c. hold d s j c \<longrightarrow> hold d s1 j c"
    by (rule txn_read [OF tx nb lim room])
  have r: "b \<in> set (logged s1) \<longrightarrow> 1 < refs d s1 b" using 1(9,11) tx by (auto simp: txn_def)
  obtain s' where 3: "brelse i s1 = Some s'" "txn d s'" "bio_frame s1 s'" "blk d s' = blk d s1" "disk s' = disk s1" "dhist s' = dhist s1"
    "refs d s' = (refs d s1)(b := refs d s1 b - 1)" "busy d s' = (busy d s1)(b := False)" "logged s' = logged s1"
    "\<forall>j c. c \<noteq> b \<longrightarrow> hold d s1 j c \<longrightarrow> hold d s' j c"
    by (rule txn_release [OF 1(2,4) r])
  have hk: "hold d s' j c" if "hold d s j c" for j c
  proof -
    have "c \<noteq> b" using bc.holdD [OF txnD(1) [OF tx] that] nb by auto
    then show ?thesis using that 1(12) 3(10) by blast
  qed
  have "refs d s' = refs d s" "busy d s' = busy d s" using 3(7,8) 1(9,10) nb by (auto simp: fun_eq_iff)
  then show thesis using that [of i s1 s'] 1 3 hk bio_frame_trans [OF 1(3) 3(3)] by simp
qed

text \<open>Blocks that are not locked, buffers and log slots for \<open>k\<close> more updates.\<close>

definition ample :: "u32 \<Rightarrow> 'a kfs_scheme \<Rightarrow> u32 set \<Rightarrow> nat \<Rightarrow> bool" where
  "ample d s B k \<longleftrightarrow> (\<forall>b\<in>B. \<not> busy d s b \<and> refs d s b + k < 2 ^ 32 - 1) \<and> in_use d s + k \<le> NBUF \<and> length (logged s) + k \<le> LOGBLOCKS"

lemma in_use_add:
  assumes "refs d s' = (refs d s)(b := refs d s b + m)"
  shows "in_use d s' \<le> in_use d s + 1"
proof -
  have "{c. refs d s' c \<noteq> 0} \<subseteq> insert b {c. refs d s c \<noteq> 0}" using assms by auto
  then have "card {c. refs d s' c \<noteq> 0} \<le> card (insert b {c. refs d s c \<noteq> 0})" by (intro card_mono) simp_all
  also have "\<dots> \<le> Suc (card {c. refs d s c \<noteq> 0})" by (rule card_insert_le_m1) simp_all
  finally show ?thesis by (simp add: in_use_def)
qed

lemma ample_step:
  assumes "ample d s B (Suc k)" "busy d s' = busy d s"
    "refs d s' = (refs d s)(b := refs d s b + (if b \<in> set (logged s) then 0 else 1))"
    "logged s' = (if b \<in> set (logged s) then logged s else logged s @ [b])"
  shows "ample d s' B k"
proof -
  have r: "refs d s' c \<le> refs d s c + 1" for c using assms(3) by simp
  have "refs d s' c + k < 2 ^ 32 - 1" if "c \<in> B" for c using assms(1) r [of c] that by (force simp: ample_def)
  moreover have "in_use d s' + k \<le> NBUF" using in_use_add [OF assms(3)] assms(1) by (simp add: ample_def)
  moreover have "length (logged s') + k \<le> LOGBLOCKS" using assms(1,4) by (simp add: ample_def)
  ultimately show ?thesis using assms(1,2) by (simp add: ample_def)
qed

lemma ample_same: "ample d s B k \<Longrightarrow> busy d s' = busy d s \<Longrightarrow> refs d s' = refs d s \<Longrightarrow> logged s' = logged s \<Longrightarrow> ample d s' B k"
  by (simp add: ample_def in_use_def)

section \<open>The block bitmap\<close>

lemma bit_mask_bit: "bit (bit_mask k) j \<longleftrightarrow> j = k mod 8"
proof -
  have "k mod 8 < 8" by simp
  then show ?thesis by (auto simp: bit_mask_def bit_exp_iff)
qed

lemma bit_used_bit: "bit_used bs k \<longleftrightarrow> bit (bs ! (k div 8)) (k mod 8)"
proof -
  have "bs ! (k div 8) AND bit_mask k \<noteq> 0 \<longleftrightarrow> (\<exists>j. bit (bs ! (k div 8) AND bit_mask k) j)"
    by (metis bit_0_eq bot_apply bot_bool_def bit_eqI)
  then show ?thesis by (simp add: bit_used_def bit_and_iff bit_mask_bit)
qed

lemma used_set_used:
  assumes "length bs = BSIZE" "k < BPB"
  shows "bit_used (set_used k bs) j \<longleftrightarrow> j = k \<or> bit_used bs j" "bit_used (set_unused k bs) j \<longleftrightarrow> j \<noteq> k \<and> bit_used bs j"
proof -
  have k: "k div 8 < length bs" using assms by simp
  have eq: "j = k \<longleftrightarrow> j div 8 = k div 8 \<and> j mod 8 = k mod 8" by (metis div_mult_mod_eq)
  have m: "j mod 8 < 8" by simp
  show "bit_used (set_used k bs) j \<longleftrightarrow> j = k \<or> bit_used bs j" "bit_used (set_unused k bs) j \<longleftrightarrow> j \<noteq> k \<and> bit_used bs j"
    using k eq m by (auto simp: bit_used_bit set_used_def set_unused_def nth_list_update bit_or_iff bit_and_iff bit_not_iff bit_mask_bit)
qed

lemma set_unused_neq: "set_unused \<noteq> set_used"
proof
  assume e: "set_unused = set_used"
  have "\<not> bit_used (set_unused 0 (replicate BSIZE 0)) 0" "bit_used (set_used 0 (replicate BSIZE 0)) 0"
    by (simp_all add: used_set_used)
  then show False by (simp add: e)
qed

lemma length_set_used [simp]: "length (set_used k bs) = length bs" "length (set_unused k bs) = length bs"
  by (simp_all add: set_used_def set_unused_def)

definition used :: "u32 \<Rightarrow> 'a kfs_scheme \<Rightarrow> nat \<Rightarrow> bool" where
  "used d s x \<longleftrightarrow> bit_used (blk d s (BBLOCK (of_nat x) (sb s))) (x mod BPB)"

lemma BBLOCK_nat: "x < 2 ^ 32 \<Longrightarrow> BBLOCK (of_nat x) sblk = of_nat (x div BPB) + sb_bmapstart sblk"
proof -
  assume "x < 2 ^ 32"
  then have "unat (of_nat x :: u32) = x" by (simp add: unat_of_nat)
  then have "of_nat x div (of_nat BPB :: u32) = of_nat (x div BPB)" by (simp add: word_arith_nat_div)
  then show ?thesis by (simp only: BBLOCK_def)
qed

text \<open>References only grow, by at most \<open>m\<close>, and a block that has joined the transaction has gained one.\<close>

definition refs_grew :: "u32 \<Rightarrow> nat \<Rightarrow> 'a kfs_scheme \<Rightarrow> 'a kfs_scheme \<Rightarrow> bool" where
  "refs_grew d m s s' \<longleftrightarrow> (\<forall>c. refs d s c \<le> refs d s' c \<and> refs d s' c \<le> refs d s c + m) \<and>
     (\<forall>c. c \<in> set (logged s') \<longrightarrow> c \<in> set (logged s) \<or> refs d s c < refs d s' c)"

lemma refs_grew_step:
  "refs d s' = (refs d s)(b := refs d s b + (if b \<in> set (logged s) then 0 else 1)) \<Longrightarrow>
   logged s' = (if b \<in> set (logged s) then logged s else logged s @ [b]) \<Longrightarrow> refs_grew d 1 s s'"
  by (auto simp: refs_grew_def)

lemma refs_grew_trans: "refs_grew d m s t \<Longrightarrow> refs_grew d n t u \<Longrightarrow> refs_grew d (m + n) s u"
  unfolding refs_grew_def by (smt (verit) add.assoc add_le_mono1 le_trans less_le_trans le_less_trans)

lemma refs_grew_same: "refs d t = refs d s \<Longrightarrow> logged t = logged s \<Longrightarrow> refs_grew d m t u = refs_grew d m s u"
  by (simp add: refs_grew_def)

lemma bzero_spec:
  assumes "txn d s" "ample d s B (Suc k)" "b \<in> B"
  shows "\<exists>s'. bzero d b s = Some s' \<and> txn d s' \<and> txn_frame s s' \<and> blk d s' = (blk d s)(b := replicate BSIZE 0) \<and>
    disk s' = disk s \<and> dhist s' = dhist s \<and> busy d s' = busy d s \<and> ample d s' B k \<and> (\<forall>j c. hold d s j c \<longrightarrow> hold d s' j c) \<and>
    refs_grew d 1 s s'"
proof -
  have a: "\<not> busy d s b" "refs d s b + 1 < 2 ^ 32 - 1" "refs d s b \<noteq> 0 \<or> in_use d s < NBUF" "length (logged s) < LOGBLOCKS"
    using assms(2,3) by (auto simp: ample_def)
  have l: "length ((\<lambda>_. replicate BSIZE 0) (blk d s b)) = BSIZE" by simp
  obtain i s1 s2 s' where u: "bread d b s = Some (i, s1)" "log_write i (set_data i (\<lambda>_. replicate BSIZE 0) s1) = Some s2"
    "brelse i s2 = Some s'" "txn d s'" "txn_frame s s'" "blk d s' = (blk d s)(b := replicate BSIZE 0)" "disk s' = disk s"
    "dhist s' = dhist s" "busy d s' = busy d s" "refs d s' = (refs d s)(b := refs d s b + (if b \<in> set (logged s) then 0 else 1))"
    "logged s' = (if b \<in> set (logged s) then logged s else logged s @ [b])" "\<forall>j c. hold d s j c \<longrightarrow> hold d s' j c"
    by (rule logged_update [OF assms(1) a(1-3) l a(4)])
  have "bzero d b s = Some s'" using u(1-3) by (simp add: bzero_def)
  moreover have "ample d s' B k" by (rule ample_step [OF assms(2) u(9-11)])
  moreover have "refs_grew d 1 s s'" by (rule refs_grew_step [OF u(10,11)])
  ultimately show ?thesis using u by blast
qed

lemma find_shift: "find P [b..<b + m] = map_option ((+) b) (find (\<lambda>i. P (b + i)) [0..<m])"
proof -
  have "[b..<b + m] = map ((+) b) [0..<m]" by (rule nth_equalityI) simp_all
  moreover have "find P (map ((+) b) xs) = map_option ((+) b) (find (\<lambda>i. P (b + i)) xs)" for xs by (induction xs) auto
  ultimately show ?thesis by simp
qed

lemma find_append: "find P (xs @ ys) = (case find P xs of None \<Rightarrow> find P ys | Some x \<Rightarrow> Some x)"
  by (induction xs) auto

text \<open>The numbers the scan from bitmap offset \<open>b\<close> on looks at.\<close>

definition scan :: "nat \<Rightarrow> nat \<Rightarrow> nat list" where
  "scan sz b = [b..<b + min BPB (sz - b)]"

lemma scan_all: "concat (map (scan sz) (map (\<lambda>k. k * BPB) [0..<n])) = [0..<min (n * BPB) sz]"
proof (induction n)
  case (Suc n)
  have "[0..<min (n * BPB) sz] @ scan sz (n * BPB) = [0..<min (Suc n * BPB) sz]"
  proof (cases "n * BPB \<le> sz")
    case True
    then have "min (n * BPB) sz = n * BPB" "n * BPB + min BPB (sz - n * BPB) = min (Suc n * BPB) sz" by auto
    then show ?thesis unfolding scan_def using upt_add_eq_append [of 0 "n * BPB" "min BPB (sz - n * BPB)"] by simp
  qed (simp add: scan_def)
  then show ?case using Suc by simp
qed simp

lemma scan_bitmap_starts: "concat (map (scan sz) (bitmap_starts sz)) = [0..<sz]"
proof -
  have "sz \<le> (sz + BPB - 1) div BPB * BPB" using div_mult_mod_eq [of "sz + BPB - 1" BPB] mod_less_divisor [of BPB "sz + BPB - 1"] by linarith
  then show ?thesis unfolding bitmap_starts_def scan_all by (simp add: min_absorb2)
qed

lemma scan_used:
  assumes "b mod BPB = 0" "b + bi < 2 ^ 32" "bi < BPB"
  shows "used d s (b + bi) \<longleftrightarrow> bit_used (blk d s (BBLOCK (of_nat b) (sb s))) bi"
    "BBLOCK (of_nat (b + bi)) (sb s) = BBLOCK (of_nat b) (sb s)" "(b + bi) mod BPB = bi"
proof -
  obtain q where q: "b = BPB * q" using assms(1) by (auto simp: mod_eq_0_iff_dvd elim: dvdE)
  have m: "(b + bi) mod BPB = bi" "(b + bi) div BPB = b div BPB" using q assms(3) by simp_all
  then show e: "BBLOCK (of_nat (b + bi)) (sb s) = BBLOCK (of_nat b) (sb s)" "(b + bi) mod BPB = bi"
    using BBLOCK_nat [of "b + bi" "sb s"] BBLOCK_nat [of b "sb s"] assms(2) by simp_all
  then show "used d s (b + bi) \<longleftrightarrow> bit_used (blk d s (BBLOCK (of_nat b) (sb s))) bi" by (simp add: used_def)
qed

definition bitmap_blocks :: "'a kfs_scheme \<Rightarrow> u32 set" where
  "bitmap_blocks s = (\<lambda>x. BBLOCK (of_nat x) (sb s)) ` {..<unat (sb_size (sb s))}"

lemma bitmap_blocksI: "x < unat (sb_size (sb s)) \<Longrightarrow> BBLOCK (of_nat x) (sb s) \<in> bitmap_blocks s"
  by (simp add: bitmap_blocks_def)

text \<open>What a call that returned block \<open>x\<close> has done.\<close>

definition allocated :: "u32 \<Rightarrow> nat \<Rightarrow> 'a kfs_scheme \<Rightarrow> 'a kfs_scheme \<Rightarrow> bool" where
  "allocated d x s s' \<longleftrightarrow> txn d s' \<and> txn_frame s s' \<and> disk s' = disk s \<and> dhist s' = dhist s \<and> busy d s' = busy d s \<and>
     (\<forall>j c. hold d s j c \<longrightarrow> hold d s' j c) \<and> refs_grew d 2 s s' \<and>
     (let bb = BBLOCK (of_nat x) (sb s)
      in blk d s' = (blk d s)(bb := set_used (x mod BPB) (blk d s bb), of_nat x := replicate BSIZE 0))"

text \<open>What a call that found no block has done: it has printed a message.\<close>

definition exhausted :: "u32 \<Rightarrow> 'a kfs_scheme \<Rightarrow> 'a kfs_scheme \<Rightarrow> bool" where
  "exhausted d s s' \<longleftrightarrow> txn d s' \<and> fs_frame s s' \<and> blk d s' = blk d s \<and> disk s' = disk s \<and> dhist s' = dhist s \<and>
     busy d s' = busy d s \<and> refs d s' = refs d s \<and> logged s' = logged s \<and> (\<forall>j c. hold d s j c \<longrightarrow> hold d s' j c)"

lemma out_of_blocks: "\<exists>out. kprint (''balloc: out of blocks'' @ [CHR 0x0A]) [] s = Some (s\<lparr>conout := out\<rparr>)"
  by (simp add: kprint_def str_def) (rule exI, rule refl)

lemma balloc_loop_spec:
  assumes "txn d s" "ample d s B (Suc (Suc k))" "bitmap_blocks s \<subseteq> B" "sz = unat (sb_size (sb s))"
    and "\<And>x. x < sz \<Longrightarrow> \<not> used d s x \<Longrightarrow> of_nat x \<in> B" "\<And>b. b \<in> set bs \<Longrightarrow> b mod BPB = 0 \<and> b < sz"
  shows "case find (\<lambda>x. \<not> used d s x) (concat (map (scan sz) bs)) of
      None \<Rightarrow> \<exists>s'. balloc_loop d bs s = Some (0, s') \<and> exhausted d s s'
    | Some x \<Rightarrow> \<exists>s'. balloc_loop d bs s = Some (of_nat x, s') \<and> allocated d x s s' \<and> ample d s' B k"
  using assms
proof (induction bs arbitrary: s)
  case Nil
  obtain out where o: "kprint (''balloc: out of blocks'' @ [CHR 0x0A]) [] s = Some (s\<lparr>conout := out\<rparr>)"
    using out_of_blocks by blast
  have c: "cache_inv d (s\<lparr>conout := out\<rparr>) = cache_inv d s" "blk d (s\<lparr>conout := out\<rparr>) = blk d s" "refs d (s\<lparr>conout := out\<rparr>) = refs d s"
    "busy d (s\<lparr>conout := out\<rparr>) = busy d s" "hold d (s\<lparr>conout := out\<rparr>) = hold d s"
    by (rule cache_cong; simp)+
  have "txn d (s\<lparr>conout := out\<rparr>)" using Nil.prems(1) c by (simp add: txn_def logged_def)
  moreover have "fs_frame s (s\<lparr>conout := out\<rparr>)" unfolding fs_frame_def using txn_frame_bio [OF bio_frame_refl] by blast
  ultimately show ?case using o c by (simp add: exhausted_def logged_def)
next
  case (Cons b bs)
  let ?bb = "BBLOCK (of_nat b) (sb s)"
  have b: "b mod BPB = 0" "b < sz" using Cons.prems(6) by auto
  have sz: "sz < 2 ^ 32" using Cons.prems(4) unsigned_less [of "sb_size (sb s)"] by simp
  have bb: "?bb \<in> B" using Cons.prems(3,4) b(2) by (auto simp: bitmap_blocks_def)
  have a: "\<not> busy d s ?bb" "refs d s ?bb + 1 < 2 ^ 32 - 1" "refs d s ?bb < 2 ^ 32 - 1" "refs d s ?bb \<noteq> 0 \<or> in_use d s < NBUF"
    "length (logged s) < LOGBLOCKS" using Cons.prems(2) bb by (auto simp: ample_def)
  let ?P = "\<lambda>bi. \<not> bit_used (blk d s ?bb) bi" and ?m = "min BPB (sz - b)"
  have us: "used d s (b + bi) \<longleftrightarrow> bit_used (blk d s ?bb) bi" if "bi < ?m" for bi
    by (rule scan_used(1)) (use that b sz in auto)
  have "find (\<lambda>i. \<not> used d s (b + i)) [0..<?m] = find ?P [0..<?m]" by (rule find_cong) (simp_all add: us)
  then have fs: "find (\<lambda>x. \<not> used d s x) (scan sz b) = map_option ((+) b) (find ?P [0..<?m])"
    unfolding scan_def find_shift by simp
  show ?case
  proof (cases "find ?P [0..<?m]")
    case (Some bi)
    then have bi: "bi < ?m" "?P bi" by (auto simp: find_Some_iff)
    have su: "BBLOCK (of_nat (b + bi)) (sb s) = ?bb" "(b + bi) mod BPB = bi" if "b + bi < 2 ^ 32" "bi < BPB"
      using scan_used(2,3) [OF b(1) that] by simp_all
    have lb: "b + bi < 2 ^ 32" "bi < BPB" using bi(1) b sz by auto
    have len: "length (set_used bi (blk d s ?bb)) = BSIZE" using blk_length [OF txnD(1) [OF Cons.prems(1)]] by simp
    obtain i s1 s2 s' where u: "bread d ?bb s = Some (i, s1)" "b_data (getb s1 i) = blk d s ?bb" "bio_frame s s1"
      "log_write i (set_data i (set_used bi) s1) = Some s2" "brelse i s2 = Some s'" "txn d s'" "txn_frame s s'" "txn_frame s s2"
      "blk d s' = (blk d s)(?bb := set_used bi (blk d s ?bb))" "disk s' = disk s" "dhist s' = dhist s" "busy d s' = busy d s"
      "refs d s' = (refs d s)(?bb := refs d s ?bb + (if ?bb \<in> set (logged s) then 0 else 1))"
      "logged s' = (if ?bb \<in> set (logged s) then logged s else logged s @ [?bb])" "\<forall>j c. hold d s j c \<longrightarrow> hold d s' j c"
      by (rule logged_update [where f = "set_used bi", OF Cons.prems(1) a(1,2,4) len a(5)])
    have am: "ample d s' B (Suc k)" by (rule ample_step [OF Cons.prems(2) u(12-14)])
    have "\<not> used d s (b + bi)" "b + bi < sz" using us bi by auto
    then have "of_nat (b + bi) \<in> B" using Cons.prems(5) by blast
    from bzero_spec [OF u(6) am this]
    obtain s'' where z: "bzero d (of_nat (b + bi)) s' = Some s''" "txn d s''" "txn_frame s' s''"
      "blk d s'' = (blk d s')(of_nat (b + bi) := replicate BSIZE 0)" "disk s'' = disk s'" "dhist s'' = dhist s'" "busy d s'' = busy d s'" "ample d s'' B k"
      "\<forall>j c. hold d s' j c \<longrightarrow> hold d s'' j c" "refs_grew d 1 s' s''"
      by blast
    have rz: "refs_grew d 2 s s''" using refs_grew_trans [OF refs_grew_step [OF u(13,14)] z(10)] by (simp add: numeral_2_eq_2)
    have sb1: "sb s1 = sb s" by (rule bio_frame_keeps(7) [OF u(3)])
    have "balloc_loop d (b # bs) s = Some (of_nat (b + bi), s'')"
      using u(1,2,4,5) z(1) Some sb1 Cons.prems(4) by (simp del: of_nat_add)
    moreover have "allocated d (b + bi) s s''"
      using z(2-9) u(9-12,15) rz txn_frame_trans [OF u(7) z(3)] su [OF lb] by (simp add: allocated_def Let_def del: of_nat_add)
    ultimately show ?thesis using fs Some z(8) by (simp add: find_append del: of_nat_add balloc_loop.simps)
  next
    case None
    obtain i s1 s' where u: "bread d ?bb s = Some (i, s1)" "b_data (getb s1 i) = blk d s ?bb" "bio_frame s s1" "brelse i s1 = Some s'"
      "txn d s'" "bio_frame s s'" "blk d s' = blk d s" "disk s' = disk s" "dhist s' = dhist s" "busy d s' = busy d s"
      "refs d s' = refs d s" "logged s' = logged s" "\<forall>j c. hold d s j c \<longrightarrow> hold d s' j c"
      by (rule logged_peek [OF Cons.prems(1) a(1,3,4)])
    have sb: "sb s1 = sb s" "sb s' = sb s" using bio_frame_keeps(7) u(3,6) by blast+
    have e: "balloc_loop d (b # bs) s = balloc_loop d bs s'" using u(1,2,4) None sb(1) Cons.prems(4) by simp
    have us': "used d s' = used d s" using u(7) sb(2) by (simp add: used_def fun_eq_iff)
    have am: "ample d s' B (Suc (Suc k))" by (rule ample_same [OF Cons.prems(2) u(10-12)])
    have tr: "allocated d x s' s'' \<Longrightarrow> allocated d x s s''" for x s''
      using u(7-13) sb(2) txn_frame_trans [OF txn_frame_bio [OF u(6)]] refs_grew_same [OF u(11,12)] by (simp add: allocated_def Let_def)
    have tx: "exhausted d s' s'' \<Longrightarrow> exhausted d s s''" for s''
      using u(7-13) fs_frame_trans [OF fs_frame_txn [OF txn_frame_bio [OF u(6)]]] by (simp add: exhausted_def)
    have "case find (\<lambda>x. \<not> used d s' x) (concat (map (scan sz) bs)) of
        None \<Rightarrow> \<exists>t. balloc_loop d bs s' = Some (0, t) \<and> exhausted d s' t
      | Some x \<Rightarrow> \<exists>t. balloc_loop d bs s' = Some (of_nat x, t) \<and> allocated d x s' t \<and> ample d t B k"
      by (rule Cons.IH [OF u(5) am]) (use Cons.prems us' sb in \<open>auto simp: bitmap_blocks_def\<close>)
    then show ?thesis
      using fs None tr tx unfolding us' by (auto simp: find_append e simp del: balloc_loop.simps split: option.splits)
  qed
qed

lemma BBLOCK_eq:
  assumes "x < 2 ^ 32" "y < 2 ^ 32"
  shows "BBLOCK (of_nat x) sblk = BBLOCK (of_nat y) sblk \<longleftrightarrow> x div BPB = y div BPB"
proof
  assume "BBLOCK (of_nat x) sblk = BBLOCK (of_nat y) sblk"
  then have "of_nat (x div BPB) = (of_nat (y div BPB) :: u32)" using assms by (simp only: BBLOCK_nat add_right_cancel)
  then have "unat (of_nat (x div BPB) :: u32) = unat (of_nat (y div BPB) :: u32)" by (simp only:)
  moreover have "unat (of_nat k :: u32) = k" if "k < 2 ^ 32" for k using that by (simp add: unat_of_nat)
  moreover have "x div BPB < 2 ^ 32" "y div BPB < 2 ^ 32" using assms by (simp_all add: less_mult_imp_div_less)
  ultimately show "x div BPB = y div BPB" by metis
next
  assume "x div BPB = y div BPB"
  then show "BBLOCK (of_nat x) sblk = BBLOCK (of_nat y) sblk" using assms by (simp only: BBLOCK_nat)
qed

text \<open>How a change of the bit of \<open>x\<close> shows in the bitmap.\<close>

lemma used_update:
  assumes inv: "cache_inv d s" and x: "x < 2 ^ 32" and y: "y < 2 ^ 32" and sb: "sb s' = sb s"
    and b: "blk d s' (BBLOCK (of_nat y) (sb s)) =
      (if BBLOCK (of_nat y) (sb s) = BBLOCK (of_nat x) (sb s) then f (x mod BPB) (blk d s (BBLOCK (of_nat x) (sb s)))
       else blk d s (BBLOCK (of_nat y) (sb s)))"
    and f: "f = set_used \<or> f = set_unused"
  shows "used d s' y \<longleftrightarrow> (if y = x then f = set_used \<or> used d s x \<and> f \<noteq> set_unused else used d s y)"
proof -
  have l: "length (blk d s (BBLOCK (of_nat x) (sb s))) = BSIZE" by (rule blk_length [OF inv])
  have m: "x mod BPB < BPB" by simp
  have eq: "y = x \<longleftrightarrow> y div BPB = x div BPB \<and> y mod BPB = x mod BPB" by (metis div_mult_mod_eq)
  have ne: "set_used \<noteq> set_unused" using set_unused_neq by metis
  show ?thesis
    using f b eq BBLOCK_eq [OF y x, of "sb s"] used_set_used [OF l m, of "y mod BPB"] ne
    by (auto simp: used_def sb)
qed

lemma balloc_spec:
  assumes tx: "txn d s" and am: "ample d s B (Suc (Suc k))" and bm: "bitmap_blocks s \<subseteq> B"
    and free: "\<And>x. x < unat (sb_size (sb s)) \<Longrightarrow> \<not> used d s x \<Longrightarrow> of_nat x \<in> B - bitmap_blocks s"
  shows "case find (\<lambda>x. \<not> used d s x) [0..<unat (sb_size (sb s))] of
      None \<Rightarrow> \<exists>s'. balloc d s = Some (0, s') \<and> exhausted d s s'
    | Some x \<Rightarrow> \<exists>s'. balloc d s = Some (of_nat x, s') \<and> allocated d x s s' \<and> ample d s' B k"
proof -
  define sz where "sz = unat (sb_size (sb s))"
  have st: "b mod BPB = 0 \<and> b < sz" if bs: "b \<in> set (bitmap_starts sz)" for b
  proof -
    obtain k where k: "b = k * BPB" "k < (sz + BPB - 1) div BPB" using bs by (auto simp: bitmap_starts_def)
    then have "k * BPB + BPB \<le> (sz + BPB - 1) div BPB * BPB" by (metis Suc_leI mult_Suc add.commute mult_le_mono1)
    also have "\<dots> \<le> sz + BPB - 1" by (rule div_times_less_eq_dividend)
    finally show ?thesis using k by simp
  qed
  have fr: "of_nat x \<in> B" if "x < sz" "\<not> used d s x" for x using free that by (simp add: sz_def)
  have "case find (\<lambda>x. \<not> used d s x) (concat (map (scan sz) (bitmap_starts sz))) of
      None \<Rightarrow> \<exists>s'. balloc_loop d (bitmap_starts sz) s = Some (0, s') \<and> exhausted d s s'
    | Some x \<Rightarrow> \<exists>s'. balloc_loop d (bitmap_starts sz) s = Some (of_nat x, s') \<and> allocated d x s s' \<and> ample d s' B k"
    by (rule balloc_loop_spec [OF tx am bm sz_def]) (use fr st in blast)+
  then show ?thesis unfolding scan_bitmap_starts balloc_def sz_def .
qed

lemma allocated_used:
  assumes tx: "txn d s" and al: "allocated d x s s'" and x: "x < unat (sb_size (sb s))" and nb: "of_nat x \<notin> bitmap_blocks s"
  shows "\<forall>y<unat (sb_size (sb s)). used d s' y \<longleftrightarrow> y = x \<or> used d s y"
    "\<forall>b. b \<noteq> of_nat x \<and> b \<notin> bitmap_blocks s \<longrightarrow> blk d s' b = blk d s b"
proof -
  have sz32: "unat (sb_size (sb s)) < 2 ^ 32" using unsigned_less [of "sb_size (sb s)"] by simp
  let ?bb = "BBLOCK (of_nat x) (sb s)"
  have A: "sb s' = sb s" and bl: "blk d s' = (blk d s)(?bb := set_used (x mod BPB) (blk d s ?bb), of_nat x := replicate BSIZE 0)"
    using al txn_frame_keeps(1) by (auto simp: allocated_def Let_def)
  have "used d s' y \<longleftrightarrow> y = x \<or> used d s y" if "y < unat (sb_size (sb s))" for y
  proof -
    have "BBLOCK (of_nat y) (sb s) \<noteq> of_nat x" using nb that bitmap_blocksI by metis
    then have "used d s' y \<longleftrightarrow> (if y = x then set_used = set_used \<or> used d s x \<and> set_used \<noteq> set_unused else used d s y)"
      using that x sz32 bl by (intro used_update [OF txnD(1) [OF tx] _ _ A]) auto
    then show ?thesis by simp
  qed
  then show "\<forall>y<unat (sb_size (sb s)). used d s' y \<longleftrightarrow> y = x \<or> used d s y" by blast
  have "blk d s' b = blk d s b" if "b \<noteq> of_nat x" "b \<notin> bitmap_blocks s" for b
  proof -
    have "b \<noteq> ?bb" using that(2) x bitmap_blocksI by metis
    then show ?thesis using that(1) bl by simp
  qed
  then show "\<forall>b. b \<noteq> of_nat x \<and> b \<notin> bitmap_blocks s \<longrightarrow> blk d s' b = blk d s b" by blast
qed

section \<open>Inodes on disk\<close>

lemma get_put_inside:
  assumes "off + length xs \<le> length bs" "k + n \<le> length xs"
  shows "get_bytes (put_bytes bs off xs) (off + k) n = take n (drop k xs)"
  using assms by (simp add: get_bytes_def put_bytes_def)

lemma get16_inside:
  "off + length (as @ word_bytes 2 v @ cs) \<le> length bs \<Longrightarrow> length as = k \<Longrightarrow>
     get16 (put_bytes bs off (as @ word_bytes 2 v @ cs)) (off + k) = v"
  by (simp only: get16_def) (subst get_put_inside, auto simp: bytes_word_word_bytes)

lemma get32_inside:
  "off + length (as @ word_bytes 4 v @ cs) \<le> length bs \<Longrightarrow> length as = k \<Longrightarrow>
     get32 (put_bytes bs off (as @ word_bytes 4 v @ cs)) (off + k) = v"
  by (simp only: get32_def) (subst get_put_inside, auto simp: bytes_word_word_bytes)

lemma length_concat_words: "length (concat (map (word_bytes 4) ws)) = 4 * length ws"
  by (induction ws) simp_all

lemma length_dinode_bytes: "length (i_addrs ip) = NDIRECT + 1 \<Longrightarrow> length (dinode_bytes ip) = 64"
  by (simp add: dinode_bytes_def length_concat_words)

text \<open>The fields of an inode that are on disk.\<close>

definition disk_part :: "inode \<Rightarrow> inode \<Rightarrow> inode" where
  "disk_part ip ip0 = ip0\<lparr>i_type := i_type ip, i_major := i_major ip, i_minor := i_minor ip, i_nlink := i_nlink ip,
     i_size := i_size ip, i_addrs := i_addrs ip\<rparr>"

lemma concat_split:
  assumes "k < length ws"
  shows "concat (map (word_bytes 4) ws) = concat (map (word_bytes 4) (take k ws)) @ word_bytes 4 (ws ! k) @ concat (map (word_bytes 4) (drop (Suc k) ws))"
  by (subst id_take_nth_drop [OF assms]) simp

lemma load_dinode_bytes:
  assumes off: "off + 64 \<le> length bs" and n: "length (i_addrs ip) = NDIRECT + 1"
  shows "load_dinode (put_bytes bs off (dinode_bytes ip)) off ip0 = disk_part ip ip0"
proof -
  let ?b = "put_bytes bs off (dinode_bytes ip)" and ?h = "word_bytes 2 (i_type ip) @ word_bytes 2 (i_major ip) @ word_bytes 2 (i_minor ip) @
     word_bytes 2 (i_nlink ip) @ word_bytes 4 (i_size ip)"
  have l: "off + length (dinode_bytes ip) \<le> length bs" using off length_dinode_bytes [OF n] by simp
  have 1: "get16 ?b off = i_type ip"
    using get16_inside [of off "[]" "i_type ip" _ bs 0] l unfolding dinode_bytes_def by simp
  have 2: "get16 ?b (off + 2) = i_major ip"
    using get16_inside [of off "word_bytes 2 (i_type ip)" "i_major ip" _ bs 2] l unfolding dinode_bytes_def by simp
  have 3: "get16 ?b (off + 4) = i_minor ip"
    using get16_inside [of off "word_bytes 2 (i_type ip) @ word_bytes 2 (i_major ip)" "i_minor ip" _ bs 4] l
    unfolding dinode_bytes_def by simp
  have 4: "get16 ?b (off + 6) = i_nlink ip"
    using get16_inside [of off "word_bytes 2 (i_type ip) @ word_bytes 2 (i_major ip) @ word_bytes 2 (i_minor ip)" "i_nlink ip" _ bs 6] l
    unfolding dinode_bytes_def by simp
  have 5: "get32 ?b (off + 8) = i_size ip"
    using get32_inside [of off "word_bytes 2 (i_type ip) @ word_bytes 2 (i_major ip) @ word_bytes 2 (i_minor ip) @ word_bytes 2 (i_nlink ip)"
        "i_size ip" _ bs 8] l unfolding dinode_bytes_def by simp
  have 6: "get32 ?b (off + 12 + 4 * k) = i_addrs ip ! k" if "k < NDIRECT + 1" for k
  proof -
    have k: "k < length (i_addrs ip)" using that n by simp
    have d: "dinode_bytes ip = (?h @ concat (map (word_bytes 4) (take k (i_addrs ip)))) @ word_bytes 4 (i_addrs ip ! k) @
        concat (map (word_bytes 4) (drop (Suc k) (i_addrs ip)))"
      unfolding dinode_bytes_def by (subst concat_split [OF k]) simp
    have "get32 ?b (off + (12 + 4 * k)) = i_addrs ip ! k"
      unfolding d by (rule get32_inside) (use l d k in \<open>simp_all add: length_concat_words\<close>)
    then show ?thesis by (simp only: add.assoc)
  qed
  have "map (\<lambda>k. get32 ?b (off + 12 + 4 * k)) [0..<NDIRECT + 1] = i_addrs ip"
    by (rule nth_equalityI) (simp_all add: n 6)
  then show ?thesis using 1 2 3 4 5 by (simp add: load_dinode_def disk_part_def)
qed

lemma load_dinode_other:
  assumes "off + length xs \<le> length bs" "length xs = 64" "off' + 64 \<le> off \<or> off + 64 \<le> off'"
  shows "load_dinode (put_bytes bs off xs) off' ip0 = load_dinode bs off' ip0"
proof -
  have g: "get_bytes (put_bytes bs off xs) (off' + k) n = get_bytes bs (off' + k) n" if "k + n \<le> 64" for k n
    by (rule get_put_bytes_other) (use assms that in auto)
  have "get32 (put_bytes bs off xs) (off' + 12 + 4 * k) = get32 bs (off' + 12 + 4 * k)" if "k < NDIRECT + 1" for k
    using g [of "12 + 4 * k" 4] that by (simp add: get32_def add.assoc)
  then have "map (\<lambda>k. get32 (put_bytes bs off xs) (off' + 12 + 4 * k)) [0..<NDIRECT + 1] = map (\<lambda>k. get32 bs (off' + 12 + 4 * k)) [0..<NDIRECT + 1]"
    by simp
  then show ?thesis
    using g [of 0 2] g [of 2 2] g [of 4 2] g [of 6 2] g [of 8 4] by (simp add: load_dinode_def get16_def get32_def)
qed

text \<open>The inode \<open>inum\<close> as a fresh inode table entry would load it.\<close>

definition inode_on_disk :: "u32 \<Rightarrow> 'a kfs_scheme \<Rightarrow> u32 \<Rightarrow> inode \<Rightarrow> inode" where
  "inode_on_disk d s inum = load_dinode (blk d s (IBLOCK inum (sb s))) (dinode_off inum)"

lemma inode_slots:
  assumes "j \<noteq> (inum :: u32)" "IBLOCK j sblk = IBLOCK inum sblk"
  shows "dinode_off j + 64 \<le> dinode_off inum \<or> dinode_off inum + 64 \<le> dinode_off j"
proof -
  have "j div of_nat IPB = inum div of_nat IPB" using assms(2) by (simp only: IBLOCK_def add_right_cancel)
  then have "unat (j div 16) = unat (inum div 16)" by simp
  then have "unat j div IPB = unat inum div IPB" by (simp add: unat_div)
  moreover have "unat j \<noteq> unat inum" using assms(1) by (simp add: word_unat_eq_iff)
  ultimately have "unat j mod IPB \<noteq> unat inum mod IPB" by (metis div_mult_mod_eq)
  then show ?thesis by (auto simp: dinode_off_def)
qed

lemma dinode_off_bound: "dinode_off inum + 64 \<le> BSIZE"
  using mod_less_divisor [of IPB "unat inum"] by (simp add: dinode_off_def)

lemma iupdate_spec:
  assumes tx: "txn d s" and am: "ample d s {IBLOCK (i_inum (geti s i)) (sb s)} (Suc k)"
    and ip: "i_dev (geti s i) = d" "length (i_addrs (geti s i)) = NDIRECT + 1"
  shows "\<exists>s'. iupdate i s = Some s' \<and> txn d s' \<and> txn_frame s s' \<and> disk s' = disk s \<and> busy d s' = busy d s \<and>
    (let ib = IBLOCK (i_inum (geti s i)) (sb s)
     in blk d s' = (blk d s)(ib := put_bytes (blk d s ib) (dinode_off (i_inum (geti s i))) (dinode_bytes (geti s i))) \<and>
        refs d s' = (refs d s)(ib := refs d s ib + (if ib \<in> set (logged s) then 0 else 1)) \<and>
        logged s' = (if ib \<in> set (logged s) then logged s else logged s @ [ib]))"
proof -
  let ?ip = "geti s i" and ?ib = "IBLOCK (i_inum (geti s i)) (sb s)"
  let ?f = "\<lambda>bs. put_bytes bs (dinode_off (i_inum ?ip)) (dinode_bytes ?ip)"
  have a: "\<not> busy d s ?ib" "refs d s ?ib + 1 < 2 ^ 32 - 1" "refs d s ?ib \<noteq> 0 \<or> in_use d s < NBUF" "length (logged s) < LOGBLOCKS"
    using am by (auto simp: ample_def)
  have len: "length (?f (blk d s ?ib)) = BSIZE"
    using blk_length [OF txnD(1) [OF tx]] length_dinode_bytes [OF ip(2)] dinode_off_bound by simp
  obtain bp s1 s2 s' where u: "bread d ?ib s = Some (bp, s1)" "log_write bp (set_data bp ?f s1) = Some s2" "brelse bp s2 = Some s'"
    "txn d s'" "txn_frame s s'" "blk d s' = (blk d s)(?ib := ?f (blk d s ?ib))" "disk s' = disk s" "busy d s' = busy d s"
    "refs d s' = (refs d s)(?ib := refs d s ?ib + (if ?ib \<in> set (logged s) then 0 else 1))"
    "logged s' = (if ?ib \<in> set (logged s) then logged s else logged s @ [?ib])"
    by (rule logged_update [where f = ?f, OF tx a(1-3) len a(4)])
  have "iupdate i s = Some s'" using u(1-3) ip(1) by (simp add: iupdate_def Let_def)
  then show ?thesis using u(4-10) by (auto simp: Let_def)
qed

section \<open>A sample transaction\<close>

text \<open>An operation has begun on a disk whose bitmap, block 46, marks the blocks below 48 as used.\<close>

definition demo_bitmap :: "u8 list" where
  "demo_bitmap = replicate 6 0xFF @ replicate 1018 0"

definition demo_disk :: blocks where
  "demo_disk = (\<lambda>_. replicate BSIZE 0)(46 := demo_bitmap)"

definition demo_tx :: kfs where
  "demo_tx = setlog (\<lambda>l. l\<lparr>lg_outstanding := 1\<rparr>) (demo_kfs\<lparr>disk := demo_disk\<rparr>)"

lemma demo_disk_len: "length (demo_disk b) = BSIZE"
  by (simp add: demo_disk_def demo_bitmap_def)

lemma demo_tx_cache:
  "cache_inv 1 demo_tx" "refs 1 demo_tx = (\<lambda>_. 0)" "\<not> busy 1 demo_tx b" "blk 1 demo_tx b = demo_disk b" "in_use 1 demo_tx = 0"
  "logged demo_tx = []" "sb demo_tx = sb demo_kfs" "disk demo_tx = demo_disk"
proof -
  note c = demo_cache [OF demo_disk_len]
  show "cache_inv 1 demo_tx" "refs 1 demo_tx = (\<lambda>_. 0)" "\<not> busy 1 demo_tx b" "blk 1 demo_tx b = demo_disk b"
    by (simp_all add: demo_tx_def c)
  then show "in_use 1 demo_tx = 0" by (simp add: in_use_def)
  show "logged demo_tx = []" by (simp add: demo_tx_def logged_def demo_kfs_def)
  show "sb demo_tx = sb demo_kfs" "disk demo_tx = demo_disk" by (simp_all add: demo_tx_def setlog_def)
qed

lemma demo_tx_log:
  "klog demo_tx = \<lparr>lg_start = 2, lg_outstanding = 1, lg_committing = False, lg_dev = 1,
     lg_lh = \<lparr>lh_n = 0, lh_block = replicate LOGBLOCKS 0\<rparr>\<rparr>"
  by (simp add: demo_tx_def demo_kfs_def)

lemma demo_tx_ok: "txn 1 demo_tx" "ample 1 demo_tx B 2" "ample 1 demo_tx B 1"
  using demo_tx_cache by (simp_all add: txn_def ample_def demo_tx_log)

lemma demo_sb: "sb_size (sb demo_kfs) = 2000"
  by (simp add: demo_kfs_def)

lemma demo_bblock: "x < 2000 \<Longrightarrow> BBLOCK (of_nat x) (sb demo_tx) = 46"
proof -
  assume "x < 2000"
  then show ?thesis using BBLOCK_nat [of x "sb demo_kfs"] unfolding demo_tx_cache(7) by (simp add: demo_kfs_def)
qed

lemma demo_bitmap_blocks: "bitmap_blocks demo_tx = {46}"
proof -
  have "bitmap_blocks demo_tx = (\<lambda>x. 46) ` {..<2000 :: nat}"
    unfolding bitmap_blocks_def by (rule image_cong) (simp_all add: demo_tx_cache(7) demo_sb demo_bblock [unfolded demo_tx_cache(7)])
  also have "\<dots> = {46}" by (rule image_constant [of 0]) simp
  finally show ?thesis .
qed

lemma demo_used: "x < 2000 \<Longrightarrow> used 1 demo_tx x \<longleftrightarrow> x < 48"
proof -
  assume x: "x < 2000"
  have full: "bit (0xFF :: u8) (x mod 8)"
  proof -
    have "(0xFF :: u8) = - 1" by simp
    then show ?thesis by (simp only: bit_minus_1_iff possible_bit_word) simp
  qed
  have "x div 8 < 6 \<longleftrightarrow> x < 48" by auto
  then show ?thesis
    using x full by (simp add: used_def bit_used_bit demo_bblock demo_tx_cache(4) demo_disk_def demo_bitmap_def nth_append)
qed

lemma demo_free: "find (\<lambda>x. \<not> used 1 demo_tx x) [0..<2000] = Some 48"
  unfolding find_Some_iff by (intro exI [of _ 48]) (simp add: demo_used)

section \<open>Properties\<close>

text \<open>C21: \<open>balloc\<close> in a transaction with two log slots and two buffers to spare returns the lowest free block of
  the bitmap, marked used and filled with zeros, and 0 when there is none. No other bit of the bitmap and no other
  block changes, and nothing is written to disk yet.\<close>

theorem balloc_allocates:
  assumes tx: "txn d s" and am: "ample d s B 2" and bm: "bitmap_blocks s \<subseteq> B"
    and free: "\<And>x. x < unat (sb_size (sb s)) \<Longrightarrow> \<not> used d s x \<Longrightarrow> of_nat x \<in> B - bitmap_blocks s"
  shows "case find (\<lambda>x. \<not> used d s x) [0..<unat (sb_size (sb s))] of
      None \<Rightarrow> \<exists>s'. balloc d s = Some (0, s') \<and> txn d s' \<and> blk d s' = blk d s \<and> disk s' = disk s
    | Some x \<Rightarrow> \<exists>s'. balloc d s = Some (of_nat x, s') \<and> txn d s' \<and> disk s' = disk s \<and> blk d s' (of_nat x) = replicate BSIZE 0 \<and>
        (\<forall>y<unat (sb_size (sb s)). used d s' y \<longleftrightarrow> y = x \<or> used d s y) \<and>
        (\<forall>b. b \<noteq> of_nat x \<and> b \<notin> bitmap_blocks s \<longrightarrow> blk d s' b = blk d s b)"
proof -
  have "ample d s B (Suc (Suc 0))" using am by (simp add: numeral_2_eq_2)
  note L = balloc_spec [OF tx this bm free]
  show ?thesis
  proof (cases "find (\<lambda>x. \<not> used d s x) [0..<unat (sb_size (sb s))]")
    case None
    then show ?thesis using L by (auto simp: exhausted_def)
  next
    case (Some x)
    then have x: "x < unat (sb_size (sb s))" "\<not> used d s x" by (auto simp: find_Some_iff)
    obtain s' where s': "balloc d s = Some (of_nat x, s')" "allocated d x s s'" using L Some by auto
    have "of_nat x \<notin> bitmap_blocks s" using free x by simp
    note A = allocated_used [OF tx s'(2) x(1) this]
    have "txn d s'" "disk s' = disk s" "blk d s' (of_nat x) = replicate BSIZE 0" using s'(2) by (auto simp: allocated_def Let_def)
    then show ?thesis using Some s'(1) A by simp
  qed
qed

theorem balloc_allocates_witness:
  "\<exists>s'. balloc 1 demo_tx = Some (48, s') \<and> txn 1 s' \<and> blk 1 s' 48 = replicate BSIZE 0 \<and> used 1 s' 48 \<and> \<not> used 1 s' 49"
proof -
  have f: "of_nat x \<in> UNIV - bitmap_blocks demo_tx" if "x < unat (sb_size (sb demo_tx))" "\<not> used 1 demo_tx x" for x
  proof -
    have x: "x < 2000" "48 \<le> x" using that demo_used [of x] by (simp_all add: demo_tx_cache(7) demo_sb)
    then have "unat (of_nat x :: u32) = x" by (simp add: unat_of_nat)
    then have "of_nat x \<noteq> (46 :: u32)" using x by force
    then show ?thesis by (simp add: demo_bitmap_blocks)
  qed
  have "unat (sb_size (sb demo_tx)) = 2000" by (simp add: demo_tx_cache(7) demo_sb)
  then show ?thesis
    using balloc_allocates [OF demo_tx_ok(1,2) subset_UNIV f] demo_free demo_used [of 49] by auto
qed

text \<open>C22: \<open>bfree\<close> of a block that is in use clears its bit and changes no other bit and no other block; of a block
  that is already free it panics.\<close>

theorem bfree_frees:
  assumes tx: "txn d s" and am: "ample d s (bitmap_blocks s) 1" and b: "b < sb_size (sb s)"
  shows "if used d s (unat b)
    then \<exists>s'. bfree d b s = Some s' \<and> txn d s' \<and> disk s' = disk s \<and>
      (\<forall>y<unat (sb_size (sb s)). used d s' y \<longleftrightarrow> y \<noteq> unat b \<and> used d s y) \<and> (\<forall>c. c \<notin> bitmap_blocks s \<longrightarrow> blk d s' c = blk d s c)
    else bfree d b s = None"
proof -
  let ?x = "unat b" and ?bb = "BBLOCK b (sb s)"
  have x: "?x < unat (sb_size (sb s))" "of_nat ?x = b" using b by (simp_all add: word_less_nat_alt)
  have sz: "unat (sb_size (sb s)) < 2 ^ 32" using unsigned_less [of "sb_size (sb s)"] by simp
  have bb: "?bb \<in> bitmap_blocks s" using bitmap_blocksI [OF x(1)] x(2) by simp
  have a: "\<not> busy d s ?bb" "refs d s ?bb + 1 < 2 ^ 32 - 1" "refs d s ?bb < 2 ^ 32 - 1" "refs d s ?bb \<noteq> 0 \<or> in_use d s < NBUF"
    "length (logged s) < LOGBLOCKS" using am bb by (auto simp: ample_def)
  have us: "used d s ?x \<longleftrightarrow> bit_used (blk d s ?bb) (?x mod BPB)" using x(2) by (simp add: used_def)
  have len: "length (set_unused (?x mod BPB) (blk d s ?bb)) = BSIZE" using blk_length [OF txnD(1) [OF tx]] by simp
  obtain i s1 s2 s' where u: "bread d ?bb s = Some (i, s1)" "b_data (getb s1 i) = blk d s ?bb"
    "log_write i (set_data i (set_unused (?x mod BPB)) s1) = Some s2" "brelse i s2 = Some s'" "txn d s'" "txn_frame s s'"
    "blk d s' = (blk d s)(?bb := set_unused (?x mod BPB) (blk d s ?bb))" "disk s' = disk s"
    by (rule logged_update [where f = "set_unused (?x mod BPB)", OF tx a(1,2,4) len a(5)])
  show ?thesis
  proof (cases "used d s ?x")
    case True
    then have "bfree d b s = Some s'" using u(1-4) us by (simp add: bfree_def Let_def)
    moreover have "used d s' y \<longleftrightarrow> y \<noteq> ?x \<and> used d s y" if y: "y < unat (sb_size (sb s))" for y
    proof -
      have "used d s' y \<longleftrightarrow> (if y = ?x then set_unused = set_used \<or> used d s ?x \<and> set_unused \<noteq> set_unused else used d s y)"
        using y x sz u(7) by (intro used_update [OF txnD(1) [OF tx] _ _ txn_frame_keeps(1) [OF u(6)]]) auto
      moreover have "set_unused \<noteq> set_used" by (rule set_unused_neq)
      ultimately show ?thesis by simp
    qed
    moreover have "blk d s' c = blk d s c" if "c \<notin> bitmap_blocks s" for c using that bb u(7) by auto
    ultimately show ?thesis using True u(5,8) by auto
  next
    case False
    then show ?thesis using u(1,2) us by (simp add: bfree_def Let_def)
  qed
qed

theorem bfree_frees_witness:
  "(\<exists>s'. bfree 1 47 demo_tx = Some s' \<and> txn 1 s' \<and> \<not> used 1 s' 47) \<and> bfree 1 48 demo_tx = None"
proof -
  have b: "47 < sb_size (sb demo_tx)" "48 < sb_size (sb demo_tx)" "unat (sb_size (sb demo_tx)) = 2000"
    by (simp_all add: demo_tx_cache(7) demo_sb)
  show ?thesis
    using bfree_frees [OF demo_tx_ok(1,3) b(1)] bfree_frees [OF demo_tx_ok(1,3) b(2)] demo_used [of 47] demo_used [of 48] b(3) by auto
qed

lemma inode_stored:
  assumes inv: "cache_inv d s" and ip: "length (i_addrs ip) = NDIRECT + 1"
    and bl: "blk d s' = (blk d s)(IBLOCK (i_inum ip) (sb s) := put_bytes (blk d s (IBLOCK (i_inum ip) (sb s))) (dinode_off (i_inum ip)) (dinode_bytes ip))"
    and sb: "sb s' = sb s"
  shows "inode_on_disk d s' inum ip0 = (if inum = i_inum ip then disk_part ip ip0 else inode_on_disk d s inum ip0)"
proof (cases "inum = i_inum ip")
  case True
  then show ?thesis
    using load_dinode_bytes [OF _ ip, of "dinode_off inum" "blk d s (IBLOCK inum (sb s))"] dinode_off_bound [of inum] blk_length [OF inv] bl
    by (simp add: inode_on_disk_def sb)
next
  case False
  let ?ib = "IBLOCK (i_inum ip) (sb s)"
  have db: "length (dinode_bytes ip) = 64" by (rule length_dinode_bytes [OF ip])
  show ?thesis
    using load_dinode_other [OF _ db, of "dinode_off (i_inum ip)" "blk d s ?ib" "dinode_off inum" ip0]
      inode_slots [OF False] dinode_off_bound [of "i_inum ip"] blk_length [OF inv, of ?ib] db bl False
    by (auto simp: inode_on_disk_def sb)
qed

text \<open>C23: after \<open>iupdate\<close>, loading the inode gives back its type, device numbers, link count, size and block
  addresses, and loading any other inode, also one in the same block, gives what it gave before.\<close>

theorem iupdate_persists:
  assumes tx: "txn d s" and am: "ample d s {IBLOCK (i_inum (geti s i)) (sb s)} 1"
    and ip: "i_dev (geti s i) = d" "length (i_addrs (geti s i)) = NDIRECT + 1"
  shows "\<exists>s'. iupdate i s = Some s' \<and> txn d s' \<and>
    (\<forall>inum ip0. inode_on_disk d s' inum ip0 = (if inum = i_inum (geti s i) then disk_part (geti s i) ip0 else inode_on_disk d s inum ip0))"
proof -
  let ?ip = "geti s i" and ?ib = "IBLOCK (i_inum (geti s i)) (sb s)"
  have "ample d s {?ib} (Suc 0)" using am by simp
  from iupdate_spec [OF tx this ip] obtain s' where s': "iupdate i s = Some s'" "txn d s'" "txn_frame s s'"
    "blk d s' = (blk d s)(?ib := put_bytes (blk d s ?ib) (dinode_off (i_inum ?ip)) (dinode_bytes ?ip))" by (auto simp: Let_def)
  then show ?thesis using inode_stored [OF txnD(1) [OF tx] ip(2) s'(4) txn_frame_keeps(1) [OF s'(3)]] by blast
qed

definition demo_inode :: inode where
  "demo_inode = \<lparr>i_dev = 1, i_inum = 17, i_ref = 1, i_lock = initsleeplock, i_valid = True, i_type = T_FILE, i_major = 0, i_minor = 0,
     i_nlink = 1, i_size = 3000, i_addrs = [100, 101, 102] @ replicate 10 0\<rparr>"

lemma txn_cong:
  assumes "bufs t = bufs s" "lru t = lru s" "disk t = disk s" "procs t = procs s" "cur t = cur s" "klog t = klog s"
  shows "txn d t = txn d s" "ample d t B k = ample d s B k" "blk d t = blk d s" "busy d t = busy d s"
  using cache_cong [OF assms(1-5), of d] assms(3,6) by (simp_all add: txn_def logged_def ample_def in_use_def)

theorem iupdate_persists_witness:
  "\<exists>s'. iupdate 3 (seti 3 (\<lambda>_. demo_inode) demo_tx) = Some s' \<and> txn 1 s' \<and>
    i_size (inode_on_disk 1 s' 17 demo_inode) = 3000 \<and> i_addrs (inode_on_disk 1 s' 17 demo_inode) ! 2 = 102"
proof -
  let ?s = "seti 3 (\<lambda>_. demo_inode) demo_tx"
  have g: "geti ?s 3 = demo_inode" by (simp add: seti_def geti_def demo_tx_def demo_kfs_def setlog_def)
  have c: "txn 1 ?s = txn 1 demo_tx" "ample 1 ?s B 1 = ample 1 demo_tx B 1" for B by (rule txn_cong; simp add: seti_def)+
  have "txn 1 ?s" "ample 1 ?s B 1" for B using c demo_tx_ok by simp_all
  from iupdate_persists [OF this, of 3] g show ?thesis by (auto simp: demo_inode_def disk_part_def)
qed

end
