(* ===== verification/FileMap.thy ===== *)
theory FileMap
  imports Txn
begin

text \<open>
  The contents of a file, as a function of the disk's blocks \<open>B\<close> and the inode: block \<open>n\<close> of the file is named by
  \<open>addrs[n]\<close> or by an entry of the indirect block, and a missing block reads as zeros. \<open>fok U B ip\<close> says that the
  blocks the inode names are different from each other and lie in the set \<open>U\<close>, the data blocks that the bitmap marks
  as used. The lemmas say how the contents change when a block is added to the file or written.
\<close>

definition fblock :: "(u32 \<Rightarrow> u8 list) \<Rightarrow> inode \<Rightarrow> nat \<Rightarrow> u32" where
  "fblock B ip n = (if n < NDIRECT then i_addrs ip ! n
     else if i_addrs ip ! NDIRECT = 0 then 0 else get32 (B (i_addrs ip ! NDIRECT)) (4 * (n - NDIRECT)))"

definition fbyte :: "(u32 \<Rightarrow> u8 list) \<Rightarrow> inode \<Rightarrow> nat \<Rightarrow> u8" where
  "fbyte B ip k = (if fblock B ip (k div BSIZE) = 0 then 0 else B (fblock B ip (k div BSIZE)) ! (k mod BSIZE))"

definition owned :: "(u32 \<Rightarrow> u8 list) \<Rightarrow> inode \<Rightarrow> u32 set" where
  "owned B ip = insert (i_addrs ip ! NDIRECT) (fblock B ip ` {..<MAXFILE}) - {0}"

definition fok :: "u32 set \<Rightarrow> (u32 \<Rightarrow> u8 list) \<Rightarrow> inode \<Rightarrow> bool" where
  "fok U B ip \<longleftrightarrow> length (i_addrs ip) = NDIRECT + 1 \<and> owned B ip \<subseteq> U \<and> (\<forall>b\<in>U. length (B b) = BSIZE) \<and>
     (\<forall>n<MAXFILE. fblock B ip n \<noteq> 0 \<longrightarrow> fblock B ip n \<noteq> i_addrs ip ! NDIRECT) \<and>
     (\<forall>m<MAXFILE. \<forall>n<MAXFILE. fblock B ip m \<noteq> 0 \<longrightarrow> fblock B ip m = fblock B ip n \<longrightarrow> m = n)"

lemma fokD:
  assumes "fok U B ip"
  shows "length (i_addrs ip) = NDIRECT + 1" "owned B ip \<subseteq> U" "\<And>b. b \<in> U \<Longrightarrow> length (B b) = BSIZE"
    "\<And>n. n < MAXFILE \<Longrightarrow> fblock B ip n \<noteq> 0 \<Longrightarrow> fblock B ip n \<noteq> i_addrs ip ! NDIRECT"
    "\<And>m n. m < MAXFILE \<Longrightarrow> n < MAXFILE \<Longrightarrow> fblock B ip m \<noteq> 0 \<Longrightarrow> fblock B ip m = fblock B ip n \<Longrightarrow> m = n"
  using assms by (auto simp: fok_def)

lemma owned_data: "n < MAXFILE \<Longrightarrow> fblock B ip n \<noteq> 0 \<Longrightarrow> fblock B ip n \<in> owned B ip"
  by (auto simp: owned_def)

lemma owned_indirect: "i_addrs ip ! NDIRECT \<noteq> 0 \<Longrightarrow> i_addrs ip ! NDIRECT \<in> owned B ip"
  by (auto simp: owned_def)

text \<open>Changes elsewhere do not matter.\<close>

lemma fblock_elsewhere:
  assumes "fok U B ip" "\<And>b. b \<in> U \<Longrightarrow> B' b = B b"
  shows "fblock B' ip n = fblock B ip n" "owned B' ip = owned B ip"
    "k < MAXFILE * BSIZE \<Longrightarrow> fbyte B' ip k = fbyte B ip k"
proof -
  have "B' (i_addrs ip ! NDIRECT) = B (i_addrs ip ! NDIRECT)" if "i_addrs ip ! NDIRECT \<noteq> 0"
    using assms(2) fokD(2) [OF assms(1)] owned_indirect [OF that, of B] by blast
  then show e: "fblock B' ip n = fblock B ip n" for n by (simp add: fblock_def)
  then show "owned B' ip = owned B ip" by (simp add: owned_def)
  assume "k < MAXFILE * BSIZE"
  then have "k div BSIZE < MAXFILE" by (simp add: less_mult_imp_div_less)
  then have "fblock B ip (k div BSIZE) \<in> U" if "fblock B ip (k div BSIZE) \<noteq> 0"
    using that owned_data fokD(2) [OF assms(1)] by blast
  then show "fbyte B' ip k = fbyte B ip k" using assms(2) by (simp add: fbyte_def e)
qed

lemma fok_elsewhere:
  assumes "fok U B ip" "\<And>b. b \<in> U \<Longrightarrow> B' b = B b" "U \<subseteq> V" "\<And>b. b \<in> V \<Longrightarrow> length (B' b) = BSIZE"
  shows "fok V B' ip"
  using assms(1,3,4) fblock_elsewhere(1,2) [OF assms(1,2)] by (auto simp: fok_def)

text \<open>A fresh, zeroed block becomes block \<open>n\<close> of the file.\<close>

lemma add_direct:
  assumes f: "fok U B ip" and n: "n < NDIRECT" "i_addrs ip ! n = 0" and x: "x \<in> U" "x \<noteq> 0" "x \<notin> owned B ip" "B x = replicate BSIZE 0"
  defines "ip' \<equiv> ip\<lparr>i_addrs := (i_addrs ip)[n := x]\<rparr>"
  shows "fok U B ip'" "fblock B ip' n = x" "k < MAXFILE * BSIZE \<Longrightarrow> fbyte B ip' k = fbyte B ip k" "owned B ip' = insert x (owned B ip)"
    "fblock B ip m \<noteq> 0 \<Longrightarrow> fblock B ip' m = fblock B ip m"
proof -
  note D = fokD [OF f]
  have ind: "i_addrs ip' ! NDIRECT = i_addrs ip ! NDIRECT" using n(1) by (simp add: ip'_def)
  have e: "fblock B ip' m = (if m = n then x else fblock B ip m)" for m
    using n(1) D(1) by (simp add: fblock_def ip'_def)
  show "fblock B ip' n = x" by (simp add: e)
  have z: "fblock B ip n = 0" using n by (simp add: fblock_def)
  show "fblock B ip m \<noteq> 0 \<Longrightarrow> fblock B ip' m = fblock B ip m" using e z by auto
  have nM: "n < MAXFILE" using n(1) by simp
  have "fblock B ip' ` {..<MAXFILE} = insert x (fblock B ip ` ({..<MAXFILE} - {n}))"
    using nM by (auto simp: e image_iff)
  moreover have "insert 0 (fblock B ip ` ({..<MAXFILE} - {n})) = insert 0 (fblock B ip ` {..<MAXFILE})"
    using z by (auto simp: image_iff)
  ultimately show o: "owned B ip' = insert x (owned B ip)"
    using x(2) unfolding owned_def ind by blast
  have nx: "fblock B ip m \<noteq> x" if "m < MAXFILE" for m using owned_data [OF that, of B ip] x(2,3) by metis
  have "x \<noteq> i_addrs ip ! NDIRECT" using owned_indirect [of ip B] x(2,3) by metis
  moreover have "length (i_addrs ip') = NDIRECT + 1" using D(1) by (simp add: ip'_def)
  moreover have "a = b" if "a < MAXFILE" "b < MAXFILE" "fblock B ip' a \<noteq> 0" "fblock B ip' a = fblock B ip' b" for a b
    using that nx [of a] nx [of b] D(5) [of a b] by (auto simp: e split: if_splits)
  ultimately show "fok U B ip'" unfolding fok_def o ind using D(2-4) x(1) by (auto simp: e split: if_splits)
  show "fbyte B ip' k = fbyte B ip k" if "k < MAXFILE * BSIZE"
    using z x(2,4) by (simp add: fbyte_def e)
qed

lemma get32_zeros: "get32 (replicate BSIZE 0) off = 0"
  by (simp add: get32_def get_bytes_def)

lemma add_indirect:
  assumes f: "fok U B ip" and n: "i_addrs ip ! NDIRECT = 0" and x: "x \<in> U" "x \<noteq> 0" "x \<notin> owned B ip" "B x = replicate BSIZE 0"
  defines "ip' \<equiv> ip\<lparr>i_addrs := (i_addrs ip)[NDIRECT := x]\<rparr>"
  shows "fok U B ip'" "fblock B ip' m = fblock B ip m" "fbyte B ip' k = fbyte B ip k" "owned B ip' = insert x (owned B ip)"
    "i_addrs ip' ! NDIRECT = x"
proof -
  note D = fokD [OF f]
  show ind: "i_addrs ip' ! NDIRECT = x" using D(1) by (simp add: ip'_def)
  show e: "fblock B ip' m = fblock B ip m" for m
    using n x(2,4) ind get32_zeros by (simp add: fblock_def ip'_def)
  then show "fbyte B ip' k = fbyte B ip k" by (simp add: fbyte_def)
  show o: "owned B ip' = insert x (owned B ip)" using x(2) n ind by (auto simp: owned_def e)
  have nx: "fblock B ip m \<noteq> x" if "m < MAXFILE" for m using owned_data [OF that, of B ip] x(2,3) by metis
  moreover have "length (i_addrs ip') = NDIRECT + 1" using D(1) by (simp add: ip'_def)
  ultimately show "fok U B ip'" unfolding fok_def o e ind using D(2-5) x(1) by auto
qed

lemma add_entry:
  assumes f: "fok U B ip" and n: "NDIRECT \<le> n" "n < MAXFILE" "fblock B ip n = 0" and i: "i_addrs ip ! NDIRECT \<noteq> 0"
    and x: "x \<in> U" "x \<noteq> 0" "x \<notin> owned B ip" "B x = replicate BSIZE 0"
  defines "a \<equiv> i_addrs ip ! NDIRECT"
  defines "B' \<equiv> B(a := put32 (B a) (4 * (n - NDIRECT)) x)"
  shows "fok U B' ip" "fblock B' ip n = x" "k < MAXFILE * BSIZE \<Longrightarrow> fbyte B' ip k = fbyte B ip k" "owned B' ip = insert x (owned B ip)"
    "m < MAXFILE \<Longrightarrow> fblock B ip m \<noteq> 0 \<Longrightarrow> fblock B' ip m = fblock B ip m"
proof -
  note D = fokD [OF f]
  have aU: "a \<in> U" using owned_indirect [OF i, of B] D(2) by (auto simp: a_def)
  then have la: "length (B a) = BSIZE" by (rule D(3))
  have e: "fblock B' ip m = (if m = n then x else fblock B ip m)" if "m < MAXFILE" for m
  proof (cases "m < NDIRECT")
    case False
    have g: "get32 (put32 (B a) (4 * (n - NDIRECT)) x) (4 * (m - NDIRECT)) = (if m = n then x else get32 (B a) (4 * (m - NDIRECT)))"
    proof (cases "m = n")
      case True
      then show ?thesis using get32_put32 [of "4 * (n - NDIRECT)" "B a" x] la n(1,2) by simp
    next
      case ne: False
      have "4 * (m - NDIRECT) + 4 \<le> 4 * (n - NDIRECT) \<or> 4 * (n - NDIRECT) + 4 \<le> 4 * (m - NDIRECT)" using ne False n(1) by linarith
      then show ?thesis using get32_put32_other [of "4 * (n - NDIRECT)" "B a"] la n(1,2) ne by simp
    qed
    show ?thesis using False n(1) i g by (simp add: fblock_def B'_def a_def)
  qed (use n(1) in \<open>simp add: fblock_def\<close>)
  show "fblock B' ip n = x" using e n(2) by simp
  show "m < MAXFILE \<Longrightarrow> fblock B ip m \<noteq> 0 \<Longrightarrow> fblock B' ip m = fblock B ip m" using e n(3) by auto
  have "fblock B' ip ` {..<MAXFILE} = insert x (fblock B ip ` ({..<MAXFILE} - {n}))"
    using n(2) e by (auto simp: image_iff)
  moreover have "insert 0 (fblock B ip ` ({..<MAXFILE} - {n})) = insert 0 (fblock B ip ` {..<MAXFILE})"
    using n(3) by (auto simp: image_iff)
  ultimately show o: "owned B' ip = insert x (owned B ip)" using x(2) unfolding owned_def by blast
  have nx: "fblock B ip m \<noteq> x" if "m < MAXFILE" for m using owned_data [OF that, of B ip] x(2,3) by metis
  have xa: "x \<noteq> a" using owned_indirect [OF i, of B] x(3) by (auto simp: a_def)
  have "length (B' b) = BSIZE" if "b \<in> U" for b using that D(3) la n(1,2) by (simp add: B'_def)
  moreover have "c = b" if "c < MAXFILE" "b < MAXFILE" "fblock B' ip c \<noteq> 0" "fblock B' ip c = fblock B' ip b" for c b
    using that nx [of c] nx [of b] D(5) [of c b] by (auto simp: e split: if_splits)
  ultimately show "fok U B' ip" unfolding fok_def o using D(1,2,4) x(1) xa by (auto simp: e a_def split: if_splits)
  show "fbyte B' ip k = fbyte B ip k" if k: "k < MAXFILE * BSIZE"
  proof -
    have m: "k div BSIZE < MAXFILE" using k by (simp add: less_mult_imp_div_less)
    have "fblock B ip (k div BSIZE) \<noteq> a" if "fblock B ip (k div BSIZE) \<noteq> 0" using D(4) [OF m that] by (simp add: a_def)
    then show ?thesis using m e n(3) x(2,4) xa by (simp add: fbyte_def B'_def)
  qed
qed

text \<open>Bytes are written into block \<open>n\<close> of the file.\<close>

lemma write_block:
  assumes f: "fok U B ip" and n: "n < MAXFILE" "fblock B ip n \<noteq> 0" and len: "j + length xs \<le> BSIZE"
  defines "B' \<equiv> B(fblock B ip n := put_bytes (B (fblock B ip n)) j xs)"
  shows "fok U B' ip" "fblock B' ip m = fblock B ip m" "owned B' ip = owned B ip"
    "k < MAXFILE * BSIZE \<Longrightarrow> fbyte B' ip k =
      (if n * BSIZE + j \<le> k \<and> k < n * BSIZE + j + length xs then xs ! (k - (n * BSIZE + j)) else fbyte B ip k)"
proof -
  note D = fokD [OF f]
  let ?b = "fblock B ip n"
  have bU: "?b \<in> U" using owned_data [OF n] D(2) by blast
  have lb: "length (B ?b) = BSIZE" by (rule D(3) [OF bU])
  have "?b \<noteq> i_addrs ip ! NDIRECT" by (rule D(4) [OF n])
  then show e: "fblock B' ip m = fblock B ip m" for m by (auto simp: fblock_def B'_def)
  then show o: "owned B' ip = owned B ip" by (simp add: owned_def)
  have B': "B' c = (if c = ?b then put_bytes (B ?b) j xs else B c)" for c by (simp add: B'_def)
  have "length (B' b) = BSIZE" if "b \<in> U" for b using that D(3) lb len by (simp add: B'_def)
  then show "fok U B' ip" using D o by (auto simp: fok_def e)
  show "fbyte B' ip k =
      (if n * BSIZE + j \<le> k \<and> k < n * BSIZE + j + length xs then xs ! (k - (n * BSIZE + j)) else fbyte B ip k)"
    if k: "k < MAXFILE * BSIZE"
  proof (cases "k div BSIZE = n")
    case True
    then have k': "k = n * BSIZE + k mod BSIZE" "k mod BSIZE < BSIZE" using div_mult_mod_eq [of k BSIZE] by simp_all
    have "put_bytes (B ?b) j xs ! (k mod BSIZE) = (if j \<le> k mod BSIZE \<and> k mod BSIZE < j + length xs then xs ! (k mod BSIZE - j) else B ?b ! (k mod BSIZE))"
      using len lb k'(2) by (auto simp: put_bytes_def nth_append)
    moreover have "k - (n * BSIZE + j) = k mod BSIZE - j" using k'(1) by linarith
    moreover have "n * BSIZE + j \<le> k \<longleftrightarrow> j \<le> k mod BSIZE" "k < n * BSIZE + j + length xs \<longleftrightarrow> k mod BSIZE < j + length xs"
      using k'(1) by linarith+
    ultimately show ?thesis using True n(2) by (simp add: fbyte_def e B')
  next
    case False
    have m: "k div BSIZE < MAXFILE" using k by (simp add: less_mult_imp_div_less)
    have ne: "fblock B ip (k div BSIZE) \<noteq> ?b \<or> fblock B ip (k div BSIZE) = 0" using D(5) [OF m n(1)] False by blast
    have "\<not> (n * BSIZE + j \<le> k \<and> k < n * BSIZE + j + length xs)"
    proof
      assume a: "n * BSIZE + j \<le> k \<and> k < n * BSIZE + j + length xs"
      then have "n * BSIZE \<le> k" "k < n * BSIZE + BSIZE" using len by linarith+
      then have "k div BSIZE = n" by (simp add: div_nat_eqI)
      then show False using False by simp
    qed
    then show ?thesis using ne n(2) by (auto simp: fbyte_def e B')
  qed
qed

end
