(* ===== verification/FileData.thy ===== *)
theory FileData
  imports FileMap
begin

text \<open>
  Files in a transaction: \<open>bmap\<close> finds or allocates the blocks of a file, \<open>readi\<close> and \<open>writei\<close> move bytes
  (\<^verbatim>\<open>kernel/fs.c\<close>). The contents of the file are \<open>fbyte\<close> of \<open>FileMap\<close>; the invariant \<open>file_ok\<close> says that the inode's
  blocks are data blocks, marked used in the bitmap.
\<close>

section \<open>Data blocks\<close>

definition inode_blocks :: "'a kfs_scheme \<Rightarrow> u32 set" where
  "inode_blocks s = (\<lambda>n. IBLOCK n (sb s)) ` {n. n < sb_ninodes (sb s)}"

definition data_used :: "u32 \<Rightarrow> 'a kfs_scheme \<Rightarrow> u32 set" where
  "data_used d s = {b. b < sb_size (sb s) \<and> used d s (unat b) \<and> b \<notin> bitmap_blocks s \<and> b \<notin> inode_blocks s}"

text \<open>Block 0 and the blocks of inodes and of the bitmap are never free.\<close>

definition bitmap_ok :: "u32 \<Rightarrow> 'a kfs_scheme \<Rightarrow> bool" where
  "bitmap_ok d s \<longleftrightarrow> bitmap_blocks s \<inter> inode_blocks s = {} \<and>
     (\<forall>x<unat (sb_size (sb s)). \<not> used d s x \<longrightarrow> 0 < x \<and> of_nat x \<notin> bitmap_blocks s \<and> of_nat x \<notin> inode_blocks s)"

lemma sb_blocks: "sb t = sb s \<Longrightarrow> bitmap_blocks t = bitmap_blocks s" "sb t = sb s \<Longrightarrow> inode_blocks t = inode_blocks s"
  by (simp_all add: bitmap_blocks_def inode_blocks_def)

lemma used_cong: "blk d t = blk d s \<Longrightarrow> sb t = sb s \<Longrightarrow> used d t = used d s"
  by (simp add: used_def fun_eq_iff)

lemma data_used_cong: "blk d t = blk d s \<Longrightarrow> sb t = sb s \<Longrightarrow> data_used d t = data_used d s"
  using used_cong [of d t s] sb_blocks [of t s] by (simp add: data_used_def)

lemma bitmap_ok_cong: "blk d t = blk d s \<Longrightarrow> sb t = sb s \<Longrightarrow> bitmap_ok d t = bitmap_ok d s"
  using used_cong [of d t s] sb_blocks [of t s] by (simp add: bitmap_ok_def)

text \<open>A block that \<open>balloc\<close> returns joins the data blocks.\<close>

lemma balloc_step:
  assumes tx: "txn d s" and am: "ample d s B (Suc (Suc k))" and ok: "bitmap_ok d s" and bm: "bitmap_blocks s \<subseteq> B"
    and free: "\<And>x. x < unat (sb_size (sb s)) \<Longrightarrow> \<not> used d s x \<Longrightarrow> of_nat x \<in> B"
  obtains (full) s' where "balloc d s = Some (0, s')" "exhausted d s s'" "\<forall>x<unat (sb_size (sb s)). used d s x"
  | (got) x s' where "balloc d s = Some (x, s')" "txn d s'" "txn_frame s s'" "disk s' = disk s" "busy d s' = busy d s" "ample d s' B k"
    "\<forall>j c. hold d s j c \<longrightarrow> hold d s' j c" "x \<noteq> 0" "x \<notin> data_used d s" "data_used d s' = insert x (data_used d s)"
    "bitmap_ok d s'" "blk d s' x = replicate BSIZE 0" "refs_grew d 2 s s'"
    "\<And>b. b \<noteq> x \<Longrightarrow> b \<notin> bitmap_blocks s \<Longrightarrow> blk d s' b = blk d s b"
proof -
  have fr: "of_nat x \<in> B - bitmap_blocks s" if "x < unat (sb_size (sb s))" "\<not> used d s x" for x
    using that free ok by (simp add: bitmap_ok_def)
  note L = balloc_spec [OF tx am bm fr]
  show thesis
  proof (cases "find (\<lambda>x. \<not> used d s x) [0..<unat (sb_size (sb s))]")
    case None
    then have "\<forall>x<unat (sb_size (sb s)). used d s x" by (auto simp: find_None_iff)
    then show thesis using full L None by auto
  next
    case (Some x)
    then have x: "x < unat (sb_size (sb s))" "\<not> used d s x" by (auto simp: find_Some_iff)
    have "unat (sb_size (sb s)) < 2 ^ 32" using unsigned_less [of "sb_size (sb s)"] by simp
    then have "x < 2 ^ 32" using x(1) by linarith
    then have un: "unat (of_nat x :: u32) = x" by (simp add: unat_of_nat)
    obtain s' where s': "balloc d s = Some (of_nat x, s')" "allocated d x s s'" "ample d s' B k" using L Some by auto
    have nb: "of_nat x \<notin> bitmap_blocks s" "of_nat x \<notin> inode_blocks s" using ok x by (simp_all add: bitmap_ok_def)
    note A = allocated_used [OF tx s'(2) x(1) nb(1)]
    have c: "txn d s'" "txn_frame s s'" "disk s' = disk s" "busy d s' = busy d s" "\<forall>j c. hold d s j c \<longrightarrow> hold d s' j c"
      "blk d s' (of_nat x) = replicate BSIZE 0" "refs_grew d 2 s s'"
      using s'(2) by (auto simp: allocated_def Let_def)
    have sb: "sb s' = sb s" by (rule txn_frame_keeps(1) [OF c(2)])
    have "x \<noteq> 0" using ok x by (auto simp: bitmap_ok_def)
    then have "of_nat x \<noteq> (0 :: u32)" using un by (metis unat_0)
    moreover have "of_nat x \<notin> data_used d s" using x(2) un by (simp add: data_used_def)
    moreover have "data_used d s' = insert (of_nat x) (data_used d s)"
    proof -
      have "used d s' (unat b) \<longleftrightarrow> b = of_nat x \<or> used d s (unat b)" if "b < sb_size (sb s)" for b
      proof -
        have "unat b = x \<longleftrightarrow> b = of_nat x" using un by auto
        then show ?thesis using A(1) that by (simp add: word_less_nat_alt)
      qed
      moreover have "of_nat x < sb_size (sb s)" using x(1) un by (simp add: word_less_nat_alt)
      ultimately show ?thesis using nb sb_blocks [OF sb] by (auto simp: data_used_def sb)
    qed
    moreover have "bitmap_ok d s'"
      using ok A(1) x(1) sb_blocks [OF sb] by (auto simp: bitmap_ok_def sb)
    ultimately show thesis using got [OF s'(1) c(1-4) s'(3) c(5) _ _ _ _ c(6,7)] A(2) by blast
  qed
qed

section \<open>A file in a transaction\<close>

definition file_ok :: "u32 \<Rightarrow> 'a kfs_scheme \<Rightarrow> nat \<Rightarrow> bool" where
  "file_ok d s i \<longleftrightarrow> i < length (itable s) \<and> i_dev (geti s i) = d \<and> i_inum (geti s i) < sb_ninodes (sb s) \<and>
     fok (data_used d s) (blk d s) (geti s i)"

definition fsok :: "u32 \<Rightarrow> 'a kfs_scheme \<Rightarrow> nat \<Rightarrow> nat \<Rightarrow> bool" where
  "fsok d s i k \<longleftrightarrow> txn d s \<and> ample d s UNIV k \<and> bitmap_ok d s \<and> file_ok d s i"

abbreviation (input) contents :: "u32 \<Rightarrow> 'a kfs_scheme \<Rightarrow> nat \<Rightarrow> nat \<Rightarrow> u8" where
  "contents d s i \<equiv> fbyte (blk d s) (geti s i)"

text \<open>What a step on the file \<open>i\<close> leaves alone: other inodes, the data blocks of other files and the inode blocks.\<close>

definition file_step :: "u32 \<Rightarrow> nat \<Rightarrow> 'a kfs_scheme \<Rightarrow> 'a kfs_scheme \<Rightarrow> bool" where
  "file_step d i s s' \<longleftrightarrow>
     sb s' = sb s \<and> cur s' = cur s \<and> pmem s' = pmem s \<and> freelist s' = freelist s \<and> map idle_proc (procs s') = map idle_proc (procs s) \<and>
     length (itable s') = length (itable s) \<and> (\<forall>j. j \<noteq> i \<longrightarrow> geti s' j = geti s j) \<and>
     geti s' i = (geti s i)\<lparr>i_addrs := i_addrs (geti s' i)\<rparr> \<and> data_used d s \<subseteq> data_used d s' \<and>
     owned (blk d s') (geti s' i) \<subseteq> owned (blk d s) (geti s i) \<union> - data_used d s \<and>
     (\<forall>b\<in>data_used d s - owned (blk d s) (geti s i). blk d s' b = blk d s b) \<and> (\<forall>b\<in>inode_blocks s. blk d s' b = blk d s b) \<and>
     (\<forall>m<MAXFILE. fblock (blk d s) (geti s i) m \<noteq> 0 \<longrightarrow> fblock (blk d s') (geti s' i) m = fblock (blk d s) (geti s i) m) \<and>
     sym s' = sym s"

lemma file_step_refl: "file_step d i s s"
  by (simp add: file_step_def)

lemma file_stepD:
  assumes "file_step d i s s'"
  shows "sb s' = sb s" "cur s' = cur s" "pmem s' = pmem s" "freelist s' = freelist s" "map idle_proc (procs s') = map idle_proc (procs s)"
    "length (itable s') = length (itable s)" "\<forall>j. j \<noteq> i \<longrightarrow> geti s' j = geti s j" "geti s' i = (geti s i)\<lparr>i_addrs := i_addrs (geti s' i)\<rparr>"
    "data_used d s \<subseteq> data_used d s'" "owned (blk d s') (geti s' i) \<subseteq> owned (blk d s) (geti s i) \<union> - data_used d s"
    "\<forall>b\<in>data_used d s - owned (blk d s) (geti s i). blk d s' b = blk d s b" "\<forall>b\<in>inode_blocks s. blk d s' b = blk d s b"
    "\<forall>m<MAXFILE. fblock (blk d s) (geti s i) m \<noteq> 0 \<longrightarrow> fblock (blk d s') (geti s' i) m = fblock (blk d s) (geti s i) m" "sym s' = sym s"
  using assms by (simp_all add: file_step_def)

lemma file_step_trans:
  assumes "file_step d i s t" "file_step d i t u"
  shows "file_step d i s u"
proof -
  note S = file_stepD [OF assms(1)] and T = file_stepD [OF assms(2)]
  have ib: "inode_blocks t = inode_blocks s" by (rule sb_blocks(2) [OF S(1)])
  have g: "geti u i = (geti s i)\<lparr>i_addrs := i_addrs (geti u i)\<rparr>"
    using arg_cong [OF S(8), of "\<lambda>ip. ip\<lparr>i_addrs := i_addrs (geti u i)\<rparr>"] T(8) by simp
  have o: "owned (blk d u) (geti u i) \<subseteq> owned (blk d s) (geti s i) \<union> - data_used d s" using S(9,10) T(10) by blast
  have "blk d u b = blk d s b" if b: "b \<in> data_used d s - owned (blk d s) (geti s i)" for b
  proof -
    have "b \<in> data_used d t - owned (blk d t) (geti t i)" using b S(9,10) by blast
    then show ?thesis using T(11) S(11) b by simp
  qed
  then show ?thesis
    unfolding file_step_def using S(1-7,12-14) T(1-7,12-14) g o subset_trans [OF S(9) T(9)] ib by simp
qed

lemma seti_views:
  "blk d (seti i f s) = blk d s" "busy d (seti i f s) = busy d s" "hold d (seti i f s) = hold d s" "refs d (seti i f s) = refs d s"
  "cache_inv d (seti i f s) = cache_inv d s" "txn d (seti i f s) = txn d s" "ample d (seti i f s) B k = ample d s B k"
  "bitmap_ok d (seti i f s) = bitmap_ok d s" "data_used d (seti i f s) = data_used d s" "logged (seti i f s) = logged s"
proof -
  let ?t = "seti i f s"
  have e: "bufs ?t = bufs s" "lru ?t = lru s" "disk ?t = disk s" "procs ?t = procs s" "cur ?t = cur s" "klog ?t = klog s" "sb ?t = sb s"
    by (simp_all add: seti_def)
  note c = cache_cong [OF e(1-5), of d]
  show "blk d ?t = blk d s" "busy d ?t = busy d s" "hold d ?t = hold d s" "refs d ?t = refs d s" "cache_inv d ?t = cache_inv d s"
    by (rule c)+
  then show "bitmap_ok d ?t = bitmap_ok d s" "data_used d ?t = data_used d s"
    using bitmap_ok_cong [of d ?t s] data_used_cong [of d ?t s] e(7) by simp_all
  show "txn d ?t = txn d s" "ample d ?t B k = ample d s B k" by (rule txn_cong [OF e(1-6)])+
  show "logged ?t = logged s" by (simp add: logged_def e)
qed

lemma geti_seti: "i < length (itable s) \<Longrightarrow> geti (seti i f s) j = (if j = i then f (geti s i) else geti s j)"
  by (simp add: geti_def seti_def nth_list_update)

lemma file_step_same:
  assumes "fs_frame s s'" "blk d s' = blk d s"
  shows "file_step d i s s'" "fok (data_used d s') (blk d s') (geti s' i) = fok (data_used d s) (blk d s) (geti s i)"
    "file_ok d s' i = file_ok d s i" "bitmap_ok d s' = bitmap_ok d s"
proof -
  note k = fs_frame_keeps [OF assms(1)]
  note u = data_used_cong [OF assms(2) k(1)]
  show "file_step d i s s'" unfolding file_step_def u assms(2) k by simp
  show "fok (data_used d s') (blk d s') (geti s' i) = fok (data_used d s) (blk d s) (geti s i)"
    "file_ok d s' i = file_ok d s i" by (simp_all add: file_ok_def u assms(2) k)
  show "bitmap_ok d s' = bitmap_ok d s" by (rule bitmap_ok_cong [OF assms(2) k(1)])
qed

lemma file_alloc:
  assumes tx: "txn d s" and am: "ample d s B (Suc (Suc k))" and ok: "bitmap_ok d s" and f: "file_ok d s i" and bm: "bitmap_blocks s \<subseteq> B"
    and free: "\<And>x. x < unat (sb_size (sb s)) \<Longrightarrow> \<not> used d s x \<Longrightarrow> of_nat x \<in> B"
  obtains (full) s' where "balloc d s = Some (0, s')" "exhausted d s s'" "\<forall>x<unat (sb_size (sb s)). used d s x"
  | (got) x s' where "balloc d s = Some (x, s')" "txn d s'" "txn_frame s s'" "busy d s' = busy d s" "ample d s' B k"
    "\<forall>j c. hold d s j c \<longrightarrow> hold d s' j c" "x \<noteq> 0" "x \<notin> data_used d s" "x \<in> data_used d s'" "bitmap_ok d s'"
    "blk d s' x = replicate BSIZE 0" "refs_grew d 2 s s'"
    "file_step d i s s'" "file_ok d s' i" "x \<notin> owned (blk d s') (geti s i)" "owned (blk d s') (geti s i) = owned (blk d s) (geti s i)"
    "\<forall>n. fblock (blk d s') (geti s i) n = fblock (blk d s) (geti s i) n"
    "\<forall>k<MAXFILE * BSIZE. fbyte (blk d s') (geti s i) k = contents d s i k"
proof (rule balloc_step [OF tx am ok bm free])
  fix x s' assume g: "balloc d s = Some (x, s')" "txn d s'" "txn_frame s s'" "busy d s' = busy d s" "ample d s' B k"
    "\<forall>j c. hold d s j c \<longrightarrow> hold d s' j c" "x \<noteq> 0" "x \<notin> data_used d s" "data_used d s' = insert x (data_used d s)"
    "bitmap_ok d s'" "blk d s' x = replicate BSIZE 0" "refs_grew d 2 s s'"
    "\<And>b. b \<noteq> x \<Longrightarrow> b \<notin> bitmap_blocks s \<Longrightarrow> blk d s' b = blk d s b"
  note k = txn_frame_keeps [OF g(3)]
  have fo: "fok (data_used d s) (blk d s) (geti s i)" using f by (simp add: file_ok_def)
  have same: "blk d s' b = blk d s b" if "b \<in> data_used d s" for b
  proof (rule g(13))
    show "b \<noteq> x" using that g(8) by blast
    show "b \<notin> bitmap_blocks s" using that by (simp add: data_used_def)
  qed
  note e = fblock_elsewhere [OF fo same]
  have fo': "fok (data_used d s') (blk d s') (geti s i)"
    by (rule fok_elsewhere [OF fo same]) (use g(9) blk_length [OF txnD(1) [OF g(2)]] in auto)
  have xo: "x \<notin> owned (blk d s') (geti s i)" using e(2) fokD(2) [OF fo] g(8) by auto
  have "x \<notin> inode_blocks s" using g(9) sb_blocks [OF k(1)] by (auto simp: data_used_def)
  moreover have "bitmap_blocks s \<inter> inode_blocks s = {}" using ok by (simp add: bitmap_ok_def)
  ultimately have ib: "\<forall>b\<in>inode_blocks s. blk d s' b = blk d s b" by (intro ballI g(13)) blast+
  have st: "file_step d i s s'"
    unfolding file_step_def using k g(9) e(1,2) same ib by auto
  have "file_ok d s' i" using f fo' k(1,2,13) by (simp add: file_ok_def)
  then show thesis using got [OF g(1-8) _ g(10-12) st _ xo e(2)] g(9) e(1,3) by simp
qed (use full in blast)

text \<open>A new block becomes part of the file.\<close>

lemma file_link:
  fixes s s' :: "'a kfs_scheme" and n :: nat
  assumes st: "file_step d i s s1" and f: "file_ok d s1 i" and x: "x \<notin> data_used d s"
  defines "s' \<equiv> seti i (\<lambda>ip. ip\<lparr>i_addrs := (i_addrs ip)[n := x]\<rparr>) s1"
  defines "ip' \<equiv> (geti s1 i)\<lparr>i_addrs := (i_addrs (geti s1 i))[n := x]\<rparr>"
  assumes fo: "fok (data_used d s1) (blk d s1) ip'" and o: "owned (blk d s1) ip' = insert x (owned (blk d s1) (geti s1 i))"
    and m: "\<And>m. fblock (blk d s1) (geti s1 i) m \<noteq> 0 \<Longrightarrow> fblock (blk d s1) ip' m = fblock (blk d s1) (geti s1 i) m"
  shows "file_step d i s s'" "file_ok d s' i" "geti s' i = ip'"
proof -
  have i: "i < length (itable s1)" using f by (simp add: file_ok_def)
  have g: "geti s' j = (if j = i then ip' else geti s1 j)" for j by (simp add: s'_def ip'_def geti_seti [OF i])
  then show "geti s' i = ip'" by simp
  have v: "blk d s' = blk d s1" "data_used d s' = data_used d s1" by (simp_all add: s'_def seti_views)
  have q: "sb s' = sb s1" "cur s' = cur s1" "pmem s' = pmem s1" "freelist s' = freelist s1" "procs s' = procs s1"
    "length (itable s') = length (itable s1)" "sym s' = sym s1" by (simp_all add: s'_def seti_def)
  show "file_ok d s' i" using f fo g by (simp add: file_ok_def v q ip'_def)
  note S = file_stepD [OF st]
  have "geti s' i = (geti s i)\<lparr>i_addrs := i_addrs (geti s' i)\<rparr>"
    using arg_cong [OF S(8), of "\<lambda>ip. ip\<lparr>i_addrs := (i_addrs (geti s1 i))[n := x]\<rparr>"] g by (simp add: ip'_def)
  moreover have "owned (blk d s') (geti s' i) \<subseteq> owned (blk d s) (geti s i) \<union> - data_used d s"
    using S(10) o x g v by auto
  ultimately show "file_step d i s s'" unfolding file_step_def v q using S g m by auto
qed

text \<open>What \<open>bmap\<close> does: it names block \<open>n\<close> of the file, which it may have to allocate, and changes no byte of the file.\<close>

definition block_mapped :: "u32 \<Rightarrow> nat \<Rightarrow> nat \<Rightarrow> 'a kfs_scheme \<Rightarrow> u32 \<Rightarrow> 'a kfs_scheme \<Rightarrow> bool" where
  "block_mapped d i n s addr s' \<longleftrightarrow> file_step d i s s' \<and> addr = fblock (blk d s') (geti s' i) n \<and>
     (\<forall>k<MAXFILE * BSIZE. contents d s' i k = contents d s i k) \<and> (addr = 0 \<longrightarrow> (\<forall>x<unat (sb_size (sb s')). used d s' x))"

lemma block_mapped_trans:
  assumes "file_step d i s t" "\<forall>k<MAXFILE * BSIZE. contents d t i k = contents d s i k" "block_mapped d i n t addr u"
  shows "block_mapped d i n s addr u"
  using assms file_step_trans by (auto simp: block_mapped_def)

lemma fsokD:
  assumes "fsok d s i k"
  shows "txn d s" "ample d s UNIV k" "bitmap_ok d s" "file_ok d s i" "i < length (itable s)" "i_dev (geti s i) = d"
    "fok (data_used d s) (blk d s) (geti s i)"
  using assms by (auto simp: fsok_def file_ok_def)

lemma ample_le: "ample d s B k \<Longrightarrow> l \<le> k \<Longrightarrow> ample d s B l"
  by (force simp: ample_def)

lemma fsok_le: "fsok d s i k \<Longrightarrow> l \<le> k \<Longrightarrow> fsok d s i l"
  unfolding fsok_def using ample_le [of d s UNIV k l] by blast

lemma exhausted_step:
  assumes "exhausted d s s'" "fsok d s i k" "\<forall>x<unat (sb_size (sb s)). used d s x"
  shows "fsok d s' i k" "file_step d i s s'" "contents d s' i = contents d s i" "geti s' i = geti s i" "blk d s' = blk d s"
    "\<forall>x<unat (sb_size (sb s')). used d s' x"
proof -
  have e: "txn d s'" "fs_frame s s'" "blk d s' = blk d s" "busy d s' = busy d s" "refs d s' = refs d s" "logged s' = logged s"
    using assms(1) by (auto simp: exhausted_def)
  note k = fs_frame_keeps [OF e(2)]
  have am: "ample d s' UNIV k" by (rule ample_same [OF fsokD(2) [OF assms(2)] e(4-6)])
  show "fsok d s' i k" "file_step d i s s'" using file_step_same [OF e(2,3)] am e(1) assms(2) by (simp_all add: fsok_def)
  show "contents d s' i = contents d s i" "geti s' i = geti s i" "blk d s' = blk d s" by (simp_all add: e(3) k)
  show "\<forall>x<unat (sb_size (sb s')). used d s' x" using assms(3) used_cong [OF e(3) k(1)] k(1) by simp
qed

lemma bmap_direct:
  assumes s: "fsok d s i (Suc (Suc k))" and n: "n < NDIRECT"
  obtains addr s' where "bmap i n s = Some (addr, s')" "fsok d s' i k" "block_mapped d i n s addr s'"
proof (cases "i_addrs (geti s i) ! n = 0")
  case False
  have "fsok d s i k" by (rule fsok_le [OF s]) simp
  moreover have "bmap i n s = Some (i_addrs (geti s i) ! n, s)" using False n by (simp add: bmap_def Let_def)
  moreover have "block_mapped d i n s (i_addrs (geti s i) ! n) s" using False n by (simp add: block_mapped_def file_step_refl fblock_def)
  ultimately show thesis using that by blast
next
  case True
  note D = fsokD [OF s]
  show thesis
  proof (rule file_alloc [OF D(1-4) subset_UNIV UNIV_I])
    fix s' assume f: "balloc d s = Some (0, s')" "exhausted d s s'" "\<forall>x<unat (sb_size (sb s)). used d s x"
    note e = exhausted_step [OF f(2) s f(3)]
    have "bmap i n s = Some (0, s')" using True n f(1) D(6) by (simp add: bmap_def Let_def)
    moreover have "fsok d s' i k" by (rule fsok_le [OF e(1)]) simp
    moreover have "block_mapped d i n s 0 s'" using e True n by (simp add: block_mapped_def fblock_def)
    ultimately show thesis by (rule that)
  next
    fix x s1 assume g: "balloc d s = Some (x, s1)" "txn d s1" "txn_frame s s1" "ample d s1 UNIV k" "x \<noteq> 0" "x \<notin> data_used d s"
      "x \<in> data_used d s1" "bitmap_ok d s1" "blk d s1 x = replicate BSIZE 0" "file_step d i s s1" "file_ok d s1 i"
      "x \<notin> owned (blk d s1) (geti s i)" "\<forall>k<MAXFILE * BSIZE. fbyte (blk d s1) (geti s i) k = contents d s i k"
    let ?s = "seti i (\<lambda>ip. ip\<lparr>i_addrs := (i_addrs ip)[n := x]\<rparr>) s1"
    have gi: "geti s1 i = geti s i" using txn_frame_keeps(13) [OF g(3)] by simp
    have fo: "fok (data_used d s1) (blk d s1) (geti s1 i)" using g(11) by (simp add: file_ok_def)
    have z: "i_addrs (geti s1 i) ! n = 0" using True gi by simp
    have xo: "x \<notin> owned (blk d s1) (geti s1 i)" using g(12) gi by simp
    note a = add_direct [OF fo n z g(7,5) xo g(9)]
    note l = file_link [OF g(10,11,6) a(1,4,5)]
    have "bmap i n s = Some (x, ?s)" using True n g(1,5) D(6) by (simp add: bmap_def Let_def)
    moreover have "fsok d ?s i k" using l(2) g(2,4,8) by (simp add: fsok_def seti_views)
    moreover have "block_mapped d i n s x ?s"
      using l(1,3) a(2,3) g(5,13) gi by (simp add: block_mapped_def seti_views)
    ultimately show thesis by (rule that)
  qed
qed

text \<open>A write to a block of the file.\<close>

lemma used_write:
  assumes "blk d t = (blk d s)(b := v)" "b \<notin> bitmap_blocks s" "sb t = sb s"
  shows "data_used d t = data_used d s" "bitmap_ok d t = bitmap_ok d s" "x < unat (sb_size (sb s)) \<Longrightarrow> used d t x = used d s x"
proof -
  show u: "used d t x = used d s x" if "x < unat (sb_size (sb s))" for x
  proof -
    have "BBLOCK (of_nat x) (sb s) \<noteq> b" using bitmap_blocksI [OF that] assms(2) by auto
    then show ?thesis by (simp add: used_def assms(1,3))
  qed
  show "data_used d t = data_used d s"
    using u sb_blocks [OF assms(3)] by (auto simp: data_used_def assms(3) word_less_nat_alt)
  show "bitmap_ok d t = bitmap_ok d s"
    using u sb_blocks [OF assms(3)] by (auto simp: bitmap_ok_def assms(3))
qed

lemma file_put:
  assumes st: "file_step d i s s1" and f: "file_ok d s1 i" and fr: "txn_frame s1 s2" and b: "b \<in> owned (blk d s1) (geti s1 i)"
    and bl: "blk d s2 = (blk d s1)(b := v)" and fo: "fok (data_used d s1) (blk d s2) (geti s1 i)"
    and o: "owned (blk d s2) (geti s1 i) \<subseteq> owned (blk d s1) (geti s1 i) \<union> - data_used d s"
    and m: "\<And>m. m < MAXFILE \<Longrightarrow> fblock (blk d s1) (geti s1 i) m \<noteq> 0 \<Longrightarrow> fblock (blk d s2) (geti s1 i) m = fblock (blk d s1) (geti s1 i) m"
  shows "file_step d i s s2" "file_ok d s2 i" "bitmap_ok d s2 = bitmap_ok d s1" "data_used d s2 = data_used d s1" "geti s2 = geti s1"
proof -
  note k = txn_frame_keeps [OF fr] and S = file_stepD [OF st]
  have bu: "b \<in> data_used d s1" using f b fokD(2) unfolding file_ok_def by blast
  have nm: "b \<notin> bitmap_blocks s1" using bu by (simp add: data_used_def)
  note u = used_write [OF bl nm k(1)]
  show du: "data_used d s2 = data_used d s1" and "bitmap_ok d s2 = bitmap_ok d s1" by (rule u)+
  show g: "geti s2 = geti s1" by (simp add: k fun_eq_iff)
  show "file_ok d s2 i" using f fo by (simp add: file_ok_def du g k)
  have ib: "b \<notin> inode_blocks s" using bu sb_blocks(2) [OF S(1)] by (auto simp: data_used_def)
  have nb: "b \<notin> data_used d s - owned (blk d s) (geti s i)" using b S(10) by blast
  have "owned (blk d s2) (geti s2 i) \<subseteq> owned (blk d s) (geti s i) \<union> - data_used d s" using o S(10) g by auto
  then show "file_step d i s s2" unfolding file_step_def using S k nb ib m by (auto simp: du g bl)
qed

text \<open>The part of \<open>bmap\<close> that reads and may extend the indirect block.\<close>

definition bmap_entry :: "u32 \<Rightarrow> u32 \<Rightarrow> nat \<Rightarrow> 'a kfs_scheme \<Rightarrow> (u32 \<times> 'a kfs_scheme) option" where
  "bmap_entry d ind n s = do {
     (bp, s) \<leftarrow> bread d ind s;
     let addr = get32 (b_data (getb s bp)) (4 * n);
     (addr, s) \<leftarrow>
       (if addr = 0 then do {
          (addr, s) \<leftarrow> balloc d s;
          if addr \<noteq> 0 then do {
            s \<leftarrow> log_write bp (set_data bp (\<lambda>bs. put32 bs (4 * n) addr) s);
            Some (addr, s)
          } else Some (addr, s)
        } else Some (addr, s));
     s \<leftarrow> brelse bp s;
     Some (addr, s)
   }"

lemma ample_read:
  assumes "ample d s UNIV (Suc k)" "refs d s1 = (refs d s)(b := refs d s b + 1)" "busy d s1 = (busy d s)(b := True)" "logged s1 = logged s"
  shows "ample d s1 (- {b}) k"
proof -
  have "refs d s c + Suc k < 2 ^ 32 - 1" "\<not> busy d s c" for c using assms(1) by (simp_all add: ample_def)
  then have "\<forall>c\<in>- {b}. \<not> busy d s1 c \<and> refs d s1 c + k < 2 ^ 32 - 1" using assms(2,3) by (metis Suc_lessD ComplD add_Suc_right fun_upd_other singletonI)
  moreover have "in_use d s1 + k \<le> NBUF" using in_use_add [OF assms(2)] assms(1) by (simp add: ample_def)
  ultimately show ?thesis using assms(1,4) by (simp add: ample_def)
qed

lemma ample_idle: "ample d s UNIV (Suc k) \<Longrightarrow> \<not> busy d s b \<and> refs d s b + Suc k < 2 ^ 32 - 1 \<and> in_use d s < NBUF \<and> length (logged s) < LOGBLOCKS"
  by (simp add: ample_def)

lemma ample_release:
  assumes a: "ample d s UNIV (Suc (Suc (Suc (Suc k))))" "ample d s2 (- {b}) (Suc k)" and r: "refs d s2 b \<noteq> 0" "refs d s2 b \<le> refs d s b + 3"
    and t: "refs d t = (refs d s2)(b := refs d s2 b + (if b \<in> set (logged s2) then 0 else 1) - 1)" "busy d t = (busy d s2)(b := False)"
      "logged t = (if b \<in> set (logged s2) then logged s2 else logged s2 @ [b])"
  shows "ample d t UNIV k"
proof -
  have "refs d t c + k < 2 ^ 32 - 1 \<and> \<not> busy d t c" for c
    using a r(2) t(1,2) by (cases "c = b") (auto simp: ample_def dest!: spec [of _ b] bspec [of _ _ c])
  moreover have "in_use d t \<le> in_use d s2" unfolding in_use_def by (rule card_mono) (use r(1) t(1) in auto)
  moreover have "in_use d s2 + k \<le> NBUF" "length (logged t) + k \<le> LOGBLOCKS" using a(2) t(3) by (simp_all add: ample_def)
  ultimately show ?thesis by (simp add: ample_def)
qed

lemma bmap_entry_spec:
  assumes s: "fsok d s i (Suc (Suc (Suc (Suc k))))" and n: "NDIRECT \<le> n" "n < MAXFILE" and i: "i_addrs (geti s i) ! NDIRECT = ind" "ind \<noteq> 0"
  obtains addr s' where "bmap_entry d ind (n - NDIRECT) s = Some (addr, s')" "fsok d s' i k" "block_mapped d i n s addr s'"
proof -
  note D = fsokD [OF s]
  let ?e = "get32 (blk d s ind) (4 * (n - NDIRECT))"
  have fb: "fblock (blk d s) (geti s i) n = ?e" using n i by (simp add: fblock_def)
  have iu: "ind \<in> data_used d s" using owned_indirect [of "geti s i" "blk d s"] fokD(2) [OF D(7)] i by auto
  note id = ample_idle [OF D(2), of ind]
  obtain bp s1 where 1: "bread d ind s = Some (bp, s1)" "txn d s1" "bio_frame s s1" "hold d s1 bp ind" "b_data (getb s1 bp) = blk d s ind"
    "blk d s1 = blk d s" "disk s1 = disk s" "dhist s1 = dhist s" "refs d s1 = (refs d s)(ind := refs d s ind + 1)"
    "busy d s1 = (busy d s)(ind := True)" "logged s1 = logged s"
    by (rule txn_read [OF D(1)]) (use id in auto)
  have fr1: "fs_frame s s1" by (rule fs_frame_txn [OF txn_frame_bio [OF 1(3)]])
  note k1 = fs_frame_keeps [OF fr1] and st1 = file_step_same [OF fr1 1(6)]
  have r1: "ind \<in> set (logged s) \<longrightarrow> refs d s ind \<noteq> 0" using D(1) by (simp add: txn_def)
  have unbusy: "(busy d s)(ind := True, ind := False) = busy d s" using id by (simp add: fun_eq_iff)
  show thesis
  proof (cases "?e = 0")
    case False
    have r: "ind \<in> set (logged s1) \<longrightarrow> 1 < refs d s1 ind" using r1 1(9,11) by simp
    obtain s' where 2: "brelse bp s1 = Some s'" "txn d s'" "bio_frame s1 s'" "blk d s' = blk d s1"
      "refs d s' = (refs d s1)(ind := refs d s1 ind - 1)" "busy d s' = (busy d s1)(ind := False)" "logged s' = logged s1"
      by (rule txn_release [OF 1(2,4) r])
    have fr: "fs_frame s s'" by (rule fs_frame_trans [OF fr1 fs_frame_txn [OF txn_frame_bio [OF 2(3)]]])
    have bl: "blk d s' = blk d s" using 2(4) 1(6) by simp
    have am: "ample d s' UNIV k"
      by (rule ample_le [OF ample_same [OF D(2)]]) (use 2 1 unbusy in \<open>simp_all add: fun_eq_iff\<close>)
    have "bmap_entry d ind (n - NDIRECT) s = Some (?e, s')" using 1(1,5) 2(1) False by (simp add: bmap_entry_def Let_def)
    moreover have "fsok d s' i k" using file_step_same [OF fr bl] am 2(2) D by (simp add: fsok_def)
    moreover have "block_mapped d i n s ?e s'"
      using file_step_same(1) [OF fr bl] False fb by (simp add: block_mapped_def bl fs_frame_keeps [OF fr])
    ultimately show thesis by (rule that)
  next
    case True
    have am1: "ample d s1 (- {ind}) (Suc (Suc (Suc k)))" by (rule ample_read [OF D(2) 1(9-11)])
    have bm: "bitmap_blocks s1 \<subseteq> - {ind}" using iu sb_blocks(1) [OF k1(1)] by (auto simp: data_used_def)
    have free: "of_nat x \<in> - {ind}" if "x < unat (sb_size (sb s1))" "\<not> used d s1 x" for x
    proof -
      have "unat (sb_size (sb s)) < 2 ^ 32" using unsigned_less [of "sb_size (sb s)"] by simp
      then have "unat (of_nat x :: u32) = x" using that(1) k1(1) by (simp add: unat_of_nat)
      then show ?thesis using that(2) iu used_cong [OF 1(6) k1(1)] by (auto simp: data_used_def)
    qed
    have ok1: "bitmap_ok d s1" "file_ok d s1 i" using st1(3,4) D(3,4) by simp_all
    show thesis
    proof (rule file_alloc [OF 1(2) am1 ok1 bm free])
      fix s2 assume f: "balloc d s1 = Some (0, s2)" "exhausted d s1 s2" "\<forall>x<unat (sb_size (sb s1)). used d s1 x"
      have e: "txn d s2" "fs_frame s1 s2" "blk d s2 = blk d s1" "busy d s2 = busy d s1" "refs d s2 = refs d s1" "logged s2 = logged s1"
        "hold d s2 bp ind" using f(2) 1(4) by (auto simp: exhausted_def)
      have r: "ind \<in> set (logged s2) \<longrightarrow> 1 < refs d s2 ind" using r1 1(9,11) e by simp
      obtain s' where 2: "brelse bp s2 = Some s'" "txn d s'" "bio_frame s2 s'" "blk d s' = blk d s2"
        "refs d s' = (refs d s2)(ind := refs d s2 ind - 1)" "busy d s' = (busy d s2)(ind := False)" "logged s' = logged s2"
        by (rule txn_release [OF e(1,7) r])
      have fr: "fs_frame s s'" by (rule fs_frame_trans [OF fs_frame_trans [OF fr1 e(2)] fs_frame_txn [OF txn_frame_bio [OF 2(3)]]])
      have bl: "blk d s' = blk d s" using 2(4) e(3) 1(6) by simp
      note kk = fs_frame_keeps [OF fr]
      have am: "ample d s' UNIV k"
        by (rule ample_le [OF ample_same [OF D(2)]]) (use 2 1 e unbusy in \<open>simp_all add: fun_eq_iff\<close>)
      have "\<forall>x<unat (sb_size (sb s')). used d s' x"
        using f(3) used_cong [OF 1(6) k1(1)] used_cong [OF bl kk(1)] by (simp add: kk(1) k1(1))
      then have "block_mapped d i n s 0 s'"
        using file_step_same(1) [OF fr bl] fb True by (simp add: block_mapped_def bl kk)
      moreover have "bmap_entry d ind (n - NDIRECT) s = Some (0, s')" using 1(1,5) f(1) 2(1) True by (simp add: bmap_entry_def Let_def)
      moreover have "fsok d s' i k" using file_step_same [OF fr bl] am 2(2) D by (simp add: fsok_def)
      ultimately show thesis using that by blast
    next
      fix x s2 assume g: "balloc d s1 = Some (x, s2)" "txn d s2" "txn_frame s1 s2" "busy d s2 = busy d s1" "ample d s2 (- {ind}) (Suc k)"
        "\<forall>j c. hold d s1 j c \<longrightarrow> hold d s2 j c" "x \<noteq> 0" "x \<notin> data_used d s1" "x \<in> data_used d s2" "bitmap_ok d s2"
        "blk d s2 x = replicate BSIZE 0" "refs_grew d 2 s1 s2"
        "file_step d i s1 s2" "file_ok d s2 i" "x \<notin> owned (blk d s2) (geti s1 i)" "owned (blk d s2) (geti s1 i) = owned (blk d s1) (geti s1 i)"
        "\<forall>m. fblock (blk d s2) (geti s1 i) m = fblock (blk d s1) (geti s1 i) m"
        "\<forall>k<MAXFILE * BSIZE. fbyte (blk d s2) (geti s1 i) k = contents d s1 i k"
      note k2 = txn_frame_keeps [OF g(3)]
      have g2: "geti s2 = geti s1" "geti s1 = geti s" using k2 k1 by (simp_all add: fun_eq_iff)
      have h2: "hold d s2 bp ind" using g(6) 1(4) by blast
      have o2: "ind \<in> owned (blk d s2) (geti s2 i)" using owned_indirect [of "geti s i" "blk d s2"] i g2 by simp
      have iu2: "ind \<in> data_used d s2" using g(14) o2 fokD(2) unfolding file_ok_def by blast
      have rg: "refs d s1 ind \<le> refs d s2 ind" "refs d s2 ind \<le> refs d s1 ind + 2" "ind \<in> set (logged s2) \<longrightarrow> ind \<in> set (logged s1) \<or> refs d s1 ind < refs d s2 ind"
        using g(12) by (simp_all add: refs_grew_def)
      have r2: "refs d s2 ind < 2 ^ 32 - 1" using rg(2) 1(9) id by simp
      have l2: "length (put32 (blk d s2 ind) (4 * (n - NDIRECT)) x) = BSIZE" using blk_length [OF txnD(1) [OF g(2)]] n by simp
      have sp: "length (logged s2) < LOGBLOCKS" using g(5) by (simp add: ample_def)
      obtain s3 where 3: "log_write bp (set_data bp (\<lambda>bs. put32 bs (4 * (n - NDIRECT)) x) s2) = Some s3" "txn d s3" "txn_frame s2 s3"
        "hold d s3 = hold d s2" "blk d s3 = (blk d s2)(ind := put32 (blk d s2 ind) (4 * (n - NDIRECT)) x)" "busy d s3 = busy d s2"
        "refs d s3 = (refs d s2)(ind := refs d s2 ind + (if ind \<in> set (logged s2) then 0 else 1))"
        "logged s3 = (if ind \<in> set (logged s2) then logged s2 else logged s2 @ [ind])"
        by (rule txn_held_update [where f = "\<lambda>bs. put32 bs (4 * (n - NDIRECT)) x", OF g(2) h2 r2 l2 sp])
      have h3: "hold d s3 bp ind" using h2 3(4) by simp
      have r3: "ind \<in> set (logged s3) \<longrightarrow> 1 < refs d s3 ind" using rg r1 1(9,11) 3(7) by auto
      obtain s4 where 4: "brelse bp s3 = Some s4" "txn d s4" "bio_frame s3 s4" "blk d s4 = blk d s3"
        "refs d s4 = (refs d s3)(ind := refs d s3 ind - 1)" "busy d s4 = (busy d s3)(ind := False)" "logged s4 = logged s3"
        by (rule txn_release [OF 3(2) h3 r3])
      have am: "ample d s4 UNIV k"
        by (rule ample_release [OF D(2) g(5)]) (use rg 1(9) 3(7,8) 4(5-7) 3(6) in auto)
      have fr: "txn_frame s2 s4" by (rule txn_frame_trans [OF 3(3) txn_frame_bio [OF 4(3)]])
      have bl: "blk d s4 = (blk d s2)(ind := put32 (blk d s2 ind) (4 * (n - NDIRECT)) x)" using 4(4) 3(5) by simp
      have fo: "fok (data_used d s2) (blk d s2) (geti s2 i)" using g(14) by (simp add: file_ok_def)
      have z: "fblock (blk d s2) (geti s2 i) n = 0" using g(17) g2 fb True 1(6) by simp
      have xo: "x \<notin> owned (blk d s2) (geti s2 i)" using g(15) g2 by simp
      have nz: "i_addrs (geti s2 i) ! NDIRECT \<noteq> 0" and ie: "i_addrs (geti s2 i) ! NDIRECT = ind" using i g2 by simp_all
      note a = add_entry [OF fo n z nz g(9,7) xo g(11), unfolded ie, folded bl]
      have o: "owned (blk d s4) (geti s2 i) \<subseteq> owned (blk d s2) (geti s2 i) \<union> - data_used d s1" using a(4) g(8) by auto
      note p = file_put [OF g(13,14) fr o2 bl a(1) o a(5)]
      have "bmap_entry d ind (n - NDIRECT) s = Some (x, s4)" using 1(1,5) g(1,7) 3(1) 4(1) True by (simp add: bmap_entry_def Let_def)
      moreover have "fsok d s4 i k" using p(2,3) g(10) 4(2) am by (simp add: fsok_def)
      moreover have "block_mapped d i n s x s4"
        using file_step_trans [OF st1(1) p(1)] a(2,3) g(7,18) g2 p(5) 1(6) by (simp add: block_mapped_def)
      ultimately show thesis by (rule that)
    qed
  qed
qed

lemma bmap_far:
  assumes "NDIRECT \<le> n" "n < MAXFILE"
  shows "bmap i n s = do {
     (ind, t) \<leftarrow>
       (if i_addrs (geti s i) ! NDIRECT = 0 then do {
          (addr, t) \<leftarrow> balloc (i_dev (geti s i)) s;
          if addr = 0 then Some (0, t)
          else Some (addr, seti i (\<lambda>ip. ip\<lparr>i_addrs := (i_addrs ip)[NDIRECT := addr]\<rparr>) t)
        } else Some (i_addrs (geti s i) ! NDIRECT, s));
     if ind = 0 then Some (0, t) else bmap_entry (i_dev (geti s i)) ind (n - NDIRECT) t
   }"
proof -
  have "\<not> n < NDIRECT" "n - NDIRECT < NINDIRECT" using assms by simp_all
  then show ?thesis unfolding bmap_def bmap_entry_def Let_def by simp
qed

lemma bmap_indirect:
  assumes s: "fsok d s i (k + 6)" and n: "NDIRECT \<le> n" "n < MAXFILE"
  obtains addr s' where "bmap i n s = Some (addr, s')" "fsok d s' i k" "block_mapped d i n s addr s'"
proof (cases "i_addrs (geti s i) ! NDIRECT = 0")
  case False
  have "fsok d s i (Suc (Suc (Suc (Suc k))))" by (rule fsok_le [OF s]) simp
  then obtain addr s' where e: "bmap_entry d (i_addrs (geti s i) ! NDIRECT) (n - NDIRECT) s = Some (addr, s')"
    "fsok d s' i k" "block_mapped d i n s addr s'" by (rule bmap_entry_spec [OF _ n refl False])
  have "bmap i n s = Some (addr, s')" using e(1) False fsokD(6) [OF s] by (simp add: bmap_far [OF n])
  then show thesis using e(2,3) by (rule that)
next
  case True
  have s': "fsok d s i (Suc (Suc (Suc (Suc (Suc (Suc k))))))" by (rule fsok_le [OF s]) simp
  note D = fsokD [OF s']
  have fz: "fblock (blk d t) (geti s i) n = 0" for t :: "'a kfs_scheme" using True n by (simp add: fblock_def)
  show thesis
  proof (rule file_alloc [OF D(1-4) subset_UNIV UNIV_I])
    fix s' assume f: "balloc d s = Some (0, s')" "exhausted d s s'" "\<forall>x<unat (sb_size (sb s)). used d s x"
    note e = exhausted_step [OF f(2) s f(3)]
    have "bmap i n s = Some (0, s')" using True f(1) D(6) by (simp add: bmap_far [OF n])
    moreover have "fsok d s' i k" by (rule fsok_le [OF e(1)]) simp
    moreover have "block_mapped d i n s 0 s'" using e fz by (simp add: block_mapped_def)
    ultimately show thesis by (rule that)
  next
    fix x s1 assume g: "balloc d s = Some (x, s1)" "txn d s1" "txn_frame s s1" "ample d s1 UNIV (Suc (Suc (Suc (Suc k))))" "x \<noteq> 0" "x \<notin> data_used d s"
      "x \<in> data_used d s1" "bitmap_ok d s1" "blk d s1 x = replicate BSIZE 0" "file_step d i s s1" "file_ok d s1 i"
      "x \<notin> owned (blk d s1) (geti s i)" "\<forall>k<MAXFILE * BSIZE. fbyte (blk d s1) (geti s i) k = contents d s i k"
    let ?s = "seti i (\<lambda>ip. ip\<lparr>i_addrs := (i_addrs ip)[NDIRECT := x]\<rparr>) s1"
    have gi: "geti s1 i = geti s i" using txn_frame_keeps(13) [OF g(3)] by simp
    have fo: "fok (data_used d s1) (blk d s1) (geti s1 i)" using g(11) by (simp add: file_ok_def)
    have z: "i_addrs (geti s1 i) ! NDIRECT = 0" using True gi by simp
    have xo: "x \<notin> owned (blk d s1) (geti s1 i)" using g(12) gi by simp
    note a = add_indirect [OF fo z g(7,5) xo g(9)]
    note l = file_link [OF g(10,11,6) a(1,4,2)]
    have ok: "fsok d ?s i (Suc (Suc (Suc (Suc k))))" using l(2) g(2,4,8) by (simp add: fsok_def seti_views)
    have ix: "i_addrs (geti ?s i) ! NDIRECT = x" using l(3) a(5) by simp
    obtain addr s' where e: "bmap_entry d x (n - NDIRECT) ?s = Some (addr, s')" "fsok d s' i k" "block_mapped d i n ?s addr s'"
      by (rule bmap_entry_spec [OF ok n ix g(5)])
    have "bmap i n s = Some (addr, s')" using e(1) True g(1,5) D(6) by (simp add: bmap_far [OF n])
    moreover have "block_mapped d i n s addr s'"
      by (rule block_mapped_trans [OF l(1) _ e(3)]) (use l(3) a(3) g(13) gi in \<open>simp add: seti_views\<close>)
    ultimately show thesis using e(2) that by blast
  qed
qed

lemma bmap_spec:
  assumes s: "fsok d s i (k + 6)" and n: "n < MAXFILE"
  obtains addr s' where "bmap i n s = Some (addr, s')" "fsok d s' i k" "block_mapped d i n s addr s'"
proof (cases "n < NDIRECT")
  case True
  have "fsok d s i (Suc (Suc k))" by (rule fsok_le [OF s]) simp
  then show thesis using that by (rule bmap_direct [OF _ True])
next
  case False
  then have "NDIRECT \<le> n" by simp
  then show thesis using that by (rule bmap_indirect [OF s _ n])
qed

end
