(* ===== verification/FileIO.thy ===== *)
theory FileIO
  imports FileData
begin

text \<open>
  Reading and writing files: \<open>readi\<close> and \<open>writei\<close> of \<open>kernel/fs.c\<close> on the contents of the file. Reading returns the
  bytes of the file; writing replaces exactly the bytes it reports as written, on a full disk too, and reading them
  back gives what was written.
\<close>

section \<open>Reading\<close>

text \<open>A step that only looks at blocks.\<close>

definition fs_look :: "u32 \<Rightarrow> 'a kfs_scheme \<Rightarrow> 'a kfs_scheme \<Rightarrow> bool" where
  "fs_look d s s' \<longleftrightarrow> txn d s' \<and> bio_frame s s' \<and> blk d s' = blk d s \<and> busy d s' = busy d s \<and> refs d s' = refs d s \<and> logged s' = logged s"

lemma fs_look_refl: "txn d s \<Longrightarrow> fs_look d s s"
  by (simp add: fs_look_def bio_frame_refl)

lemma fs_look_trans: "fs_look d s t \<Longrightarrow> fs_look d t u \<Longrightarrow> fs_look d s u"
  using bio_frame_trans by (auto simp: fs_look_def)

lemma fs_look_keeps:
  assumes "fs_look d s s'"
  shows "geti s' = geti s" "blk d s' = blk d s" "sb s' = sb s" "fsok d s i k \<Longrightarrow> fsok d s' i k" "file_step d i s s'"
proof -
  have l: "txn d s'" "bio_frame s s'" "blk d s' = blk d s" "busy d s' = busy d s" "refs d s' = refs d s" "logged s' = logged s"
    using assms by (simp_all add: fs_look_def)
  have fr: "fs_frame s s'" by (rule fs_frame_txn [OF txn_frame_bio [OF l(2)]])
  show "geti s' = geti s" "blk d s' = blk d s" "sb s' = sb s" "file_step d i s s'"
    using fs_frame_keeps [OF fr] l(3) file_step_same(1) [OF fr l(3)] by simp_all
  assume f: "fsok d s i k"
  have "ample d s' UNIV k" by (rule ample_same [OF fsokD(2) [OF f] l(4-6)])
  then show "fsok d s' i k" using f l(1) file_step_same(3,4) [OF fr l(3)] by (simp add: fsok_def)
qed

lemma look_block:
  assumes s: "fsok d s i (Suc k)"
  obtains bp s1 s' where "bread d b s = Some (bp, s1)" "b_data (getb s1 bp) = blk d s b" "brelse bp s1 = Some s'" "fs_look d s s'"
proof -
  note D = fsokD [OF s] and id = ample_idle [OF fsokD(2) [OF s], of b]
  obtain bp s1 s' where 1: "bread d b s = Some (bp, s1)" "b_data (getb s1 bp) = blk d s b" "bio_frame s s1" "brelse bp s1 = Some s'" "txn d s'"
    "bio_frame s s'" "blk d s' = blk d s" "disk s' = disk s" "dhist s' = dhist s" "busy d s' = busy d s" "refs d s' = refs d s"
    "logged s' = logged s" by (rule logged_peek [OF D(1)]) (use id in auto)
  show thesis by (rule that [OF 1(1,2,4)]) (use 1 in \<open>simp add: fs_look_def\<close>)
qed

lemma bmap_present:
  assumes s: "fsok d s i (Suc k)" and n: "n < MAXFILE" and nz: "fblock (blk d s) (geti s i) n \<noteq> 0"
  obtains s' where "bmap i n s = Some (fblock (blk d s) (geti s i) n, s')" "fs_look d s s'"
proof (cases "n < NDIRECT")
  case True
  then have "bmap i n s = Some (fblock (blk d s) (geti s i) n, s)" using nz by (simp add: bmap_def fblock_def Let_def)
  then show thesis using fs_look_refl [OF fsokD(1) [OF s]] by (rule that)
next
  case False
  let ?ind = "i_addrs (geti s i) ! NDIRECT"
  have e: "?ind \<noteq> 0" "get32 (blk d s ?ind) (4 * (n - NDIRECT)) \<noteq> 0"
    "fblock (blk d s) (geti s i) n = get32 (blk d s ?ind) (4 * (n - NDIRECT))"
    using nz False by (auto simp: fblock_def split: if_splits)
  obtain bp s1 s' where 1: "bread d ?ind s = Some (bp, s1)" "b_data (getb s1 bp) = blk d s ?ind" "brelse bp s1 = Some s'" "fs_look d s s'"
    by (rule look_block [OF s])
  have n': "NDIRECT \<le> n" using False by simp
  have "bmap i n s = Some (fblock (blk d s) (geti s i) n, s')"
    using 1(1-3) e fsokD(6) [OF s] by (simp add: bmap_far [OF n' n] bmap_entry_def Let_def)
  then show thesis using 1(4) by (rule that)
qed

lemma within_block:
  assumes "off mod BSIZE + j < BSIZE"
  shows "(off + j) div BSIZE = off div BSIZE" "(off + j) mod BSIZE = off mod BSIZE + j"
proof -
  have q: "off = off div BSIZE * BSIZE + off mod BSIZE" by simp
  then have "off div BSIZE * BSIZE \<le> off + j" "off + j < off div BSIZE * BSIZE + BSIZE" using assms by linarith+
  then show d: "(off + j) div BSIZE = off div BSIZE" by (intro div_nat_eqI) (simp_all add: mult.commute)
  show "(off + j) mod BSIZE = off mod BSIZE + j" using d q div_mult_mod_eq [of "off + j" BSIZE] by linarith
qed

lemma block_bytes:
  assumes f: "fok U B ip" and l: "m \<le> BSIZE - off mod BSIZE" and n: "off div BSIZE < MAXFILE" and nz: "fblock B ip (off div BSIZE) \<noteq> 0"
  shows "get_bytes (B (fblock B ip (off div BSIZE))) (off mod BSIZE) m = map (fbyte B ip) [off..<off + m]"
proof (rule nth_equalityI)
  have len: "length (B (fblock B ip (off div BSIZE))) = BSIZE" using fokD(2,3) [OF f] owned_data [OF n nz] by blast
  show "length (get_bytes (B (fblock B ip (off div BSIZE))) (off mod BSIZE) m) = length (map (fbyte B ip) [off..<off + m])"
    using len l by (simp add: get_bytes_def)
  fix j assume j: "j < length (get_bytes (B (fblock B ip (off div BSIZE))) (off mod BSIZE) m)"
  then have jm: "j < m" "off mod BSIZE + j < BSIZE" using len l by (auto simp: get_bytes_def)
  note dm = within_block [OF jm(2)]
  show "get_bytes (B (fblock B ip (off div BSIZE))) (off mod BSIZE) m ! j = map (fbyte B ip) [off..<off + m] ! j"
    using jm nz len dm by (simp add: get_bytes_def fbyte_def)
qed

text \<open>Both loops go from block to block: the chunk of one round, and what is left for the next.\<close>

lemma chunk:
  fixes n off :: nat
  assumes "0 < n"
  defines "m \<equiv> min n (BSIZE - off mod BSIZE)"
  shows "0 < m" "m \<le> n" "m \<le> BSIZE - off mod BSIZE" "n - m < n" "off \<le> off + m" "n - m \<noteq> 0 \<Longrightarrow> (off + m) mod BSIZE = 0 \<and> (off + m) div BSIZE = Suc (off div BSIZE)"
proof -
  have q: "off = off div BSIZE * BSIZE + off mod BSIZE" "off mod BSIZE < BSIZE" by simp_all
  then show "0 < m" "m \<le> n" "m \<le> BSIZE - off mod BSIZE" "n - m < n" "off \<le> off + m" using assms by auto
  assume "n - m \<noteq> 0"
  then have "m = BSIZE - off mod BSIZE" by (simp add: m_def)
  then have "off + m = Suc (off div BSIZE) * BSIZE" unfolding mult_Suc using q by linarith
  then show "(off + m) mod BSIZE = 0 \<and> (off + m) div BSIZE = Suc (off div BSIZE)" by simp
qed

definition mapped_range :: "u32 \<Rightarrow> 'a kfs_scheme \<Rightarrow> nat \<Rightarrow> nat \<Rightarrow> nat \<Rightarrow> bool" where
  "mapped_range d s i off n \<longleftrightarrow> (\<forall>j. off \<le> j \<and> j < off + n \<longrightarrow> fblock (blk d s) (geti s i) (j div BSIZE) \<noteq> 0)"

lemma readi_loop_spec:
  assumes "fsok d s i (Suc k)" "off + n \<le> MAXFILE * BSIZE" "mapped_range d s i off n"
  shows "\<exists>s'. readi_loop i None off n s = Some (int n, map (contents d s i) [off..<off + n], s') \<and> fs_look d s s'"
  using assms
proof (induction n arbitrary: off s rule: less_induct)
  case (less n)
  note D = fsokD [OF less.prems(1)]
  show ?case
  proof (cases "n = 0")
    case True
    then show ?thesis using fs_look_refl [OF D(1)] by (simp add: readi_loop.simps [of i None off 0 s])
  next
    case False
    let ?m = "min n (BSIZE - off mod BSIZE)" and ?b = "fblock (blk d s) (geti s i) (off div BSIZE)"
    have n: "0 < n" using False by simp
    note c = chunk [OF n, of off]
    have ob: "off div BSIZE < MAXFILE" using less.prems(2) n by (simp add: less_mult_imp_div_less)
    have nz: "?b \<noteq> 0" using less.prems(3) n by (simp add: mapped_range_def)
    obtain s1 where 1: "bmap i (off div BSIZE) s = Some (?b, s1)" "fs_look d s s1"
      by (rule bmap_present [OF less.prems(1) ob nz])
    note k1 = fs_look_keeps [OF 1(2)]
    have f1: "fsok d s1 i (Suc k)" by (rule k1(4) [OF less.prems(1)])
    obtain bp s2 s3 where 2: "bread d ?b s1 = Some (bp, s2)" "b_data (getb s2 bp) = blk d s1 ?b" "brelse bp s2 = Some s3" "fs_look d s1 s3"
      by (rule look_block [OF f1])
    have l3: "fs_look d s s3" by (rule fs_look_trans [OF 1(2) 2(4)])
    note k3 = fs_look_keeps [OF l3]
    have "mapped_range d s3 i (off + ?m) (n - ?m)" using less.prems(3) c(2) k3 by (auto simp: mapped_range_def)
    from less.IH [OF c(4) k3(4) [OF less.prems(1)] _ this]
    obtain s4 where 4: "readi_loop i None (off + ?m) (n - ?m) s3 = Some (int (n - ?m), map (contents d s i) [off + ?m..<off + n], s4)"
      "fs_look d s3 s4" using less.prems(2) c(2) k3(1,2) by auto
    have bb: "get_bytes (blk d s1 ?b) (off mod BSIZE) ?m = map (contents d s i) [off..<off + ?m]"
      using block_bytes [OF D(7) c(3) ob nz] k1 by simp
    have "[off..<off + n] = [off..<off + ?m] @ [off + ?m..<off + n]" using c(2) upt_add_eq_append [of off "off + ?m" "n - ?m"] by simp
    then have "readi_loop i None off n s = Some (int n, map (contents d s i) [off..<off + n], s4)"
      using 1(1) 2(1-3) 4(1) bb False nz D(6) k1(1) c(2)
      by (subst readi_loop.simps) (simp add: copy_to_def Let_def)
    then show ?thesis using fs_look_trans [OF l3 4(2)] by blast
  qed
qed

section \<open>Writing\<close>

text \<open>The source of a write holds the bytes \<open>xs\<close>: a kernel buffer, or an address in the memory of the running process
  with all these bytes on mapped pages.\<close>

fun src_holds :: "'a kfs_scheme \<Rightarrow> wsrc \<Rightarrow> u8 list \<Rightarrow> bool" where
  "src_holds s (KernSrc bs) xs \<longleftrightarrow> xs = bs"
| "src_holds s (UserSrc a) xs \<longleftrightarrow> (\<exists>root F p. uspace s root F \<and> runs s p root \<and> p < length (procs s) \<and>
     (\<forall>k<length xs. PGROUNDDOWN (a + of_nat k) \<in> upages (pmem s) root \<and> xs ! k = umem (pmem s) root (a + of_nat k)))"

lemma src_copy:
  assumes "src_holds s src xs" "m \<le> length xs"
  shows "copy_from src m s = Some (0, take m xs, s)"
proof (cases src)
  case (UserSrc a)
  then obtain root F p where u: "uspace s root F" "runs s p root"
    "\<forall>k<length xs. PGROUNDDOWN (a + of_nat k) \<in> upages (pmem s) root \<and> xs ! k = umem (pmem s) root (a + of_nat k)"
    using assms(1) by auto
  have "copyin root a m s = Some (0, map (\<lambda>k. umem (pmem s) root (a + of_nat k)) [0..<m], s)"
    by (rule copyin_mapped [OF u(1,2)]) (use u(3) assms(2) in simp)
  moreover have "map (\<lambda>k. umem (pmem s) root (a + of_nat k)) [0..<m] = take m xs"
    by (rule nth_equalityI) (use u(3) assms(2) in auto)
  ultimately show ?thesis using u(2) UserSrc by (simp add: either_copyin_def myproc_def runs_def)
qed (use assms in simp)

lemma src_advance:
  assumes "src_holds s src xs" "m \<le> length xs"
  shows "src_holds s (advance m src) (drop m xs)"
proof (cases src)
  case (UserSrc a)
  then obtain root F p where u: "uspace s root F" "runs s p root" "p < length (procs s)"
    "\<forall>k<length xs. PGROUNDDOWN (a + of_nat k) \<in> upages (pmem s) root \<and> xs ! k = umem (pmem s) root (a + of_nat k)"
    using assms(1) by auto
  have "PGROUNDDOWN (a + of_nat m + of_nat k) \<in> upages (pmem s) root \<and> drop m xs ! k = umem (pmem s) root (a + of_nat m + of_nat k)"
    if "k < length (drop m xs)" for k
    using u(4) [rule_format, of "m + k"] that assms(2) by (simp add: add.assoc)
  then show ?thesis unfolding UserSrc advance.simps src_holds.simps using u(1-3) by blast
qed (use assms in simp)

lemma idle_proc_views: "p_pagetable (idle_proc p) = p_pagetable p" "p_sz (idle_proc p) = p_sz p"
  by (simp_all add: idle_proc_def)

lemma src_keeps:
  assumes "src_holds s src xs" "pmem t = pmem s" "freelist t = freelist s" "sym t = sym s" "cur t = cur s"
    "map idle_proc (procs t) = map idle_proc (procs s)"
  shows "src_holds t src xs"
proof (cases src)
  case (UserSrc a)
  have l: "length (procs t) = length (procs s)" using map_eq_imp_length_eq [OF assms(6)] .
  have "idle_proc (procs t ! p) = idle_proc (procs s ! p)" if "p < length (procs s)" for p
    using arg_cong [OF assms(6), of "\<lambda>ps. ps ! p"] that l by simp
  then have "p_pagetable (getp t p) = p_pagetable (getp s p) \<and> p_sz (getp t p) = p_sz (getp s p)" if "p < length (procs s)" for p
    using that by (metis getp_def idle_proc_views)
  then show ?thesis
    using assms(1) unfolding UserSrc src_holds.simps uspace_cong [OF assms(2-4)] runs_def assms(2,5) l by metis
qed (use assms in simp)

lemma write_chunk:
  assumes s: "fsok d s i (Suc k)" and n: "n < MAXFILE" and nz: "fblock (blk d s) (geti s i) n \<noteq> 0" and len: "j + length xs \<le> BSIZE"
  obtains bp s1 s2 s' where "bread d (fblock (blk d s) (geti s i) n) s = Some (bp, s1)" "bio_frame s s1"
    "log_write bp (set_data bp (\<lambda>bs. put_bytes bs j xs) s1) = Some s2" "brelse bp s2 = Some s'" "fsok d s' i k" "file_step d i s s'"
    "\<forall>k<MAXFILE * BSIZE. contents d s' i k =
      (if n * BSIZE + j \<le> k \<and> k < n * BSIZE + j + length xs then xs ! (k - (n * BSIZE + j)) else contents d s i k)"
proof -
  let ?b = "fblock (blk d s) (geti s i) n"
  note D = fsokD [OF s] and id = ample_idle [OF fsokD(2) [OF s], of ?b]
  have ob: "?b \<in> owned (blk d s) (geti s i)" by (rule owned_data [OF n nz])
  have l: "length (put_bytes (blk d s ?b) j xs) = BSIZE" using blk_length [OF txnD(1) [OF D(1)]] len by simp
  have sp: "length (logged s) < LOGBLOCKS" "refs d s ?b + 1 < 2 ^ 32 - 1" using id by auto
  obtain bp s1 s2 s' where u: "bread d ?b s = Some (bp, s1)" "log_write bp (set_data bp (\<lambda>bs. put_bytes bs j xs) s1) = Some s2"
    "brelse bp s2 = Some s'" "txn d s'" "txn_frame s s'" "blk d s' = (blk d s)(?b := put_bytes (blk d s ?b) j xs)" "busy d s' = busy d s"
    "refs d s' = (refs d s)(?b := refs d s ?b + (if ?b \<in> set (logged s) then 0 else 1))"
    "logged s' = (if ?b \<in> set (logged s) then logged s else logged s @ [?b])"
    by (rule logged_update [where f = "\<lambda>bs. put_bytes bs j xs", OF D(1) _ sp(2) _ l sp(1)]) (use id in auto)
  have "bio_frame s s1" by (rule logged_peek [OF D(1), of ?b]) (use id u(1) in auto)
  note w = write_block [OF D(7) n nz len, folded u(6)]
  note p = file_put [OF file_step_refl D(4) u(5) ob u(6) w(1) _ w(2)]
  have o: "owned (blk d s') (geti s i) \<subseteq> owned (blk d s) (geti s i) \<union> - data_used d s" using w(3) by simp
  have "ample d s' UNIV k" by (rule ample_step [OF D(2) u(7-9)])
  then have f': "fsok d s' i k" using p(2,3) [OF o] u(4) D(3) by (simp add: fsok_def)
  have c: "\<forall>k<MAXFILE * BSIZE. contents d s' i k =
      (if n * BSIZE + j \<le> k \<and> k < n * BSIZE + j + length xs then xs ! (k - (n * BSIZE + j)) else contents d s i k)"
    using w(4) p(5) [OF o] by simp
  show thesis by (rule that [OF u(1) \<open>bio_frame s s1\<close> u(2,3) f' p(1) [OF o] c])
qed

definition nblocks :: "nat \<Rightarrow> nat \<Rightarrow> nat" where
  "nblocks off n = (if n = 0 then 0 else Suc ((off + n - 1) div BSIZE - off div BSIZE))"

lemma nblocks_step:
  assumes n: "0 < n"
  shows "nblocks off n = Suc (nblocks (off + min n (BSIZE - off mod BSIZE)) (n - min n (BSIZE - off mod BSIZE)))"
proof (cases "n \<le> BSIZE - off mod BSIZE")
  case True
  have "off mod BSIZE + (n - 1) < BSIZE" using True n by (simp add: less_diff_conv)
  from within_block(1) [OF this] have "(off + n - 1) div BSIZE = off div BSIZE" using n by simp
  then show ?thesis using True n by (simp add: nblocks_def min_absorb1)
next
  case False
  let ?m = "min n (BSIZE - off mod BSIZE)"
  have nz: "n - ?m \<noteq> 0" using False by simp
  note c = chunk [OF n, of off] and d = chunk(6) [OF n nz]
  have e: "off + ?m + (n - ?m) - 1 = off + n - 1" using c(2) n by simp
  have "Suc (off div BSIZE) \<le> (off + n - 1) div BSIZE" using d div_le_mono [of "off + ?m" "off + n - 1" BSIZE] nz c(2) by simp
  moreover have "nblocks (off + ?m) (n - ?m) = Suc ((off + n - 1) div BSIZE - Suc (off div BSIZE))"
    unfolding nblocks_def e using nz d by simp
  moreover have "nblocks off n = Suc ((off + n - 1) div BSIZE - off div BSIZE)" using n by (simp add: nblocks_def)
  ultimately show ?thesis by linarith
qed

text \<open>What a loop that reported \<open>tot\<close> bytes has done.\<close>

definition wrote_file :: "u32 \<Rightarrow> nat \<Rightarrow> nat \<Rightarrow> u8 list \<Rightarrow> nat \<Rightarrow> 'a kfs_scheme \<Rightarrow> 'a kfs_scheme \<Rightarrow> bool" where
  "wrote_file d i off bs tot s s' \<longleftrightarrow> file_step d i s s' \<and> mapped_range d s' i off tot \<and>
     (\<forall>j<MAXFILE * BSIZE. contents d s' i j = (if off \<le> j \<and> j < off + tot then bs ! (j - off) else contents d s i j))"

lemma mapped_range_step:
  assumes "mapped_range d s i off m" "file_step d i s s'" "off + m \<le> MAXFILE * BSIZE"
  shows "mapped_range d s' i off m"
proof -
  have "j div BSIZE < MAXFILE" if "j < off + m" for j using that assms(3) by (simp add: less_mult_imp_div_less)
  then show ?thesis using assms(1) file_stepD(13) [OF assms(2)] by (simp add: mapped_range_def)
qed

lemma wrote_file_cons:
  assumes t: "file_step d i s t" "mapped_range d t i off m"
    and tc: "\<forall>j<MAXFILE * BSIZE. contents d t i j = (if off \<le> j \<and> j < off + m then bs ! (j - off) else contents d s i j)"
    and w: "wrote_file d i (off + m) (drop m bs) tot t u" and m: "m \<le> length bs" "off + m \<le> MAXFILE * BSIZE"
  shows "wrote_file d i off bs (m + tot) s u"
proof -
  have W: "file_step d i t u" "mapped_range d u i (off + m) tot"
    "\<forall>j<MAXFILE * BSIZE. contents d u i j = (if off + m \<le> j \<and> j < off + m + tot then drop m bs ! (j - (off + m)) else contents d t i j)"
    using w by (simp_all add: wrote_file_def)
  have "mapped_range d u i off m" by (rule mapped_range_step [OF t(2) W(1) m(2)])
  then have "mapped_range d u i off (m + tot)" using W(2) by (auto simp: mapped_range_def) (metis add.assoc not_le)
  moreover have "contents d u i j = (if off \<le> j \<and> j < off + (m + tot) then bs ! (j - off) else contents d s i j)" if "j < MAXFILE * BSIZE" for j
    using W(3) tc that m(1) by (auto simp: nth_drop)
  ultimately show ?thesis using file_step_trans [OF t(1) W(1)] by (simp add: wrote_file_def)
qed

lemma wrote_file_none:
  assumes "file_step d i s s'" "\<forall>j<MAXFILE * BSIZE. contents d s' i j = contents d s i j"
  shows "wrote_file d i off bs 0 s s'"
  using assms by (auto simp: wrote_file_def mapped_range_def)

lemma writei_loop_spec:
  assumes "fsok d s i (7 * nblocks off n + k)" "off + n \<le> MAXFILE * BSIZE" "n \<le> length bs" "src_holds s src bs"
  shows "\<exists>tot s'. writei_loop i src off n s = Some (tot, s') \<and> tot \<le> n \<and> fsok d s' i k \<and> wrote_file d i off bs tot s s' \<and>
    (tot < n \<longrightarrow> (\<forall>x<unat (sb_size (sb s')). used d s' x))"
  using assms
proof (induction n arbitrary: off bs src s rule: less_induct)
  case (less n)
  show ?case
  proof (cases "n = 0")
    case True
    then have "writei_loop i src off n s = Some (0, s)" "fsok d s i k"
      using less.prems(1) by (simp_all add: writei_loop.simps [of i _ off 0 s] nblocks_def)
    then show ?thesis using wrote_file_none [OF file_step_refl] True by blast
  next
    case False
    let ?m = "min n (BSIZE - off mod BSIZE)"
    have n: "0 < n" using False by simp
    note c = chunk [OF n, of off]
    let ?k = "7 * nblocks (off + ?m) (n - ?m) + k"
    have f: "fsok d s i (Suc ?k + 6)" by (rule fsok_le [OF less.prems(1)]) (simp add: nblocks_step [OF n])
    have ob: "off div BSIZE < MAXFILE" using less.prems(2) n by (simp add: less_mult_imp_div_less)
    have om: "off + ?m \<le> MAXFILE * BSIZE" using less.prems(2) c(2) by linarith
    obtain addr s1 where 1: "bmap i (off div BSIZE) s = Some (addr, s1)" "fsok d s1 i (Suc ?k)" "block_mapped d i (off div BSIZE) s addr s1"
      by (rule bmap_spec [OF f ob])
    have b: "file_step d i s s1" "addr = fblock (blk d s1) (geti s1 i) (off div BSIZE)" "\<forall>k<MAXFILE * BSIZE. contents d s1 i k = contents d s i k"
      "addr = 0 \<longrightarrow> (\<forall>x<unat (sb_size (sb s1)). used d s1 x)" using 1(3) by (simp_all add: block_mapped_def)
    show ?thesis
    proof (cases "addr = 0")
      case True
      have "writei_loop i src off n s = Some (0, s1)" using 1(1) True n by (subst writei_loop.simps) (simp add: Let_def)
      moreover have "wrote_file d i off bs 0 s s1" by (rule wrote_file_none [OF b(1,3)])
      moreover have "fsok d s1 i k" by (rule fsok_le [OF 1(2)]) simp
      ultimately show ?thesis using b(4) True by blast
    next
      case nz: False
      let ?xs = "take ?m bs"
      have lx: "length ?xs = ?m" "off mod BSIZE + length ?xs \<le> BSIZE" using less.prems(3) c(2,3) by auto
      have nz': "fblock (blk d s1) (geti s1 i) (off div BSIZE) \<noteq> 0" using nz b(2) by simp
      obtain bp s2 s3 s4 where 2: "bread d addr s1 = Some (bp, s2)" "bio_frame s1 s2" "log_write bp (set_data bp (\<lambda>bs. put_bytes bs (off mod BSIZE) ?xs) s2) = Some s3"
        "brelse bp s3 = Some s4" "fsok d s4 i ?k" "file_step d i s1 s4"
        "\<forall>k<MAXFILE * BSIZE. contents d s4 i k = (if off div BSIZE * BSIZE + off mod BSIZE \<le> k \<and> k < off div BSIZE * BSIZE + off mod BSIZE + length ?xs
          then ?xs ! (k - (off div BSIZE * BSIZE + off mod BSIZE)) else contents d s1 i k)"
        using write_chunk [OF 1(2) ob nz' lx(2), folded b(2)] by metis
      have st: "file_step d i s s4" by (rule file_step_trans [OF b(1) 2(6)])
      note sv = file_stepD [OF b(1)] and bv = bio_frame_keeps [OF 2(2)]
      have "src_holds s2 src bs" by (rule src_keeps [OF less.prems(4)]) (simp_all add: sv bv)
      then have cp: "copy_from src ?m s2 = Some (0, ?xs, s2)" by (rule src_copy) (use less.prems(3) c(2) in linarith)
      have "src_holds s4 src bs" using src_keeps [OF less.prems(4)] file_stepD [OF st] by blast
      then have adv: "src_holds s4 (advance ?m src) (drop ?m bs)" by (rule src_advance) (use less.prems(3) c(2) in linarith)
      have c4: "\<forall>j<MAXFILE * BSIZE. contents d s4 i j = (if off \<le> j \<and> j < off + ?m then bs ! (j - off) else contents d s i j)"
      proof (intro allI impI)
        fix j :: nat assume j: "j < MAXFILE * BSIZE"
        have "j < off + ?m \<Longrightarrow> off \<le> j \<Longrightarrow> ?xs ! (j - off) = bs ! (j - off)" by (intro nth_take) linarith
        then show "contents d s4 i j = (if off \<le> j \<and> j < off + ?m then bs ! (j - off) else contents d s i j)"
          using 2(7) [unfolded div_mult_mod_eq lx(1), rule_format, OF j] b(3) [rule_format, OF j] by presburger
      qed
      have mr: "mapped_range d s4 i off ?m" unfolding mapped_range_def
      proof (intro allI impI)
        fix j assume j: "off \<le> j \<and> j < off + ?m"
        then have "off mod BSIZE + (j - off) < BSIZE" using c(3) by linarith
        from within_block(1) [OF this] have "j div BSIZE = off div BSIZE" using j by simp
        then show "fblock (blk d s4) (geti s4 i) (j div BSIZE) \<noteq> 0" using file_stepD(13) [OF 2(6)] ob nz' by simp
      qed
      have "n - ?m \<le> length (drop ?m bs)" using less.prems(3) by simp
      from less.IH [OF c(4) 2(5) _ this adv] less.prems(2) c(2)
      obtain tot s5 where 5: "writei_loop i (advance ?m src) (off + ?m) (n - ?m) s4 = Some (tot, s5)" "tot \<le> n - ?m" "fsok d s5 i k"
        "wrote_file d i (off + ?m) (drop ?m bs) tot s4 s5" "tot < n - ?m \<longrightarrow> (\<forall>x<unat (sb_size (sb s5)). used d s5 x)" by auto
      have dv: "i_dev (geti s1 i) = d" by (rule fsokD(6) [OF 1(2)])
      have "writei_loop i src off n s = Some (?m + tot, s5)"
        using 1(1) 2(1,3,4) 5(1) n nz dv cp by (subst writei_loop.simps) (simp add: Let_def)
      moreover have "wrote_file d i off bs (?m + tot) s s5"
        by (rule wrote_file_cons [OF st mr c4 5(4) _ om]) (use less.prems(3) in simp)
      moreover have "?m + tot \<le> n" "?m + tot < n \<longrightarrow> tot < n - ?m" using 5(2) c(2) by linarith+
      ultimately show ?thesis using 5(3,5) by blast
    qed
  qed
qed

text \<open>The new size and the inode go to disk.\<close>

lemma file_size [simp]:
  "fblock B (ip\<lparr>i_size := x\<rparr>) n = fblock B ip n" "fbyte B (ip\<lparr>i_size := x\<rparr>) k = fbyte B ip k"
  "owned B (ip\<lparr>i_size := x\<rparr>) = owned B ip" "fok U B (ip\<lparr>i_size := x\<rparr>) = fok U B ip"
  by (simp_all add: fblock_def fbyte_def owned_def fok_def cong: image_cong)

lemma iupdate_file:
  assumes s: "fsok d s i (Suc k)"
  obtains s' where "iupdate i s = Some s'" "fsok d s' i k" "geti s' = geti s" "sb s' = sb s" "\<forall>b\<in>data_used d s. blk d s' b = blk d s b"
    "\<forall>n. fblock (blk d s') (geti s i) n = fblock (blk d s) (geti s i) n" "\<forall>k<MAXFILE * BSIZE. contents d s' i k = contents d s i k"
    "\<forall>x<unat (sb_size (sb s)). used d s' x = used d s x"
    "\<forall>inum ip0. inode_on_disk d s' inum ip0 = (if inum = i_inum (geti s i) then disk_part (geti s i) ip0 else inode_on_disk d s inum ip0)"
proof -
  note D = fsokD [OF s]
  let ?ib = "IBLOCK (i_inum (geti s i)) (sb s)"
  have am: "ample d s {?ib} (Suc k)" using D(2) by (simp add: ample_def)
  from iupdate_spec [OF D(1) am D(6) fokD(1) [OF D(7)]]
  obtain s' where u: "iupdate i s = Some s'" "txn d s'" "txn_frame s s'" "busy d s' = busy d s"
    "blk d s' = (blk d s)(?ib := put_bytes (blk d s ?ib) (dinode_off (i_inum (geti s i))) (dinode_bytes (geti s i)))"
    "refs d s' = (refs d s)(?ib := refs d s ?ib + (if ?ib \<in> set (logged s) then 0 else 1))"
    "logged s' = (if ?ib \<in> set (logged s) then logged s else logged s @ [?ib])"
    by (auto simp: Let_def)
  note k = txn_frame_keeps [OF u(3)]
  have ib: "?ib \<in> inode_blocks s" using D(4) by (auto simp: inode_blocks_def file_ok_def)
  then have nb: "?ib \<notin> bitmap_blocks s" using D(3) by (auto simp: bitmap_ok_def)
  note w = used_write [OF u(5) nb k(1)]
  have same: "blk d s' b = blk d s b" if "b \<in> data_used d s" for b using that ib u(5) by (auto simp: data_used_def)
  note e = fblock_elsewhere [OF D(7) same]
  have g: "geti s' = geti s" using k(13) by (simp add: fun_eq_iff)
  have "fok (data_used d s) (blk d s') (geti s i)"
    by (rule fok_elsewhere [OF D(7) same]) (use blk_length [OF txnD(1) [OF u(2)]] in auto)
  then have fo: "file_ok d s' i" using D(4) w(1) g k by (simp add: file_ok_def)
  have "ample d s' UNIV k" by (rule ample_step [OF D(2) u(4,6,7)])
  then have f': "fsok d s' i k" using fo w(2) u(2) D(3) by (simp add: fsok_def)
  show thesis
    by (rule that [OF u(1) f' g k(1)])
      (use same e(1,3) g w(3) inode_stored [OF txnD(1) [OF D(1)] fokD(1) [OF D(7)] u(5) k(1)] in simp_all)
qed

lemma writei_spec:
  assumes s: "fsok d s i (7 * nblocks (unat off) (unat n) + Suc k)" and off: "off \<le> i_size (geti s i)"
    and n: "unat off + unat n \<le> MAXFILE * BSIZE" "unat n \<le> length bs" and src: "src_holds s src bs"
  obtains tot s1 s' where "writei i src off n s = Some (int tot, s')" "tot \<le> unat n" "fsok d s' i k" "wrote_file d i (unat off) bs tot s s1"
    "\<forall>j<MAXFILE * BSIZE. contents d s' i j = contents d s1 i j" "mapped_range d s' i (unat off) tot"
    "\<forall>b\<in>data_used d s1. blk d s' b = blk d s1 b" "\<forall>j. j \<noteq> i \<longrightarrow> geti s' j = geti s j"
    "i_size (geti s' i) = max (i_size (geti s i)) (off + of_nat tot)"
    "\<forall>ip0. inode_on_disk d s' (i_inum (geti s i)) ip0 = disk_part (geti s' i) ip0"
    "tot < unat n \<longrightarrow> (\<forall>x<unat (sb_size (sb s')). used d s' x)"
    "\<forall>inum < sb_ninodes (sb s). inum \<noteq> i_inum (geti s i) \<longrightarrow> (\<forall>ip0. inode_on_disk d s' inum ip0 = inode_on_disk d s inum ip0)"
proof -
  have wrap: "\<not> off + n < off" "\<not> of_nat (MAXFILE * BSIZE) < off + n"
    using n(1) by (simp_all add: word_less_nat_alt unat_word_ariths)
  obtain tot s1 where 1: "writei_loop i src (unat off) (unat n) s = Some (tot, s1)" "tot \<le> unat n" "fsok d s1 i (Suc k)"
    "wrote_file d i (unat off) bs tot s s1" "tot < unat n \<longrightarrow> (\<forall>x<unat (sb_size (sb s1)). used d s1 x)"
    using writei_loop_spec [OF s n src] by auto
  have W: "file_step d i s s1" "mapped_range d s1 i (unat off) tot" using 1(4) by (simp_all add: wrote_file_def)
  note st = file_stepD [OF W(1)] and D = fsokD [OF 1(3)]
  have sz: "i_size (geti s1 i) = i_size (geti s i)" "i_inum (geti s1 i) = i_inum (geti s i)"
    using arg_cong [OF st(8), of i_size] arg_cong [OF st(8), of i_inum] by simp_all
  let ?o = "off + of_nat tot"
  let ?s = "if i_size (geti s1 i) < ?o then seti i (\<lambda>ip. ip\<lparr>i_size := ?o\<rparr>) s1 else s1"
  have g: "geti ?s i = (geti s1 i)\<lparr>i_size := max (i_size (geti s i)) ?o\<rparr>" "\<forall>j. j \<noteq> i \<longrightarrow> geti ?s j = geti s1 j"
    using sz(1) by (auto simp: geti_seti [OF D(5)] max_def)
  have v: "blk d ?s = blk d s1" "data_used d ?s = data_used d s1" by (simp_all add: seti_views)
  have sb: "sb ?s = sb s1" by (simp add: seti_def)
  note us = used_cong [OF v(1) sb]
  have f: "fsok d ?s i (Suc k)"
    using 1(3) by (auto simp: fsok_def seti_views file_ok_def geti_seti [OF D(5)]) (simp_all add: seti_def)
  obtain s' where u: "iupdate i ?s = Some s'" "fsok d s' i k" "geti s' = geti ?s" "sb s' = sb ?s" "\<forall>b\<in>data_used d ?s. blk d s' b = blk d ?s b"
    "\<forall>n. fblock (blk d s') (geti ?s i) n = fblock (blk d ?s) (geti ?s i) n" "\<forall>k<MAXFILE * BSIZE. contents d s' i k = contents d ?s i k"
    "\<forall>x<unat (sb_size (sb ?s)). used d s' x = used d ?s x"
    "\<forall>inum ip0. inode_on_disk d s' inum ip0 = (if inum = i_inum (geti ?s i) then disk_part (geti ?s i) ip0 else inode_on_disk d ?s inum ip0)"
    by (rule iupdate_file [OF f])
  have "writei i src off n s = Some (int tot, s')"
    using 1(1) u(1) wrap off by (simp add: writei_def Let_def)
  then show thesis
  proof (rule that [OF _ 1(2) u(2) 1(4)])
    show "mapped_range d s' i (unat off) tot" using W(2) u(3,6) g(1) v by (simp add: mapped_range_def)
    show "\<forall>j<MAXFILE * BSIZE. contents d s' i j = contents d s1 i j" using u(7) g(1) v by simp
    show "\<forall>b\<in>data_used d s1. blk d s' b = blk d s1 b" using u(5) v by simp
    show "\<forall>j. j \<noteq> i \<longrightarrow> geti s' j = geti s j" using u(3) g(2) st(7) by simp
    show "i_size (geti s' i) = max (i_size (geti s i)) (off + of_nat tot)" using u(3) g(1) by simp
    show "\<forall>ip0. inode_on_disk d s' (i_inum (geti s i)) ip0 = disk_part (geti s' i) ip0" using u(3,9) g(1) sz(2) by simp
    show "tot < unat n \<longrightarrow> (\<forall>x<unat (sb_size (sb s')). used d s' x)" using 1(5) u(4,8) sb us by simp
    have "blk d s1 (IBLOCK inum (sb s)) = blk d s (IBLOCK inum (sb s))" if "inum < sb_ninodes (sb s)" for inum
      using st(12) that by (auto simp: inode_blocks_def)
    then show "\<forall>inum < sb_ninodes (sb s). inum \<noteq> i_inum (geti s i) \<longrightarrow> (\<forall>ip0. inode_on_disk d s' inum ip0 = inode_on_disk d s inum ip0)"
      using u(9) g(1) sz(2) v(1) sb st(1) by (simp add: inode_on_disk_def)
  qed
qed

lemma readi_spec:
  assumes s: "fsok d s i (Suc k)" and sz: "unat (i_size (geti s i)) \<le> MAXFILE * BSIZE" and n: "unat off + unat n < 2 ^ 32"
  defines "m \<equiv> min (unat n) (unat (i_size (geti s i)) - unat off)"
  assumes r: "mapped_range d s i (unat off) m"
  shows "\<exists>s'. readi i None off n s = Some (int m, map (contents d s i) [unat off..<unat off + m], s') \<and> fs_look d s s'"
proof -
  let ?z = "i_size (geti s i)"
  have add: "unat (off + n) = unat off + unat n" using n by (simp add: unat_word_ariths)
  then have w: "\<not> off + n < off" by (simp add: word_less_nat_alt)
  show ?thesis
  proof (cases "?z < off")
    case True
    then have "m = 0" by (simp add: m_def word_less_nat_alt)
    then show ?thesis using True fs_look_refl [OF fsokD(1) [OF s]] by (simp add: readi_def)
  next
    case False
    then have zo: "off \<le> ?z" by simp
    have "unat (if ?z < off + n then ?z - off else n) = m"
      using add unat_sub [OF zo] by (auto simp: m_def word_less_nat_alt)
    then have "readi i None off n s = readi_loop i None (unat off) m s" using False w by (simp add: readi_def Let_def)
    moreover have "unat off + m \<le> MAXFILE * BSIZE" using sz zo by (auto simp: m_def word_le_nat_alt)
    ultimately show ?thesis using readi_loop_spec [OF s _ r] by simp
  qed
qed

lemma fok_owned: "fok U B ip \<Longrightarrow> fok (owned B ip) B ip"
  by (auto simp: fok_def)

section \<open>Example files\<close>

definition demo_file :: "u32 \<Rightarrow> u32 \<Rightarrow> u32 \<Rightarrow> inode" where
  "demo_file inum sz b = \<lparr>i_dev = 1, i_inum = inum, i_ref = 1, i_lock = initsleeplock, i_valid = True, i_type = T_FILE, i_major = 0, i_minor = 0,
     i_nlink = 1, i_size = sz, i_addrs = b # replicate 12 0\<rparr>"

text \<open>Inode 3 of the table is an empty file, inode 4 a file of 500 bytes in block 47.\<close>

definition demo_files :: kfs where
  "demo_files = seti 4 (\<lambda>_. demo_file 18 500 47) (seti 3 (\<lambda>_. demo_file 17 0 0) demo_tx)"

lemma demo_files_inodes: "length (itable demo_files) = NINODE" "geti demo_files 3 = demo_file 17 0 0" "geti demo_files 4 = demo_file 18 500 47"
  "sb demo_files = sb demo_kfs" "bitmap_blocks demo_files = {46}"
proof -
  show "length (itable demo_files) = NINODE" "geti demo_files 3 = demo_file 17 0 0" "geti demo_files 4 = demo_file 18 500 47"
    "sb demo_files = sb demo_kfs"
    by (simp_all add: demo_files_def seti_def geti_def demo_tx_def demo_kfs_def setlog_def)
  have "sb demo_files = sb demo_tx" by (simp add: demo_files_def seti_def)
  then show "bitmap_blocks demo_files = {46}" using sb_blocks(1) [of demo_files demo_tx] demo_bitmap_blocks by simp
qed

lemma demo_inode_block: "n < 200 \<Longrightarrow> 33 \<le> unat (IBLOCK n (sb demo_kfs)) \<and> unat (IBLOCK n (sb demo_kfs)) \<le> 45"
proof -
  assume "n < 200"
  then have "unat n < 200" by (simp add: word_less_nat_alt)
  then have "unat n div 16 \<le> 12" by simp
  then show ?thesis by (simp add: IBLOCK_def demo_kfs_def unat_word_ariths unat_div)
qed

lemma demo_files_blocks: "b \<in> inode_blocks demo_files \<Longrightarrow> 33 \<le> unat b \<and> unat b \<le> 45" "47 \<in> data_used 1 demo_files" "bitmap_ok 1 demo_files"
  "used 1 demo_files = used 1 demo_tx"
proof -
  have b: "blk 1 demo_files = blk 1 demo_tx" by (simp add: demo_files_def seti_views)
  have n: "sb_ninodes (sb demo_kfs) = 200" by (simp add: demo_kfs_def)
  show i: "33 \<le> unat b \<and> unat b \<le> 45" if "b \<in> inode_blocks demo_files" for b
    using that demo_inode_block by (auto simp: inode_blocks_def demo_files_inodes(4) n)
  have "sb demo_files = sb demo_tx" by (simp add: demo_files_inodes(4) demo_tx_cache(7))
  from used_cong [OF b this] show u: "used 1 demo_files = used 1 demo_tx" .
  show "47 \<in> data_used 1 demo_files"
    using i [of 47] demo_used [of 47] by (auto simp: data_used_def demo_files_inodes demo_sb u)
  have "of_nat x \<notin> bitmap_blocks demo_files \<and> of_nat x \<notin> inode_blocks demo_files \<and> 0 < x" if "x < 2000" "\<not> used 1 demo_tx x" for x
  proof -
    have x: "48 \<le> x" using that demo_used [of x] by simp
    have "unat (of_nat x :: u32) = x" using that by (simp add: unat_of_nat)
    then show ?thesis using x i [of "of_nat x"] by (force simp: demo_files_inodes(5))
  qed
  then show "bitmap_ok 1 demo_files" using i [of 46] by (auto simp: bitmap_ok_def demo_files_inodes(4,5) demo_sb u)
qed

lemma demo_file_block: "fblock B (demo_file inum sz b) n = (if n = 0 then b else 0)"
  by (simp add: fblock_def demo_file_def nth_Cons split: nat.splits)

lemma demo_file_owned: "owned B (demo_file inum sz b) = {b} - {0}"
proof -
  have "fblock B (demo_file inum sz b) ` {..<MAXFILE} = insert b (fblock B (demo_file inum sz b) ` {1..<MAXFILE})"
    using lessThan_Suc_eq_insert_0 by (auto simp: demo_file_block image_iff)
  then show ?thesis by (auto simp: owned_def demo_file_block) (simp add: demo_file_def)
qed

lemma demo_files_ok:
  assumes "k \<le> NBUF"
  shows "fsok 1 demo_files 3 k" "fsok 1 demo_files 4 k"
proof -
  have c: "txn 1 demo_files" "ample 1 demo_files UNIV k"
    using assms demo_tx_cache demo_tx_ok(1) by (simp_all add: demo_files_def seti_views) (simp add: ample_def)
  have l: "length (blk 1 demo_files b) = BSIZE" for b by (rule blk_length [OF txnD(1) [OF c(1)]])
  have n: "sb_ninodes (sb demo_files) = 200" by (simp add: demo_files_inodes(4) demo_kfs_def)
  have a: "i_addrs (demo_file inum sz b) ! NDIRECT = 0" "length (i_addrs (demo_file inum sz b)) = NDIRECT + 1" for inum sz b
    by (simp_all add: demo_file_def)
  have "fok (data_used 1 demo_files) (blk 1 demo_files) (demo_file inum sz b)" if "b = 0 \<or> b = 47" for inum sz b
    unfolding fok_def a demo_file_owned using that demo_files_blocks(2) l by (auto simp: demo_file_block)
  then have "file_ok 1 demo_files 3" "file_ok 1 demo_files 4"
    by (simp_all add: file_ok_def demo_files_inodes(1-3) n) (simp_all add: demo_file_def)
  then show "fsok 1 demo_files 3 k" "fsok 1 demo_files 4 k" using c demo_files_blocks(3) by (simp_all add: fsok_def)
qed

text \<open>The five bytes at address 16 of the running process, whose page 0 is mapped.\<close>

definition demo_bytes :: "u8 list" where
  "demo_bytes = map (\<lambda>k. umem demo_mem demo_root (16 + of_nat k)) [0..<5]"

lemma demo_bytes_user: "length demo_bytes = 5" "src_holds demo_files (UserSrc 16) demo_bytes"
proof -
  show "length demo_bytes = 5" by (simp add: demo_bytes_def)
  have f: "pmem demo_files = demo_mem" "freelist demo_files = freelist demo_kfs" "sym demo_files = sym demo_kfs"
    "cur demo_files = cur demo_kfs" "procs demo_files = procs demo_kfs" "pmem demo_kfs = demo_mem" "length (procs demo_kfs) = 1"
    by (simp_all add: demo_files_def seti_def demo_tx_def demo_kfs_def setlog_def)
  have "uspace demo_files demo_root {0x87FFF000, 0x87FFE000}" "runs demo_files 0 demo_root" "0 < length (procs demo_files)"
    using demo_kfs_runs uspace_cong [of demo_files demo_kfs] f by (simp_all add: runs_def getp_def)
  moreover have "\<forall>k<length demo_bytes. PGROUNDDOWN (16 + of_nat k) \<in> upages (pmem demo_files) demo_root \<and>
      demo_bytes ! k = umem (pmem demo_files) demo_root (16 + of_nat k)"
    by (auto simp: demo_bytes_def f(1) demo_upages less_Suc_eq numeral_eq_Suc PGROUNDDOWN_def)
  ultimately show "src_holds demo_files (UserSrc 16) demo_bytes" unfolding src_holds.simps by blast
qed

section \<open>Properties\<close>

text \<open>C30: into a kernel buffer, \<open>readi\<close> of a file whose blocks are all allocated returns the bytes of the file from \<open>off\<close> on, at most \<open>n\<close> and
  none past the end of the file, and reads blocks without changing any of them.\<close>

theorem readi_contents:
  assumes "fsok d s i 1" "unat (i_size (geti s i)) \<le> MAXFILE * BSIZE" "unat off + unat n < 2 ^ 32"
    "mapped_range d s i 0 (unat (i_size (geti s i)))"
  shows "\<exists>m s'. readi i None off n s = Some (int m, map (contents d s i) [unat off..<unat off + m], s') \<and>
    m = min (unat n) (unat (i_size (geti s i)) - unat off) \<and> blk d s' = blk d s \<and> geti s' = geti s \<and> fsok d s' i 1"
proof -
  have f: "fsok d s i (Suc 0)" using assms(1) by simp
  let ?m = "min (unat n) (unat (i_size (geti s i)) - unat off)"
  have "mapped_range d s i (unat off) ?m" using assms(4) by (auto simp: mapped_range_def)
  from readi_spec [OF f assms(2,3) this]
  obtain s' where s': "readi i None off n s = Some (int ?m, map (contents d s i) [unat off..<unat off + ?m], s')" "fs_look d s s'" by blast
  have "fsok d s' i 1" by (rule fs_look_keeps(4) [OF s'(2) assms(1)])
  then show ?thesis using s'(1) fs_look_keeps(1,2) [OF s'(2)] by blast
qed

theorem readi_contents_witness:
  "\<exists>s'. readi 4 None 100 1000 demo_files = Some (400, replicate 400 0, s')"
proof -
  have z: "i_size (geti demo_files 4) = 500" by (simp add: demo_files_inodes demo_file_def)
  have b: "blk 1 demo_files 47 = replicate BSIZE 0" by (simp add: demo_files_def seti_views demo_tx_cache(4) demo_disk_def)
  have "mapped_range 1 demo_files 4 0 500" by (auto simp: mapped_range_def demo_files_inodes demo_file_block)
  then obtain s' where "readi 4 None 100 1000 demo_files = Some (400, map (contents 1 demo_files 4) [100..<500], s')"
    using readi_contents [OF demo_files_ok(2), of 100 1000] z by auto
  moreover have "contents 1 demo_files 4 j = 0" if "j < 500" for j
    using that b by (simp add: fbyte_def demo_files_inodes demo_file_block)
  then have "map (contents 1 demo_files 4) [100..<500] = replicate 400 0" by (intro replicate_eqI) auto
  ultimately show ?thesis by simp
qed

text \<open>C6: \<open>writei\<close> followed by \<open>readi\<close>: writing \<open>n\<close> bytes at an offset inside the file, from a kernel buffer or from
  mapped memory of the running process, in a transaction with room for seven blocks per block of the file it touches
  and two more, reports \<open>tot\<close> bytes, fewer than \<open>n\<close> only when the disk is full. A user address with an unmapped byte is
  outside the statement: there the copy may fail, which also ends the write early. Into a kernel buffer, reading \<open>tot\<close> bytes at the same offset then gives the first \<open>tot\<close> bytes of the source. Every other byte of the
  file is what it was, the size has grown to cover the bytes written, and the inode on disk has this size and the block
  addresses.\<close>

theorem writei_readi:
  assumes s: "fsok d s i (7 * nblocks (unat off) (unat n) + 2)" and off: "off \<le> i_size (geti s i)"
    and n: "unat off + unat n \<le> MAXFILE * BSIZE" "unat n \<le> length bs" and src: "src_holds s src bs" and z: "unat (i_size (geti s i)) \<le> MAXFILE * BSIZE"
  shows "\<exists>tot s'. writei i src off n s = Some (int tot, s') \<and> tot \<le> unat n \<and>
    (tot < unat n \<longrightarrow> (\<forall>x<unat (sb_size (sb s')). used d s' x)) \<and>
    (\<exists>s''. readi i None off (of_nat tot) s' = Some (int tot, take tot bs, s'')) \<and>
    (\<forall>j<MAXFILE * BSIZE. j < unat off \<or> unat off + tot \<le> j \<longrightarrow> contents d s' i j = contents d s i j) \<and>
    i_size (geti s' i) = max (i_size (geti s i)) (off + of_nat tot) \<and>
    (\<forall>ip0. inode_on_disk d s' (i_inum (geti s i)) ip0 = disk_part (geti s' i) ip0)"
proof -
  have s2: "fsok d s i (7 * nblocks (unat off) (unat n) + Suc (Suc 0))" using s by (simp add: numeral_2_eq_2)
  show ?thesis
  proof (rule writei_spec [OF s2 off n src])
    fix tot s1 s' assume w: "writei i src off n s = Some (int tot, s')" "tot \<le> unat n" "fsok d s' i (Suc 0)"
      "wrote_file d i (unat off) bs tot s s1" "\<forall>j<MAXFILE * BSIZE. contents d s' i j = contents d s1 i j" "mapped_range d s' i (unat off) tot"
      "i_size (geti s' i) = max (i_size (geti s i)) (off + of_nat tot)"
      "\<forall>ip0. inode_on_disk d s' (i_inum (geti s i)) ip0 = disk_part (geti s' i) ip0"
      "tot < unat n \<longrightarrow> (\<forall>x<unat (sb_size (sb s')). used d s' x)"
    have c: "\<forall>j<MAXFILE * BSIZE. contents d s' i j = (if unat off \<le> j \<and> j < unat off + tot then bs ! (j - unat off) else contents d s i j)"
      using w(4,5) by (simp add: wrote_file_def)
    have t: "unat (of_nat tot :: u32) = tot" using w(2) n(1) by (simp add: unat_of_nat)
    have ot: "unat (off + of_nat tot) = unat off + tot" using w(2) n(1) by (simp add: unat_word_ariths unat_of_nat)
    have "unat (max (i_size (geti s i)) (off + of_nat tot)) = max (unat (i_size (geti s i))) (unat off + tot)"
      by (simp add: max_def word_le_nat_alt ot)
    then have z': "unat (i_size (geti s' i)) = max (unat (i_size (geti s i))) (unat off + tot)" using w(7) by simp
    then have m: "min (unat (of_nat tot :: u32)) (unat (i_size (geti s' i)) - unat off) = tot" using t by simp
    have "\<exists>s''. readi i None off (of_nat tot) s' = Some (int tot, map (contents d s' i) [unat off..<unat off + tot], s'') \<and> fs_look d s' s''"
      using readi_spec [OF w(3), of off "of_nat tot"] w(2,6) n(1) z z' unfolding m t by simp
    moreover have "map (contents d s' i) [unat off..<unat off + tot] = take tot bs"
      by (rule nth_equalityI) (use c w(2) n in auto)
    ultimately show ?thesis using w c by auto
  qed
qed

theorem writei_readi_witness:
  "\<exists>tot s' s''. writei 3 (UserSrc 16) 0 5 demo_files = Some (int tot, s') \<and> tot \<le> 5 \<and>
    readi 3 None 0 (of_nat tot) s' = Some (int tot, take tot demo_bytes, s'') \<and> i_size (geti s' 3) = of_nat tot"
proof -
  have f: "fsok 1 demo_files 3 (7 * nblocks (unat (0 :: u32)) (unat (5 :: u32)) + 2)" by (rule demo_files_ok) (simp add: nblocks_def)
  have z: "i_size (geti demo_files 3) = 0" by (simp add: demo_files_inodes demo_file_def)
  show ?thesis using writei_readi [OF f _ _ _ demo_bytes_user(2)] z demo_bytes_user(1) by (auto simp: max_def)
qed

text \<open>C31: writing to a file, from a kernel buffer or from mapped memory of the running process, changes no other file:
  every other inode of the table keeps its fields, every byte of a file with other blocks is what it was, and every
  other inode on disk is what it was.\<close>

theorem writei_other_files:
  assumes s: "fsok d s i (7 * nblocks (unat off) (unat n) + 1)" and off: "off \<le> i_size (geti s i)"
    and n: "unat off + unat n \<le> MAXFILE * BSIZE" "unat n \<le> length bs" and src: "src_holds s src bs"
    and j: "j \<noteq> i" "fok (data_used d s) (blk d s) (geti s j)" "owned (blk d s) (geti s j) \<inter> owned (blk d s) (geti s i) = {}"
  shows "\<exists>r s'. writei i src off n s = Some (r, s') \<and> geti s' j = geti s j \<and>
    (\<forall>k<MAXFILE * BSIZE. contents d s' j k = contents d s j k) \<and>
    (\<forall>inum < sb_ninodes (sb s). inum \<noteq> i_inum (geti s i) \<longrightarrow> (\<forall>ip0. inode_on_disk d s' inum ip0 = inode_on_disk d s inum ip0))"
proof -
  have s1: "fsok d s i (7 * nblocks (unat off) (unat n) + Suc 0)" using s by simp
  show ?thesis
  proof (rule writei_spec [OF s1 off n src])
    fix tot s1 s' assume w: "writei i src off n s = Some (int tot, s')" "wrote_file d i (unat off) bs tot s s1"
      "\<forall>b\<in>data_used d s1. blk d s' b = blk d s1 b" "\<forall>j. j \<noteq> i \<longrightarrow> geti s' j = geti s j"
      "\<forall>inum < sb_ninodes (sb s). inum \<noteq> i_inum (geti s i) \<longrightarrow> (\<forall>ip0. inode_on_disk d s' inum ip0 = inode_on_disk d s inum ip0)"
    have st: "file_step d i s s1" using w(2) by (simp add: wrote_file_def)
    note S = file_stepD [OF st] and fo = fokD(2) [OF j(2)]
    have "blk d s' b = blk d s b" if "b \<in> owned (blk d s) (geti s j)" for b
    proof -
      have "b \<in> data_used d s - owned (blk d s) (geti s i)" using that fo j(3) by blast
      then show ?thesis using S(9,11) w(3) by auto
    qed
    from fblock_elsewhere(3) [OF fok_owned [OF j(2)] this] show ?thesis using w(1,4,5) j(1) by auto
  qed
qed

theorem writei_other_files_witness:
  "\<exists>r s'. writei 3 (KernSrc [104, 101, 108, 108, 111]) 0 5 demo_files = Some (r, s') \<and> geti s' 4 = demo_file 18 500 47 \<and>
    (\<forall>k<MAXFILE * BSIZE. contents 1 s' 4 k = contents 1 demo_files 4 k) \<and>
    (\<forall>ip0. inode_on_disk 1 s' 18 ip0 = inode_on_disk 1 demo_files 18 ip0)"
proof -
  have f: "fsok 1 demo_files 3 (7 * nblocks (unat (0 :: u32)) (unat (5 :: u32)) + 1)" by (rule demo_files_ok) (simp add: nblocks_def)
  have o: "owned (blk 1 demo_files) (geti demo_files 4) \<inter> owned (blk 1 demo_files) (geti demo_files 3) = {}"
    by (simp add: demo_files_inodes demo_file_owned)
  have k: "fok (data_used 1 demo_files) (blk 1 demo_files) (geti demo_files 4)" by (rule fsokD(7) [OF demo_files_ok(2) [of 0]]) simp
  have "18 < sb_ninodes (sb demo_files)" "18 \<noteq> i_inum (geti demo_files 3)"
    by (simp_all add: demo_files_inodes demo_kfs_def demo_file_def)
  then show ?thesis
    using writei_other_files [OF f _ _ _ _ _ k o, of "[104, 101, 108, 108, 111]" "KernSrc [104, 101, 108, 108, 111]"]
    by (auto simp: demo_files_inodes(2,3))
qed

end
