(* ===== verification/Virtio.thy ===== *)
theory Virtio
  imports FState
begin

text \<open>
  The driver of the virtio disk, \<^verbatim>\<open>kernel/virtio_disk.c\<close>: eight descriptors, the ring of available
  requests, and the ring of used ones that the device fills. A request of \<open>virtio_disk_rw\<close> is
  submitted, sleeps until the interrupt handler has cleared \<open>b->disk\<close>, and then frees its
  descriptors: \<open>rw_submit\<close> and \<open>rw_finish\<close> are the two stretches. A buffer is named by its index in the
  cache. The addresses in the descriptors are those of \<open>disk.ops[i]\<close>, of the data of buffer \<open>b\<close> and of
  \<open>disk.info[i].status\<close>, as the constructors of \<open>daddr\<close>.

  The device is outside the sources.
\<close>

section \<open>State\<close>

abbreviation (input) NUM :: nat where "NUM \<equiv> 8"

datatype daddr = ANull | AOp nat | AData nat | AStatus nat

record virtq_desc =
  d_addr :: daddr
  d_len :: u32
  d_flags :: u16
  d_next :: u16

record blk_req =
  rq_type :: u32
  rq_sector :: u64

record vdisk =
  v_desc :: "virtq_desc list"
  v_avail_idx :: u16
  v_avail_ring :: "u16 list"
  v_used_idx :: u16
  v_used_ring :: "u32 list"
  v_seen_idx :: u16
  v_free :: "bool list"
  v_info_b :: "nat option list"
  v_info_status :: "u8 list"
  v_ops :: "blk_req list"
  v_bdisk :: "nat \<Rightarrow> bool"

record kvirt = kfs +
  vd :: vdisk

abbreviation (input) F_NEXT :: u16 where "F_NEXT \<equiv> 1"
abbreviation (input) F_WRITE :: u16 where "F_WRITE \<equiv> 2"

definition no_desc :: virtq_desc where
  "no_desc = \<lparr>d_addr = ANull, d_len = 0, d_flags = 0, d_next = 0\<rparr>"

section \<open>Initialisation\<close>

text \<open>The registers are read through \<open>rd\<close>, in the order of the reads; the result is the list of
  register writes, in order. The queue pages are arguments.\<close>

record vregs =
  vr_magic :: u32
  vr_version :: u32
  vr_device :: u32
  vr_vendor :: u32
  vr_features :: u32
  vr_status :: u32
  vr_ready :: u32
  vr_num_max :: u32

definition driver_features :: "u64 \<Rightarrow> u64" where
  "driver_features f = f AND NOT (push_bit 5 1) AND NOT (push_bit 7 1) AND NOT (push_bit 11 1) AND
     NOT (push_bit 12 1) AND NOT (push_bit 27 1) AND NOT (push_bit 29 1) AND NOT (push_bit 28 1)"

definition empty_vdisk :: "(nat \<Rightarrow> bool) \<Rightarrow> vdisk" where
  "empty_vdisk bd = \<lparr>v_desc = replicate NUM no_desc, v_avail_idx = 0, v_avail_ring = replicate NUM 0,
     v_used_idx = 0, v_used_ring = replicate NUM 0, v_seen_idx = 0, v_free = replicate NUM True,
     v_info_b = replicate NUM None, v_info_status = replicate NUM 0,
     v_ops = replicate NUM \<lparr>rq_type = 0, rq_sector = 0\<rparr>, v_bdisk = bd\<rparr>"

definition alloc_queue :: "'a mach_scheme \<Rightarrow> (u64 \<times> u64 \<times> u64 \<times> 'a mach_scheme) option" where
  "alloc_queue s =
     (let (desc, s) = kalloc s; (avail, s) = kalloc s; (used, s) = kalloc s
      in if desc = 0 \<or> avail = 0 \<or> used = 0 then panic ''virtio disk kalloc''
         else let s = s\<lparr>pmem := memset (pmem s) desc 0 4096\<rparr>;
                  s = s\<lparr>pmem := memset (pmem s) avail 0 4096\<rparr>;
                  s = s\<lparr>pmem := memset (pmem s) used 0 4096\<rparr>
              in Some (desc, avail, used, s))"

definition virtio_disk_init :: "vregs \<Rightarrow> 'a kvirt_scheme \<Rightarrow> ((u32 \<times> u32) list \<times> 'a kvirt_scheme) option" where
  "virtio_disk_init rd s =
     (if vr_magic rd \<noteq> 0x74726976 \<or> vr_version rd \<noteq> 2 \<or> vr_device rd \<noteq> 2 \<or> vr_vendor rd \<noteq> 0x554d4551
      then panic ''could not find virtio disk''
      else if vr_status rd AND 8 = 0 then panic ''virtio disk FEATURES_OK unset''
      else if vr_ready rd \<noteq> 0 then panic ''virtio disk should not be ready''
      else if vr_num_max rd = 0 then panic ''virtio disk has no queue 0''
      else if vr_num_max rd < of_nat NUM then panic ''virtio disk max queue too short''
      else do {
        (desc, avail, used, s) \<leftarrow> alloc_queue s;
        Some ([(0x70, 0), (0x70, 1), (0x70, 3), (0x20, ucast (driver_features (ucast (vr_features rd)))),
               (0x70, 11), (0x30, 0), (0x38, of_nat NUM),
               (0x80, ucast desc), (0x84, ucast (drop_bit 32 desc)),
               (0x90, ucast avail), (0x94, ucast (drop_bit 32 avail)),
               (0xa0, ucast used), (0xa4, ucast (drop_bit 32 used)),
               (0x44, 1), (0x70, vr_status rd OR 4)],
              s\<lparr>vd := empty_vdisk (v_bdisk (vd s))\<rparr>)
      })"

section \<open>Descriptors\<close>

definition setvd :: "(vdisk \<Rightarrow> vdisk) \<Rightarrow> 'a kvirt_scheme \<Rightarrow> 'a kvirt_scheme" where
  "setvd f s = s\<lparr>vd := f (vd s)\<rparr>"

definition alloc_desc :: "'a kvirt_scheme \<Rightarrow> nat option \<times> 'a kvirt_scheme" where
  "alloc_desc s =
     (case find (\<lambda>i. v_free (vd s) ! i) [0..<NUM] of
        None \<Rightarrow> (None, s)
      | Some i \<Rightarrow> (Some i, setvd (\<lambda>d. d\<lparr>v_free := (v_free d)[i := False]\<rparr>) s))"

definition free_desc :: "nat \<Rightarrow> 'a kvirt_scheme \<Rightarrow> 'a kvirt_scheme option" where
  "free_desc i s =
     (if NUM \<le> i then panic ''free_desc 1''
      else if v_free (vd s) ! i then panic ''free_desc 2''
      else Some (wakeup ChDiskFree
             (setvd (\<lambda>d. d\<lparr>v_desc := (v_desc d)[i := no_desc], v_free := (v_free d)[i := True]\<rparr>) s)))"

text \<open>Every turn of the loop of \<open>free_chain\<close> marks a descriptor free, so eight turns are enough.\<close>

fun free_chain :: "nat \<Rightarrow> nat \<Rightarrow> 'a kvirt_scheme \<Rightarrow> 'a kvirt_scheme option" where
  "free_chain 0 i s = None"
| "free_chain (Suc fuel) i s =
     (if NUM \<le> i then None
      else let flag = d_flags (v_desc (vd s) ! i); nxt = d_next (v_desc (vd s) ! i)
           in do {
             s \<leftarrow> free_desc i s;
             if flag AND F_NEXT \<noteq> 0 then free_chain fuel (unat nxt) s else Some s
           })"

definition alloc3_desc :: "'a kvirt_scheme \<Rightarrow> ((nat \<times> nat \<times> nat) option \<times> 'a kvirt_scheme) option" where
  "alloc3_desc s =
     (case alloc_desc s of
        (None, s) \<Rightarrow> Some (None, s)
      | (Some i0, s) \<Rightarrow>
          (case alloc_desc s of
             (None, s) \<Rightarrow> do { s \<leftarrow> free_desc i0 s; Some (None, s) }
           | (Some i1, s) \<Rightarrow>
               (case alloc_desc s of
                  (None, s) \<Rightarrow> do { s \<leftarrow> free_desc i0 s; s \<leftarrow> free_desc i1 s; Some (None, s) }
                | (Some i2, s) \<Rightarrow> Some (Some (i0, i1, i2), s))))"

section \<open>Requests\<close>

definition fill_chain :: "nat \<Rightarrow> u32 \<Rightarrow> bool \<Rightarrow> nat \<Rightarrow> nat \<Rightarrow> nat \<Rightarrow> vdisk \<Rightarrow> vdisk" where
  "fill_chain b blockno wr i0 i1 i2 d =
     d\<lparr>v_ops := (v_ops d)[i0 := \<lparr>rq_type = (if wr then 1 else 0), rq_sector = ucast (blockno * 2)\<rparr>],
       v_desc := (v_desc d)
         [i0 := \<lparr>d_addr = AOp i0, d_len = 16, d_flags = F_NEXT, d_next = of_nat i1\<rparr>,
          i1 := \<lparr>d_addr = AData b, d_len = of_nat BSIZE, d_flags = (if wr then 0 else F_WRITE) OR F_NEXT, d_next = of_nat i2\<rparr>,
          i2 := \<lparr>d_addr = AStatus i0, d_len = 1, d_flags = F_WRITE, d_next = 0\<rparr>],
       v_info_status := (v_info_status d)[i0 := 0xff],
       v_bdisk := (v_bdisk d)(b := True),
       v_info_b := (v_info_b d)[i0 := Some b]\<rparr>"

definition post_avail :: "nat \<Rightarrow> vdisk \<Rightarrow> vdisk" where
  "post_avail i0 d =
     d\<lparr>v_avail_ring := (v_avail_ring d)[unat (v_avail_idx d) mod NUM := of_nat i0],
       v_avail_idx := v_avail_idx d + 1\<rparr>"

text \<open>\<open>virtio_disk_rw\<close> up to its first sleep: the head of the chain when it waits for the device, or
  \<open>None\<close> when it waits for descriptors.\<close>

definition rw_submit :: "nat \<Rightarrow> nat \<Rightarrow> u32 \<Rightarrow> bool \<Rightarrow> 'a kvirt_scheme \<Rightarrow> (nat option \<times> 'a kvirt_scheme) option" where
  "rw_submit pr b blockno wr s = do {
     (idx, s) \<leftarrow> alloc3_desc s;
     case idx of
       None \<Rightarrow> Some (None, sleep_enter ChDiskFree pr s)
     | Some (i0, i1, i2) \<Rightarrow>
         Some (Some i0, sleep_enter (ChBuf b) pr (setvd (\<lambda>d. post_avail i0 (fill_chain b blockno wr i0 i1 i2 d)) s))
   }"

text \<open>The rest of \<open>virtio_disk_rw\<close>, once \<open>b->disk\<close> is clear.\<close>

definition rw_finish :: "nat \<Rightarrow> 'a kvirt_scheme \<Rightarrow> 'a kvirt_scheme option" where
  "rw_finish i0 s = free_chain NUM i0 (setvd (\<lambda>d. d\<lparr>v_info_b := (v_info_b d)[i0 := None]\<rparr>) s)"

section \<open>Interrupts\<close>

definition intr_one :: "'a kvirt_scheme \<Rightarrow> 'a kvirt_scheme option" where
  "intr_one s =
     (let d = vd s; i = unat (v_used_ring d ! (unat (v_seen_idx d) mod NUM))
      in if NUM \<le> i then None
         else if v_info_status d ! i \<noteq> 0 then panic ''virtio_disk_intr status''
         else do {
           b \<leftarrow> v_info_b d ! i;
           let s = wakeup (ChBuf b) (setvd (\<lambda>d. d\<lparr>v_bdisk := (v_bdisk d)(b := False)\<rparr>) s);
           Some (setvd (\<lambda>d. d\<lparr>v_seen_idx := v_seen_idx d + 1\<rparr>) s)
         })"

lemma vd_simps [simp]:
  "vd (setvd f s) = f (vd s)" "vd (wakeup ch s) = vd s" "vd (setp i g s) = vd s" "vd (sleep_enter ch pr s) = vd s"
  by (simp_all add: setvd_def wakeup_def setp_def sleep_enter_def)

lemma intr_one_idx:
  assumes "intr_one s = Some s'"
  shows "v_seen_idx (vd s') = v_seen_idx (vd s) + 1 \<and> v_used_idx (vd s') = v_used_idx (vd s)"
  using assms by (auto simp: intr_one_def Let_def panic_def bind_eq_Some_conv split: if_splits)

text \<open>The 16-bit indices: a turn of the handler's loop brings the driver's one closer to the device's.\<close>

lemma unat_closer:
  fixes a b :: "'w :: len word"
  assumes "a \<noteq> b"
  shows "unat (b - (a + 1)) < unat (b - a)"
proof -
  have "b - a \<noteq> 0"
    using assms by simp
  then have "unat (b - a - 1) < unat (b - a)"
    by (simp add: unat_gt_0 unat_minus_one)
  then show ?thesis
    by (simp add: algebra_simps)
qed

function virtio_disk_intr :: "'a kvirt_scheme \<Rightarrow> 'a kvirt_scheme option" where
  "virtio_disk_intr s =
     (if v_seen_idx (vd s) \<noteq> v_used_idx (vd s) then do {
        s \<leftarrow> intr_one s;
        virtio_disk_intr s
      } else Some s)"
  by pat_completeness auto
termination
  by (relation "measure (\<lambda>s. unat (v_used_idx (vd s) - v_seen_idx (vd s)))")
    (auto dest!: intr_one_idx simp: unat_closer)

declare virtio_disk_intr.simps [simp del]

end
