(* ===== verification/Ring.thy ===== *)
theory Ring
  imports Prelude
begin

text \<open>
  Ring buffers whose read and write positions are free-running words that are reduced modulo the
  size of the buffer on access, as in the pipes, the console and the disk driver. The size divides
  the range of the positions, so wrap-around of a position is harmless.
\<close>

definition ring_items :: "nat \<Rightarrow> 'b list \<Rightarrow> 'w::len word \<Rightarrow> 'w word \<Rightarrow> 'b list" where
  "ring_items N buf r w = map (\<lambda>k. buf ! ((unat r + k) mod N)) [0..<unat (w - r)]"

lemma length_ring_items [simp]: "length (ring_items N buf r w) = unat (w - r)"
  by (simp add: ring_items_def)

lemma ring_items_same [simp]: "ring_items N buf r r = []"
  by (simp add: ring_items_def)

lemma ring_items_Nil: "ring_items N buf r w = [] \<longleftrightarrow> r = w"
  by (auto simp: ring_items_def unsigned_eq_0_iff)

lemma unat_pos_mod:
  fixes r w :: "'w::len word"
  assumes "N dvd 2 ^ LENGTH('w)"
  shows "unat w mod N = (unat r + unat (w - r)) mod N"
proof -
  have "unat w = (unat r + unat (w - r)) mod 2 ^ LENGTH('w)"
    using unat_word_ariths(1) [of r "w - r"] by simp
  then show ?thesis using mod_mod_cancel [OF assms, of "unat r + unat (w - r)"] by simp
qed

lemma unat_succ_diff:
  fixes r w :: "'w::len word"
  assumes "unat (w - r) < N" "N < 2 ^ LENGTH('w)"
  shows "unat (w + 1 - r) = unat (w - r) + 1"
proof -
  have "w + 1 - r = (w - r) + 1" by simp
  moreover have "unat ((w - r) + 1) = unat (w - r) + 1"
    using assms by (subst unat_add_lem [THEN iffD1]) auto
  ultimately show ?thesis by (simp only:)
qed

text \<open>Storing at the write position appends; reading at the read position takes the first item.\<close>

lemma ring_put:
  fixes r w :: "'w::len word"
  assumes N: "N dvd 2 ^ LENGTH('w)" "N < 2 ^ LENGTH('w)" and len: "length buf = N" and room: "unat (w - r) < N"
  shows "ring_items N (buf[unat w mod N := x]) r (w + 1) = ring_items N buf r w @ [x]"
proof -
  let ?n = "unat (w - r)"
  have N0: "0 < N" using room by simp
  have pos: "unat w mod N = (unat r + ?n) mod N" by (rule unat_pos_mod [OF N(1)])
  have old: "(unat r + k) mod N \<noteq> (unat r + ?n) mod N" if "k < ?n" for k
  proof
    assume "(unat r + k) mod N = (unat r + ?n) mod N"
    then have "k mod N = ?n mod N" by (simp add: nat_mod_eq_iff)
    then show False using that room by simp
  qed
  have "ring_items N (buf[unat w mod N := x]) r (w + 1) =
      map (\<lambda>k. buf[unat w mod N := x] ! ((unat r + k) mod N)) [0..<Suc ?n]"
    unfolding ring_items_def using unat_succ_diff [OF room N(2)] by simp
  also have "\<dots> = map (\<lambda>k. buf ! ((unat r + k) mod N)) [0..<?n] @ [x]"
    using nth_list_update_neq [OF old [symmetric], of _ buf x] N0 len unfolding pos by simp
  finally show ?thesis by (simp add: ring_items_def)
qed

lemma ring_take:
  fixes r w :: "'w::len word"
  assumes N: "N dvd 2 ^ LENGTH('w)" and ne: "r \<noteq> w"
  shows "ring_items N buf r w = buf ! (unat r mod N) # ring_items N buf (r + 1) w"
proof -
  have "w - r \<noteq> 0" using ne by simp
  then have d: "unat (w - r) = Suc (unat (w - (r + 1)))"
    using unat_minus_one [of "w - r"] unat_gt_0 [of "w - r"] by (simp add: algebra_simps)
  have m: "(unat (r + 1) + k) mod N = (unat r + Suc k) mod N" for k
  proof -
    have "unat (r + 1) mod N = (unat r + 1) mod N"
      using unat_pos_mod [OF N, of "r + 1" r] by simp
    then have "(unat (r + 1) + k) mod N = (unat r + 1 + k) mod N" by (metis mod_add_left_eq)
    then show ?thesis by simp
  qed
  show ?thesis
    unfolding ring_items_def d
    by (simp add: upt_conv_Cons map_Suc_upt [symmetric] m comp_def del: upt_Suc)
qed

section \<open>First in, first out\<close>

text \<open>The contract of a bounded queue. A client that only puts into a queue that is not full and
  only takes from a queue that is not empty sees the items in the order in which they were put.\<close>

locale fifo =
  fixes ok :: "'q \<Rightarrow> bool"
    and items :: "'q \<Rightarrow> 'b list"
    and cap :: nat
    and full :: "'q \<Rightarrow> bool"
    and put :: "'b \<Rightarrow> 'q \<Rightarrow> 'q"
    and peek :: "'q \<Rightarrow> 'b"
    and discard :: "'q \<Rightarrow> 'q"
  assumes cap: "ok q \<Longrightarrow> length (items q) \<le> cap"
    and full_iff: "ok q \<Longrightarrow> full q \<longleftrightarrow> length (items q) = cap"
    and put_items: "ok q \<Longrightarrow> \<not> full q \<Longrightarrow> ok (put x q) \<and> items (put x q) = items q @ [x]"
    and take_items: "ok q \<Longrightarrow> items q \<noteq> [] \<Longrightarrow> ok (discard q) \<and> items q = peek q # items (discard q)"

datatype 'b qop = Put 'b | Take

fun qrun :: "('q \<Rightarrow> bool) \<Rightarrow> ('q \<Rightarrow> 'b list) \<Rightarrow> ('b \<Rightarrow> 'q \<Rightarrow> 'q) \<Rightarrow> ('q \<Rightarrow> 'b) \<Rightarrow> ('q \<Rightarrow> 'q)
    \<Rightarrow> 'b qop list \<Rightarrow> 'q \<Rightarrow> ('b list \<times> 'b list \<times> 'q)" where
  "qrun full items put peek discard [] q = ([], [], q)"
| "qrun full items put peek discard (Put x # ops) q =
     (if full q then qrun full items put peek discard ops q
      else let (ins, outs, q') = qrun full items put peek discard ops (put x q) in (x # ins, outs, q'))"
| "qrun full items put peek discard (Take # ops) q =
     (if items q = [] then qrun full items put peek discard ops q
      else let (ins, outs, q') = qrun full items put peek discard ops (discard q) in (ins, peek q # outs, q'))"

context fifo
begin

lemma qrun_order:
  "ok q \<Longrightarrow> qrun full items put peek discard ops q = (ins, outs, q') \<Longrightarrow>
     ok q' \<and> items q @ ins = outs @ items q'"
proof (induction ops arbitrary: q ins outs)
  case (Cons op ops)
  show ?case
  proof (cases op)
    case (Put x)
    show ?thesis
    proof (cases "full q")
      case False
      then obtain ins' where r: "qrun full items put peek discard ops (put x q) = (ins', outs, q')" "ins = x # ins'"
        using Cons.prems(2) Put by (auto split: prod.splits)
      then show ?thesis using Cons.IH [OF _ r(1)] put_items [OF Cons.prems(1) False, of x] by auto
    qed (use Cons Put in auto)
  next
    case Take
    show ?thesis
    proof (cases "items q = []")
      case False
      then obtain outs' where r: "qrun full items put peek discard ops (discard q) = (ins, outs', q')"
        "outs = peek q # outs'"
        using Cons.prems(2) Take by (auto split: prod.splits)
      then show ?thesis using Cons.IH [OF _ r(1)] take_items [OF Cons.prems(1) False] by auto
    qed (use Cons.IH [OF Cons.prems(1)] Cons.prems(2) Take in auto)
  qed
qed auto

end

end
