(* ===== verification/Pipe.thy ===== *)
theory Pipe
  imports FState Ring
begin

text \<open>
  Pipes, \<^verbatim>\<open>kernel/pipe.c\<close>. A pipe is named by the address of the page that holds it. A call of
  \<open>pipewrite\<close> or \<open>piperead\<close> runs until it returns or goes to sleep; \<open>pipewrite_run\<close> and
  \<open>piperead_run\<close> are that stretch, with \<open>Inl\<close> the returned value and \<open>Inr\<close> the local state with which
  the loop goes on after a wakeup. \<open>pipewrite\<close> and \<open>piperead\<close> are the calls that never sleep.
\<close>

section \<open>The ring\<close>

definition setpipe :: "u64 \<Rightarrow> (pipe \<Rightarrow> pipe) \<Rightarrow> 'a kfs_scheme \<Rightarrow> 'a kfs_scheme" where
  "setpipe pi f s = s\<lparr>pipes := (pipes s)(pi := map_option f (pipes s pi))\<rparr>"

definition pipe_full :: "pipe \<Rightarrow> bool" where
  "pipe_full p \<longleftrightarrow> pi_nwrite p = pi_nread p + of_nat PIPESIZE"

definition pipe_put :: "u8 \<Rightarrow> pipe \<Rightarrow> pipe" where
  "pipe_put ch p = p\<lparr>pi_data := (pi_data p)[unat (pi_nwrite p) mod PIPESIZE := ch], pi_nwrite := pi_nwrite p + 1\<rparr>"

definition pipe_peek :: "pipe \<Rightarrow> u8" where
  "pipe_peek p = pi_data p ! (unat (pi_nread p) mod PIPESIZE)"

definition pipe_drop :: "pipe \<Rightarrow> pipe" where
  "pipe_drop p = p\<lparr>pi_nread := pi_nread p + 1\<rparr>"

section \<open>Operations\<close>

definition pipeclose :: "u64 \<Rightarrow> bool \<Rightarrow> 'a kfs_scheme \<Rightarrow> 'a kfs_scheme option" where
  "pipeclose pi writable s = do {
     let s = (if writable
              then wakeup (ChPipeRead pi) (setpipe pi (\<lambda>p. p\<lparr>pi_writeopen := False\<rparr>) s)
              else wakeup (ChPipeWrite pi) (setpipe pi (\<lambda>p. p\<lparr>pi_readopen := False\<rparr>) s));
     p \<leftarrow> pipes s pi;
     if \<not> pi_readopen p \<and> \<not> pi_writeopen p
     then kfree pi (s\<lparr>pipes := (pipes s)(pi := None)\<rparr>)
     else Some s
   }"

text \<open>One round of the loop of \<open>pipewrite\<close>: the call returns, goes to sleep, or has put a byte and goes on.\<close>

datatype wround = WReturn int | WSleep | WByte

definition pipewrite_round :: "nat \<Rightarrow> u64 \<Rightarrow> u64 \<Rightarrow> nat \<Rightarrow> 'a kfs_scheme \<Rightarrow> (wround \<times> 'a kfs_scheme) option" where
  "pipewrite_round pr pi addr i s = do {
     p \<leftarrow> pipes s pi;
     if \<not> pi_readopen p \<or> killed pr s then Some (WReturn (- 1), s)
     else if pipe_full p then Some (WSleep, sleep_enter (ChPipeWrite pi) pr (wakeup (ChPipeRead pi) s))
     else do {
       (r, bs, s) \<leftarrow> copyin (p_pagetable (getp s pr)) (addr + of_nat i) 1 s;
       if r = - 1 then Some (WReturn (int i), wakeup (ChPipeRead pi) s)
       else Some (WByte, setpipe pi (pipe_put (hd bs)) s)
     }
   }"

text \<open>The rounds one after the other, with no kill from another hart in between.\<close>

fun pipewrite_run :: "nat \<Rightarrow> u64 \<Rightarrow> u64 \<Rightarrow> nat \<Rightarrow> nat \<Rightarrow> 'a kfs_scheme \<Rightarrow> ((int + nat) \<times> 'a kfs_scheme) option" where
  "pipewrite_run pr pi addr i 0 s = Some (Inl (int i), wakeup (ChPipeRead pi) s)"
| "pipewrite_run pr pi addr i (Suc k) s = do {
     (w, s) \<leftarrow> pipewrite_round pr pi addr i s;
     case w of
       WReturn r \<Rightarrow> Some (Inl r, s)
     | WSleep \<Rightarrow> Some (Inr i, s)
     | WByte \<Rightarrow> pipewrite_run pr pi addr (i + 1) k s
   }"

definition pipewrite :: "u64 \<Rightarrow> u64 \<Rightarrow> u32 \<Rightarrow> 'a kfs_scheme \<Rightarrow> (int \<times> 'a kfs_scheme) option" where
  "pipewrite pi addr n s = do {
     pr \<leftarrow> myproc s;
     (r, s) \<leftarrow> pipewrite_run pr pi addr 0 (nat (sint n)) s;
     case r of Inl r \<Rightarrow> Some (r, s) | Inr _ \<Rightarrow> None
   }"

text \<open>The copy loop of \<open>piperead\<close>, with \<open>i\<close> bytes read and \<open>k\<close> to go.\<close>

fun piperead_copy :: "nat \<Rightarrow> u64 \<Rightarrow> u64 \<Rightarrow> nat \<Rightarrow> nat \<Rightarrow> 'a kfs_scheme \<Rightarrow> (int \<times> 'a kfs_scheme) option" where
  "piperead_copy pr pi addr i 0 s = Some (int i, s)"
| "piperead_copy pr pi addr i (Suc k) s = do {
     p \<leftarrow> pipes s pi;
     if pi_nread p = pi_nwrite p then Some (int i, s)
     else do {
       (r, s) \<leftarrow> copyout (p_pagetable (getp s pr)) (addr + of_nat i) [pipe_peek p] s;
       if r = - 1 then Some (if i = 0 then - 1 else int i, s)
       else piperead_copy pr pi addr (i + 1) k (setpipe pi pipe_drop s)
     }
   }"

definition piperead_run :: "nat \<Rightarrow> u64 \<Rightarrow> u64 \<Rightarrow> nat \<Rightarrow> 'a kfs_scheme \<Rightarrow> ((int + unit) \<times> 'a kfs_scheme) option" where
  "piperead_run pr pi addr n s = do {
     p \<leftarrow> pipes s pi;
     if pi_nread p = pi_nwrite p \<and> pi_writeopen p then
       (if killed pr s then Some (Inl (- 1), s) else Some (Inr (), sleep_enter (ChPipeRead pi) pr s))
     else do {
       (i, s) \<leftarrow> piperead_copy pr pi addr 0 n s;
       Some (Inl i, wakeup (ChPipeWrite pi) s)
     }
   }"

definition piperead :: "u64 \<Rightarrow> u64 \<Rightarrow> u32 \<Rightarrow> 'a kfs_scheme \<Rightarrow> (int \<times> 'a kfs_scheme) option" where
  "piperead pi addr n s = do {
     pr \<leftarrow> myproc s;
     (r, s) \<leftarrow> piperead_run pr pi addr (nat (sint n)) s;
     case r of Inl r \<Rightarrow> Some (r, s) | Inr _ \<Rightarrow> None
   }"

section \<open>The ring is a queue\<close>

definition pipe_ok :: "pipe \<Rightarrow> bool" where
  "pipe_ok p \<longleftrightarrow> length (pi_data p) = PIPESIZE \<and> unat (pi_nwrite p - pi_nread p) \<le> PIPESIZE"

definition pipe_items :: "pipe \<Rightarrow> u8 list" where
  "pipe_items p = ring_items PIPESIZE (pi_data p) (pi_nread p) (pi_nwrite p)"

lemma pipe_full_iff: "pipe_full p \<longleftrightarrow> unat (pi_nwrite p - pi_nread p) = PIPESIZE"
proof -
  have "pipe_full p \<longleftrightarrow> pi_nwrite p - pi_nread p = 512" by (auto simp: pipe_full_def algebra_simps)
  then show ?thesis by (simp add: word_unat_eq_iff)
qed

lemma pipe_empty_iff: "pipe_items p = [] \<longleftrightarrow> pi_nread p = pi_nwrite p"
  by (simp add: pipe_items_def ring_items_Nil)

interpretation pq: fifo pipe_ok pipe_items 512 pipe_full pipe_put pipe_peek pipe_drop
proof unfold_locales
  fix p x
  show "pipe_ok p \<Longrightarrow> length (pipe_items p) \<le> 512" by (simp add: pipe_ok_def pipe_items_def)
  show "pipe_ok p \<Longrightarrow> pipe_full p = (length (pipe_items p) = 512)" by (simp add: pipe_items_def pipe_full_iff)
  show "pipe_ok (pipe_put x p) \<and> pipe_items (pipe_put x p) = pipe_items p @ [x]" if "pipe_ok p" "\<not> pipe_full p"
  proof -
    have r: "length (pi_data p) = 512" "unat (pi_nwrite p - pi_nread p) < 512"
      using that by (auto simp: pipe_ok_def pipe_full_iff)
    have "unat (pi_nwrite p + 1 - pi_nread p) = unat (pi_nwrite p - pi_nread p) + 1"
      by (rule unat_succ_diff [OF r(2)]) simp
    moreover have "512 dvd (2 :: nat) ^ LENGTH(32)" by simp
    ultimately show ?thesis
      using ring_put [of 512 "pi_data p" "pi_nwrite p" "pi_nread p" x] r
      by (simp add: pipe_ok_def pipe_items_def pipe_put_def)
  qed
  show "pipe_ok (pipe_drop p) \<and> pipe_items p = pipe_peek p # pipe_items (pipe_drop p)"
    if "pipe_ok p" "pipe_items p \<noteq> []"
  proof -
    have ne: "pi_nread p \<noteq> pi_nwrite p" using that(2) by (simp add: pipe_empty_iff)
    have "pipe_items p = pipe_peek p # pipe_items (pipe_drop p)"
      unfolding pipe_items_def pipe_peek_def pipe_drop_def
      using ring_take [OF _ ne, of 512 "pi_data p"] by simp
    moreover from arg_cong [OF this, of length] have "unat (pi_nwrite p - pi_nread (pipe_drop p)) < 512"
      using that(1) by (simp add: pipe_ok_def pipe_items_def pipe_drop_def)
    ultimately show ?thesis using that(1) by (simp add: pipe_ok_def pipe_drop_def)
  qed
qed

lemma setpipe_simps [simp]:
  "pmem (setpipe pi f s) = pmem s" "freelist (setpipe pi f s) = freelist s" "sym (setpipe pi f s) = sym s"
  "procs (setpipe pi f s) = procs s" "cur (setpipe pi f s) = cur s" "getp (setpipe pi f s) = getp s"
  "runs (setpipe pi f s) i root = runs s i root" "killed i (setpipe pi f s) = killed i s"
  "pipes (setpipe pi f s) = (pipes s)(pi := map_option f (pipes s pi))"
  by (simp_all add: setpipe_def getp_def fun_eq_iff runs_def killed_def)

lemma put_keeps [simp]:
  "pi_readopen (pipe_put c p) = pi_readopen p" "pi_writeopen (pipe_put c p) = pi_writeopen p"
  "pi_readopen (pipe_drop p) = pi_readopen p" "pi_writeopen (pipe_drop p) = pi_writeopen p"
  by (simp_all add: pipe_put_def pipe_drop_def)

section \<open>Writing\<close>

text \<open>\<open>delivered s root a xs\<close>: the bytes \<open>xs\<close> are those of user memory at \<open>a\<close>.\<close>

definition delivered :: "'a mach_scheme \<Rightarrow> u64 \<Rightarrow> u64 \<Rightarrow> u8 list \<Rightarrow> bool" where
  "delivered s root a xs \<longleftrightarrow>
     (\<forall>j<length xs. PGROUNDDOWN (a + of_nat j) \<in> upages (pmem s) root \<and> umem (pmem s) root (a + of_nat j) = xs ! j)"

lemma delivered_Nil [simp]: "delivered s root a []"
  by (simp add: delivered_def)

lemma delivered_one: "PGROUNDDOWN a \<in> upages (pmem s) root \<Longrightarrow> umem (pmem s) root a = x \<Longrightarrow> delivered s root a [x]"
  by (simp add: delivered_def)

lemma delivered_uview: "delivered s root a xs \<Longrightarrow> uview s root F {} s' F' \<Longrightarrow> delivered s' root a xs"
  using uviewD(2,3) by (fastforce simp: delivered_def)

lemma delivered_Cons:
  assumes "delivered s root a [x]" "delivered s root (a + 1) xs"
  shows "delivered s root a (x # xs)"
proof -
  have "PGROUNDDOWN (a + of_nat j) \<in> upages (pmem s) root \<and> umem (pmem s) root (a + of_nat j) = (x # xs) ! j"
    if "j < length (x # xs)" for j
  proof (cases j)
    case (Suc l)
    then have "a + of_nat j = a + 1 + of_nat l" by simp
    then show ?thesis using assms(2) that Suc by (simp add: delivered_def add.assoc)
  qed (use assms(1) in \<open>simp add: delivered_def\<close>)
  then show ?thesis by (simp add: delivered_def)
qed

text \<open>How a stretch of \<open>pipewrite\<close> from count \<open>i\<close> with \<open>k\<close> bytes to go ends, having put \<open>xs\<close> and left
  the pipe as \<open>p'\<close>, when the pages \<open>P\<close> were mapped at its start: at once with -1 if \<open>stop\<close>; with the
  count, all bytes put or the next one in no page of \<open>P\<close>; or asleep with the pipe full.\<close>

definition write_end :: "bool \<Rightarrow> u64 set \<Rightarrow> u64 \<Rightarrow> nat \<Rightarrow> nat \<Rightarrow> u8 list \<Rightarrow> pipe \<Rightarrow> int + nat \<Rightarrow> bool" where
  "write_end stop P addr i k xs p' r \<longleftrightarrow>
     (if stop then r = Inl (- 1) \<and> xs = []
      else case r of
        Inl n \<Rightarrow> n = int (i + length xs) \<and>
          (length xs = k \<or> length xs < k \<and> PGROUNDDOWN (addr + of_nat (i + length xs)) \<notin> P)
      | Inr j \<Rightarrow> j = i + length xs \<and> length xs < k \<and> pipe_full p')"

text \<open>Which processes it has woken and put to sleep.\<close>

definition write_procs :: "nat \<Rightarrow> u64 \<Rightarrow> int + nat \<Rightarrow> 'a kfs_scheme \<Rightarrow> 'a kfs_scheme \<Rightarrow> bool" where
  "write_procs pr pi r s s' \<longleftrightarrow> cur s' = cur s \<and>
     procs s' =
       (case r of
          Inl n \<Rightarrow> if n = - 1 then procs s else procs (wakeup (ChPipeRead pi) s)
        | Inr _ \<Rightarrow> procs (sleep_enter (ChPipeWrite pi) pr (wakeup (ChPipeRead pi) s)))"

lemma procs_wakeup_cong: "procs u = procs s \<Longrightarrow> cur u = cur s \<Longrightarrow> procs (wakeup ch u) = procs (wakeup ch s)"
  by (simp add: wakeup_def myproc_def)

lemma write_procs_cong:
  "procs u = procs s \<Longrightarrow> cur u = cur s \<Longrightarrow> write_procs pr pi r u s' = write_procs pr pi r s s'"
  by (simp add: write_procs_def wakeup_def sleep_enter_def setp_def myproc_def cong: sum.case_cong if_cong)

text \<open>What a round does.\<close>

definition round_ok :: "nat \<Rightarrow> u64 \<Rightarrow> u64 \<Rightarrow> u64 \<Rightarrow> nat \<Rightarrow> pipe \<Rightarrow> 'a kfs_scheme \<Rightarrow> wround \<Rightarrow> 'a kfs_scheme \<Rightarrow> bool" where
  "round_ok pr pi root addr i p s w t \<longleftrightarrow>
     (case w of
        WReturn r \<Rightarrow> r = - 1 \<and> t = s \<and> (\<not> pi_readopen p \<or> killed pr s) \<or>
          r = int i \<and> pi_readopen p \<and> \<not> killed pr s \<and> pipes t = pipes s \<and> cur t = cur s \<and> procs t = procs (wakeup (ChPipeRead pi) s) \<and>
          PGROUNDDOWN (addr + of_nat i) \<notin> upages (pmem s) root
      | WSleep \<Rightarrow> pi_readopen p \<and> \<not> killed pr s \<and> pipe_full p \<and> t = sleep_enter (ChPipeWrite pi) pr (wakeup (ChPipeRead pi) s)
      | WByte \<Rightarrow> pi_readopen p \<and> \<not> killed pr s \<and> \<not> pipe_full p \<and> runs t pr root \<and> procs t = procs s \<and> cur t = cur s \<and>
          PGROUNDDOWN (addr + of_nat i) \<in> upages (pmem t) root \<and>
          pipes t = (pipes s)(pi \<mapsto> pipe_put (umem (pmem t) root (addr + of_nat i)) p))"

lemma pipewrite_round_spec:
  fixes s :: "'a kfs_scheme"
  assumes "uspace s root F" "runs s pr root" "pipes s pi = Some p"
  shows "\<exists>w t G. pipewrite_round pr pi addr i s = Some (w, t) \<and> uview s root F {} t G \<and> round_ok pr pi root addr i p s w t"
proof (cases "\<not> pi_readopen p \<or> killed pr s")
  case True
  then show ?thesis using assms
    by (intro exI [of _ "WReturn (- 1)"] exI [of _ s] exI [of _ F]) (simp add: pipewrite_round_def round_ok_def)
next
  case go: False
  show ?thesis
  proof (cases "pipe_full p")
    case True
    then show ?thesis using assms go
      by (intro exI [of _ WSleep] exI [of _ "sleep_enter (ChPipeWrite pi) pr (wakeup (ChPipeRead pi) s)"] exI [of _ F])
        (auto simp: pipewrite_round_def round_ok_def intro!: uview_cong [OF uview_refl])
  next
    case room: False
    obtain r bs t G where c: "copyin root (addr + of_nat i) 1 s = Some (r, bs, t)" "ukeep s root F {} t G"
      "r = 0 \<and> PGROUNDDOWN (addr + of_nat i) \<in> upages (pmem t) root \<and> bs = [umem (pmem t) root (addr + of_nat i)] \<or>
       r = - 1 \<and> PGROUNDDOWN (addr + of_nat i) \<notin> upages (pmem s) root"
      using copyin_spec [OF assms(1,2), of "addr + of_nat i" 1] copyin_mapped [OF assms(1,2), of 1 "addr + of_nat i"] by fastforce
    have v: "uview s root F {} t G" and mo: "mem_only s t" using c(2) by (simp_all add: ukeep_def)
    note kf = mem_only_kfs [OF mo] and kp = mem_only_kproc [OF mo]
    have pt: "p_pagetable (getp s pr) = root" using assms(2) by (simp add: runs_def)
    show ?thesis
    proof (cases "r = - 1")
      case True
      have "uview s root F {} (wakeup (ChPipeRead pi) t) G" by (rule uview_cong [OF v]) simp_all
      then show ?thesis using True assms(3) go room c(1,3) pt kf(9) kp procs_wakeup_cong [OF kp]
        by (intro exI [of _ "WReturn (int i)"] exI [of _ "wakeup (ChPipeRead pi) t"] exI [of _ G])
          (simp add: pipewrite_round_def round_ok_def)
    next
      case False
      let ?u = "setpipe pi (pipe_put (umem (pmem t) root (addr + of_nat i))) t"
      have "uview s root F {} ?u G" by (rule uview_cong [OF v]) simp_all
      then show ?thesis using False assms(3) go room c(1,3) pt kf(9) kp runs_mem_only [OF mo assms(2)]
        by (intro exI [of _ WByte] exI [of _ ?u] exI [of _ G]) (simp add: pipewrite_round_def round_ok_def)
    qed
  qed
qed

lemma pipewrite_run_spec:
  fixes s :: "'a kfs_scheme"
  assumes "uspace s root F" "runs s pr root" "pipes s pi = Some p" "pipe_ok p"
  shows "\<exists>r s' F' xs p'. pipewrite_run pr pi addr i k s = Some (r, s') \<and> uview s root F {} s' F' \<and>
    pipes s' = (pipes s)(pi \<mapsto> p') \<and> pipe_ok p' \<and> pipe_items p' = pipe_items p @ xs \<and>
    pi_readopen p' = pi_readopen p \<and> pi_writeopen p' = pi_writeopen p \<and> write_procs pr pi r s s' \<and>
    delivered s' root (addr + of_nat i) xs \<and>
    write_end (k \<noteq> 0 \<and> (\<not> pi_readopen p \<or> killed pr s)) (upages (pmem s) root) addr i k xs p' r"
  using assms
proof (induction k arbitrary: i s F p)
  case 0
  then show ?case
    by (intro exI [of _ "Inl (int i)"] exI [of _ "wakeup (ChPipeRead pi) s"] exI [of _ F] exI [of _ "[]"] exI [of _ p])
      (auto simp: write_end_def write_procs_def intro!: uview_cong [OF uview_refl])
next
  case (Suc k)
  obtain w t G where w: "pipewrite_round pr pi addr i s = Some (w, t)" "uview s root F {} t G" "round_ok pr pi root addr i p s w t"
    using pipewrite_round_spec [OF Suc.prems(1-3)] by blast
  have here: ?case if "pipewrite_run pr pi addr i (Suc k) s = Some (r, t)" "pipes t = pipes s" "write_procs pr pi r s t"
    "write_end (\<not> pi_readopen p \<or> killed pr s) (upages (pmem s) root) addr i (Suc k) [] p r" for r
    using that w(2) Suc.prems by (intro exI [of _ r] exI [of _ t] exI [of _ G] exI [of _ "[]"] exI [of _ p]) auto
  show ?case
  proof (cases w)
    case (WReturn r)
    then show ?thesis using w(1,3) Suc.prems by (intro here [of "Inl r"]) (auto simp: round_ok_def write_end_def write_procs_def)
  next
    case WSleep
    then show ?thesis using w(1,3) Suc.prems by (intro here [of "Inr i"]) (auto simp: round_ok_def write_end_def write_procs_def)
  next
    case WByte
    let ?x = "umem (pmem t) root (addr + of_nat i)"
    have t: "pi_readopen p" "\<not> killed pr s" "\<not> pipe_full p" "runs t pr root" "procs t = procs s" "cur t = cur s"
      "PGROUNDDOWN (addr + of_nat i) \<in> upages (pmem t) root" "pipes t = (pipes s)(pi \<mapsto> pipe_put ?x p)"
      using w(3) WByte by (simp_all add: round_ok_def)
    note pp = pq.put_items [OF Suc.prems(4) t(3), of ?x]
    have tr: "uspace t root G" "pipes t pi = Some (pipe_put ?x p)" "pipe_ok (pipe_put ?x p)" "killed pr t = killed pr s"
      using w(2) t(5,8) pp by (simp_all add: uview_def killed_def getp_def)
    obtain r' s' F' xs p' where IH: "pipewrite_run pr pi addr (i + 1) k t = Some (r', s')"
      "uview t root G {} s' F'" "pipes s' = (pipes t)(pi \<mapsto> p')" "pipe_ok p'"
      "pipe_items p' = pipe_items (pipe_put ?x p) @ xs" "pi_readopen p' = pi_readopen p" "pi_writeopen p' = pi_writeopen p"
      "write_procs pr pi r' t s'" "delivered s' root (addr + of_nat (i + 1)) xs"
      "write_end (k \<noteq> 0 \<and> (\<not> pi_readopen p \<or> killed pr s)) (upages (pmem t) root) addr (i + 1) k xs p' r'"
      using Suc.IH [OF tr(1) t(4) tr(2,3), of "i + 1"] unfolding tr(4) put_keeps by blast
    have d1: "delivered s' root (addr + of_nat i) [?x]" by (rule delivered_uview [OF delivered_one [OF t(7) refl] IH(2)])
    have nx: "addr + of_nat (i + 1) = addr + of_nat i + 1" by simp
    have "delivered s' root (addr + of_nat i) (?x # xs)" by (rule delivered_Cons [OF d1 IH(9) [unfolded nx]])
    moreover have "write_end (\<not> pi_readopen p \<or> killed pr s) (upages (pmem s) root) addr i (Suc k) (?x # xs) p' r'"
      using IH(10) t(1,2) uviewD(2) [OF w(2)] by (auto simp: write_end_def split: sum.splits)
    moreover have "pipewrite_run pr pi addr i (Suc k) s = Some (r', s')" using w(1) WByte IH(1) by simp
    moreover have "uview s root F {} s' F'" using uview_trans [OF w(2) IH(2)] by simp
    moreover have "pipes s' = (pipes s)(pi \<mapsto> p')" using IH(3) t(8) by simp
    moreover have "write_procs pr pi r' s s'" using IH(8) write_procs_cong [OF t(5,6)] by simp
    ultimately show ?thesis
      using IH(4-7) pp by (intro exI [of _ r'] exI [of _ s'] exI [of _ F'] exI [of _ "?x # xs"] exI [of _ p']) simp
  qed
qed

section \<open>Reading\<close>

lemma delivered_later:
  assumes "delivered s root a xs" "uview s root F W s' F'" "\<And>j. j < length xs \<Longrightarrow> a + of_nat j \<notin> W"
  shows "delivered s' root a xs"
  using assms(1,3) uviewD(2,3) [OF assms(2)] by (fastforce simp: delivered_def)

lemma span_next:
  assumes "n < 2 ^ 64"
  shows "a \<notin> span (a + 1) n" "span a 1 \<union> span (a + 1) n = span a (Suc n)"
proof -
  show "a \<notin> span (a + 1) n"
  proof
    assume "a \<in> span (a + 1) n"
    then obtain k where "k < n" "a = a + 1 + of_nat k" by (auto simp: span_def)
    then have "of_nat (Suc k) = (0 :: u64)" by (simp add: algebra_simps)
    moreover have "unat (of_nat (Suc k) :: u64) = Suc k"
      using \<open>k < n\<close> assms unfolding unat_of_nat by (intro mod_less) simp
    ultimately show False by (metis unat_0 nat.distinct(1))
  qed
  show "span a 1 \<union> span (a + 1) n = span a (Suc n)"
    using span_split [of a 1 n] by simp
qed

text \<open>How the copy loop of \<open>piperead\<close> ends: with the count, all bytes asked for read or the ring
  empty or the next destination byte not writable, or with -1 when the first byte is not.\<close>

definition read_end :: "bool \<Rightarrow> nat \<Rightarrow> nat \<Rightarrow> u8 list \<Rightarrow> pipe \<Rightarrow> int \<Rightarrow> bool" where
  "read_end w i k xs p' n \<longleftrightarrow> length xs \<le> k \<and>
     (if length xs = k \<or> pipe_items p' = [] then n = int (i + length xs)
      else \<not> w \<and> n = (if i + length xs = 0 then - 1 else int (i + length xs)))"

lemma piperead_copy_spec:
  fixes s :: "'a kfs_scheme"
  assumes "uspace s root F" "runs s pr root" "pipes s pi = Some p" "pipe_ok p" "k \<le> 2 ^ 64"
  shows "\<exists>n s' F' xs p'. piperead_copy pr pi addr i k s = Some (n, s') \<and>
    uview s root F (span (addr + of_nat i) k) s' F' \<and>
    pipes s' = (pipes s)(pi \<mapsto> p') \<and> pipe_ok p' \<and> pipe_items p = xs @ pipe_items p' \<and>
    pi_readopen p' = pi_readopen p \<and> pi_writeopen p' = pi_writeopen p \<and> procs s' = procs s \<and> cur s' = cur s \<and>
    delivered s' root (addr + of_nat i) xs \<and>
    read_end (uwritable s root (addr + of_nat (i + length xs)) 1) i k xs p' n"
  using assms
proof (induction k arbitrary: i s F p)
  case 0
  then show ?case
    by (intro exI [of _ "int i"] exI [of _ s] exI [of _ F] exI [of _ "[]"] exI [of _ p]) (auto simp: read_end_def)
next
  case (Suc k)
  let ?a = "addr + of_nat i"
  have here: ?case if "piperead_copy pr pi addr i (Suc k) s = Some (n, t)" "mem_only s t"
    "uview s root F (span ?a (Suc k)) t G" "read_end (uwritable s root ?a 1) i (Suc k) [] p n" for n t G
    using that Suc.prems(3,4) mem_only_kfs [OF that(2)] mem_only_kproc [OF that(2)]
    by (intro exI [of _ n] exI [of _ t] exI [of _ G] exI [of _ "[]"] exI [of _ p]) auto
  show ?case
  proof (cases "pipe_items p = []")
    case True
    then show ?thesis
      using here [of "int i" s F] Suc.prems by (simp add: read_end_def pipe_empty_iff mem_only_refl)
  next
    case ne: False
    obtain r t G where c: "copyout root ?a [pipe_peek p] s = Some (r, t)" "ukeep s root F (span ?a 1) t G"
      "r = 0 \<and> written t root ?a [pipe_peek p] \<or> r = - 1 \<and> \<not> uwritable s root ?a 1"
      using copyout_spec [OF Suc.prems(1,2), of ?a "[pipe_peek p]"] copyout_writable [OF Suc.prems(1,2), of ?a "[pipe_peek p]"]
      by fastforce
    have v: "uview s root F (span ?a 1) t G" and mo: "mem_only s t" using c(2) by (simp_all add: ukeep_def)
    note kf = mem_only_kfs [OF mo] and kp = mem_only_kproc [OF mo]
    have pt: "p_pagetable (getp s pr) = root" using Suc.prems(2) by (simp add: runs_def)
    have k: "k < 2 ^ 64" using Suc.prems(5) by simp
    note sp = span_next [OF k, of ?a]
    show ?thesis
    proof (cases "r = - 1")
      case True
      have "uview s root F (span ?a (Suc k)) t G" by (rule uview_mono [OF v]) (use sp(2) in blast)
      then show ?thesis
        using here [of "if i = 0 then - 1 else int i" t G] True Suc.prems(3) ne c(1,3) pt mo
        by (auto simp: read_end_def pipe_empty_iff)
    next
      case False
      define u where "u = setpipe pi pipe_drop t"
      note pp = pq.take_items [OF Suc.prems(4) ne]
      have su: "uview s root F (span ?a 1) u G" by (rule uview_cong [OF v]) (simp_all add: u_def)
      have ur: "uspace u root G" "runs u pr root" "pipes u pi = Some (pipe_drop p)"
        using su runs_mem_only [OF mo Suc.prems(2)] Suc.prems(3) kf by (auto simp: u_def uview_def)
      have ku: "procs u = procs s" "cur u = cur s" "pipes u = (pipes s)(pi \<mapsto> pipe_drop p)"
        using kp kf Suc.prems(3) by (auto simp: u_def)
      have okd: "pipe_ok (pipe_drop p)" and k': "k \<le> 2 ^ 64" using pp k by simp_all
      have nx: "addr + of_nat (i + 1) = ?a + 1" by simp
      obtain n s' F' xs p' where IH: "piperead_copy pr pi addr (i + 1) k u = Some (n, s')"
        "uview u root G (span (?a + 1) k) s' F'" "pipes s' = (pipes u)(pi \<mapsto> p')" "pipe_ok p'"
        "pipe_items (pipe_drop p) = xs @ pipe_items p'" "pi_readopen p' = pi_readopen p" "pi_writeopen p' = pi_writeopen p"
        "procs s' = procs u" "cur s' = cur u" "delivered s' root (?a + 1) xs"
        "read_end (uwritable u root (addr + of_nat (i + 1 + length xs)) 1) (i + 1) k xs p' n"
        using Suc.IH [OF ur okd k', of "i + 1"] unfolding put_keeps nx by blast
      have "written t root ?a [pipe_peek p]" using c(3) False by simp
      then have "delivered u root ?a [pipe_peek p]" by (simp add: written_def delivered_def u_def)
      then have d1: "delivered s' root ?a [pipe_peek p]" by (rule delivered_later [OF _ IH(2)]) (use sp(1) in simp)
      have "delivered s' root ?a (pipe_peek p # xs)" by (rule delivered_Cons [OF d1 IH(10)])
      moreover have "uwritable s root (addr + of_nat (i + 1 + length xs)) 1 \<Longrightarrow>
          uwritable u root (addr + of_nat (i + 1 + length xs)) 1" by (rule writable_uview [OF _ su])
      then have "read_end (uwritable s root (addr + of_nat (i + length (pipe_peek p # xs))) 1) i (Suc k) (pipe_peek p # xs) p' n"
        using IH(11) by (auto simp: read_end_def split: if_splits)
      moreover have "piperead_copy pr pi addr i (Suc k) s = Some (n, s')"
        using ne c(1) pt False Suc.prems(3) IH(1) by (simp add: u_def pipe_empty_iff)
      moreover have "uview s root F (span ?a (Suc k)) s' F'" using uview_trans [OF su IH(2)] sp(2) by simp
      moreover have "pipes s' = (pipes s)(pi \<mapsto> p')" using IH(3) ku(3) by simp
      ultimately show ?thesis
        using IH(4-9) pp ku
        by (intro exI [of _ n] exI [of _ s'] exI [of _ F'] exI [of _ "pipe_peek p # xs"] exI [of _ p']) simp
    qed
  qed
qed

section \<open>Properties\<close>

text \<open>C14: a stretch of \<open>pipewrite\<close> by the running process, on any user address and with no kill by another hart
  meanwhile, returns or sleeps without a kernel fault. It appends to the bytes in the pipe the bytes \<open>xs\<close> of user memory at the address, and
  changes no user byte, no other pipe and neither end of this one. It returns -1, with nothing written, when the
  read side is closed or the process killed; otherwise the count, which is short only if the next byte
  is in no page that was mapped; or it sleeps, and then the pipe is full.\<close>

theorem pipewrite_appends:
  fixes s :: "'a kfs_scheme"
  assumes "uspace s root F" "runs s pr root" "pipes s pi = Some p" "pipe_ok p"
  shows "\<exists>r s' F' xs p'. pipewrite_run pr pi addr i k s = Some (r, s') \<and> uview s root F {} s' F' \<and>
    pipes s' = (pipes s)(pi \<mapsto> p') \<and> pipe_ok p' \<and> pipe_items p' = pipe_items p @ xs \<and>
    pi_readopen p' = pi_readopen p \<and> pi_writeopen p' = pi_writeopen p \<and> write_procs pr pi r s s' \<and>
    delivered s' root (addr + of_nat i) xs \<and>
    write_end (k \<noteq> 0 \<and> (\<not> pi_readopen p \<or> killed pr s)) (upages (pmem s) root) addr i k xs p' r"
  by (rule pipewrite_run_spec [OF assms])

definition demo_pipe :: pipe where
  "demo_pipe = \<lparr>pi_data = replicate 512 7, pi_nread = 0xFFFFFFFF, pi_nwrite = 1, pi_readopen = True, pi_writeopen = True\<rparr>"

definition demo_piped :: kfs where
  "demo_piped = demo_kfs\<lparr>pipes := [0x87FF9000 \<mapsto> demo_pipe]\<rparr>"

lemma demo_piped_ok: "uspace demo_piped demo_root {0x87FFF000, 0x87FFE000}" "runs demo_piped 0 demo_root"
  "pipes demo_piped 0x87FF9000 = Some demo_pipe" "pipe_ok demo_pipe"
  using demo_kfs_runs
  by (simp_all add: demo_piped_def runs_def getp_def pipe_ok_def demo_pipe_def cong: uspace_cong)

theorem pipewrite_appends_witness:
  "\<exists>r s' F' xs p'. pipewrite_run 0 0x87FF9000 16 0 5 demo_piped = Some (r, s') \<and>
    uview demo_piped demo_root {0x87FFF000, 0x87FFE000} {} s' F' \<and>
    pipes s' = (pipes demo_piped)(0x87FF9000 \<mapsto> p') \<and> pipe_ok p' \<and> pipe_items p' = pipe_items demo_pipe @ xs \<and>
    delivered s' demo_root 16 xs \<and>
    write_end (\<not> pi_readopen demo_pipe \<or> killed 0 demo_piped) (upages (pmem demo_piped) demo_root) 16 0 5 xs p' r"
  using pipewrite_appends [OF demo_piped_ok, of 16 0 5] by fastforce

text \<open>C15: a stretch of \<open>piperead\<close> that finds bytes, or the write side closed, returns without a kernel
  fault. It removes from the front of the pipe the bytes \<open>xs\<close> and stores them at the user address, changing no
  other user byte, no other pipe and neither end of this one. It reads all bytes that are there up to \<open>n\<close> unless
  the next destination byte was not writable, and returns the count, or -1 when that is the first byte.\<close>

theorem piperead_takes:
  fixes s :: "'a kfs_scheme"
  assumes "uspace s root F" "runs s pr root" "pipes s pi = Some p" "pipe_ok p" "n \<le> 2 ^ 64"
    and "pipe_items p \<noteq> [] \<or> \<not> pi_writeopen p"
  shows "\<exists>m s' F' xs p'. piperead_run pr pi addr n s = Some (Inl m, s') \<and>
    uview s root F (span addr n) s' F' \<and>
    pipes s' = (pipes s)(pi \<mapsto> p') \<and> pipe_ok p' \<and> pipe_items p = xs @ pipe_items p' \<and>
    pi_readopen p' = pi_readopen p \<and> pi_writeopen p' = pi_writeopen p \<and> delivered s' root addr xs \<and>
    read_end (uwritable s root (addr + of_nat (length xs)) 1) 0 n xs p' m"
proof -
  obtain m s' F' xs p' where c: "piperead_copy pr pi addr 0 n s = Some (m, s')"
    "uview s root F (span addr n) s' F'" "pipes s' = (pipes s)(pi \<mapsto> p')" "pipe_ok p'" "pipe_items p = xs @ pipe_items p'"
    "pi_readopen p' = pi_readopen p" "pi_writeopen p' = pi_writeopen p" "delivered s' root addr xs"
    "read_end (uwritable s root (addr + of_nat (length xs)) 1) 0 n xs p' m"
    using piperead_copy_spec [OF assms(1-5), of addr 0] by auto
  let ?s = "wakeup (ChPipeWrite pi) s'"
  have "uview s root F (span addr n) ?s F'" by (rule uview_cong [OF c(2)]) simp_all
  moreover have "piperead_run pr pi addr n s = Some (Inl m, ?s)"
    using assms(3,6) c(1) by (auto simp: piperead_run_def pipe_empty_iff)
  moreover have "delivered ?s root addr xs" using c(8) by (simp add: delivered_def)
  ultimately show ?thesis
    using c by (intro exI [of _ m] exI [of _ ?s] exI [of _ F'] exI [of _ xs] exI [of _ p']) simp
qed

theorem piperead_takes_witness:
  "\<exists>m s' F' xs p'. piperead_run 0 0x87FF9000 16 5 demo_piped = Some (Inl m, s') \<and>
    uview demo_piped demo_root {0x87FFF000, 0x87FFE000} (span 16 5) s' F' \<and>
    pipe_items demo_pipe = xs @ pipe_items p' \<and> delivered s' demo_root 16 xs \<and>
    read_end (uwritable demo_piped demo_root (16 + of_nat (length xs)) 1) 0 5 xs p' m"
proof -
  have "pipe_items demo_pipe \<noteq> [] \<or> \<not> pi_writeopen demo_pipe" by (simp add: pipe_empty_iff demo_pipe_def)
  from piperead_takes [OF demo_piped_ok _ this, of 5 16] show ?thesis by fastforce
qed

end
