(* ===== verification/Console.thy ===== *)
theory Console
  imports FState
begin

text \<open>
  The console and its UART, \<^verbatim>\<open>kernel/console.c\<close> and \<^verbatim>\<open>kernel/uart.c\<close>: the line-editing input ring with
  its read, write and edit indices, and output. The UART's registers are outside the model: what
  they deliver to \<open>uartintr\<close>, whether the transmitter is idle and the characters in the receive
  FIFO, are its arguments, and the characters written to the transmit register are \<open>conout\<close>.
  \<open>uartwrite\<close> sleeps while the transmitter is busy; the interrupt that ends the sleep is the one the
  device raises when the character has left.
\<close>

section \<open>UART\<close>

abbreviation (input) IER :: nat where "IER \<equiv> 1"
abbreviation (input) FCR :: nat where "FCR \<equiv> 2"
abbreviation (input) LCR :: nat where "LCR \<equiv> 3"

text \<open>The register writes of \<open>uartinit\<close>, in order.\<close>

definition uartinit :: "(nat \<times> u8) list" where
  "uartinit =
     [(IER, 0x00), (LCR, push_bit 7 1), (0, 0x03), (1, 0x00), (LCR, push_bit 0 3),
      (FCR, push_bit 0 1 OR push_bit 1 3), (IER, push_bit 1 1 OR push_bit 0 1)]"

definition uart_tx_done :: "'a kfs_scheme \<Rightarrow> 'a kfs_scheme" where
  "uart_tx_done s = wakeup ChUartTx (s\<lparr>tx_busy := False\<rparr>)"

fun uartwrite :: "u8 list \<Rightarrow> 'a kfs_scheme \<Rightarrow> 'a kfs_scheme" where
  "uartwrite [] s = s"
| "uartwrite (c # cs) s =
     (let s = (if tx_busy s then uart_tx_done s else s)
      in uartwrite cs (s\<lparr>conout := conout s @ [c], tx_busy := True\<rparr>))"

definition uartputc_sync :: "u8 \<Rightarrow> 'a mach_scheme \<Rightarrow> 'a mach_scheme" where
  "uartputc_sync c s = s\<lparr>conout := conout s @ [c]\<rparr>"

definition console_putc :: "u32 \<Rightarrow> 'a mach_scheme \<Rightarrow> 'a mach_scheme" where
  "console_putc c s = fold uartputc_sync (consputc c) s"

section \<open>Reading and writing\<close>

abbreviation (input) INPUT_BUF_SIZE :: nat where "INPUT_BUF_SIZE \<equiv> 128"
abbreviation (input) CTRL_D :: u8 where "CTRL_D \<equiv> 4"
abbreviation (input) CTRL_H :: u8 where "CTRL_H \<equiv> 8"
abbreviation (input) CTRL_P :: u8 where "CTRL_P \<equiv> 16"
abbreviation (input) CTRL_U :: u8 where "CTRL_U \<equiv> 21"
abbreviation (input) NEWLINE :: u8 where "NEWLINE \<equiv> 10"
abbreviation (input) BACKSPACE :: u32 where "BACKSPACE \<equiv> 0x100"

definition setcons :: "(cons \<Rightarrow> cons) \<Rightarrow> 'a kfs_scheme \<Rightarrow> 'a kfs_scheme" where
  "setcons f s = s\<lparr>cns := f (cns s)\<rparr>"

definition cons_at :: "cons \<Rightarrow> u32 \<Rightarrow> u8" where
  "cons_at c k = cons_buf c ! (unat k mod INPUT_BUF_SIZE)"

function consolewrite_loop :: "bool \<Rightarrow> u64 \<Rightarrow> nat \<Rightarrow> nat \<Rightarrow> 'a kfs_scheme \<Rightarrow> (nat \<times> 'a kfs_scheme) option" where
  "consolewrite_loop user_src src i n s =
     (if i < n then do {
        let nn = min 32 (n - i);
        (r, bs, s) \<leftarrow> either_copyin user_src (src + of_nat i) nn s;
        if r = - 1 then Some (i, s)
        else consolewrite_loop user_src src (i + nn) n (uartwrite bs s)
      } else Some (i, s))"
  by pat_completeness auto
termination
  by (relation "measure (\<lambda>(u, src, i, n, s). n - i)") (auto simp: Let_def)

declare consolewrite_loop.simps [simp del]

definition consolewrite :: "bool \<Rightarrow> u64 \<Rightarrow> u32 \<Rightarrow> 'a kfs_scheme \<Rightarrow> (int \<times> 'a kfs_scheme) option" where
  "consolewrite user_src src n s = do {
     (i, s) \<leftarrow> consolewrite_loop user_src src 0 (nat (sint n)) s;
     Some (int i, s)
   }"

text \<open>\<open>consoleread\<close> up to its return (\<open>Inl\<close>, the number of bytes read) or to its sleep (\<open>Inr\<close>, with the
  destination and the count still to read).\<close>

fun consoleread_run :: "nat \<Rightarrow> bool \<Rightarrow> u64 \<Rightarrow> nat \<Rightarrow> nat \<Rightarrow> 'a kfs_scheme
    \<Rightarrow> ((int + u64 \<times> nat) \<times> 'a kfs_scheme) option" where
  "consoleread_run pr user_dst dst target 0 s = Some (Inl (int target), s)"
| "consoleread_run pr user_dst dst target (Suc k) s =
     (if cons_r (cns s) = cons_w (cns s) then
        (if killed pr s then Some (Inl (- 1), s) else Some (Inr (dst, Suc k), sleep_enter ChCons pr s))
      else
        (let c = cons_at (cns s) (cons_r (cns s));
             s1 = setcons (\<lambda>cn. cn\<lparr>cons_r := cons_r cn + 1\<rparr>) s
         in if c = CTRL_D then
              Some (Inl (int target - int (Suc k)),
                if Suc k < target then setcons (\<lambda>cn. cn\<lparr>cons_r := cons_r cn - 1\<rparr>) s1 else s1)
            else do {
              (r, s) \<leftarrow> either_copyout user_dst dst [c] s1;
              if r = - 1 then Some (Inl (int target - int (Suc k)), s)
              else if c = NEWLINE then Some (Inl (int target - int k), s)
              else consoleread_run pr user_dst (dst + 1) target k s
            }))"

definition consoleread :: "bool \<Rightarrow> u64 \<Rightarrow> u32 \<Rightarrow> 'a kfs_scheme \<Rightarrow> (int \<times> 'a kfs_scheme) option" where
  "consoleread user_dst dst n s =
     (if sint n \<le> 0 then Some (0, s)
      else do {
        pr \<leftarrow> myproc s;
        (r, s) \<leftarrow> consoleread_run pr user_dst dst (nat (sint n)) (nat (sint n)) s;
        case r of Inl r \<Rightarrow> Some (r, s) | Inr _ \<Rightarrow> None
      })"

section \<open>Interrupts\<close>

function kill_line :: "'a kfs_scheme \<Rightarrow> 'a kfs_scheme" where
  "kill_line s =
     (if cons_e (cns s) \<noteq> cons_w (cns s) \<and> cons_at (cns s) (cons_e (cns s) - 1) \<noteq> NEWLINE
      then kill_line (console_putc BACKSPACE (setcons (\<lambda>cn. cn\<lparr>cons_e := cons_e cn - 1\<rparr>) s))
      else s)"
  by pat_completeness auto

lemma console_putc_cns [simp]: "cns (console_putc c s) = cns s"
proof -
  have "cns (fold uartputc_sync bs s) = cns s" for bs
    by (induction bs arbitrary: s) (simp_all add: uartputc_sync_def)
  then show ?thesis
    by (simp add: console_putc_def)
qed

lemma unat_pred_diff:
  fixes e w :: "'w :: len word"
  assumes "e \<noteq> w"
  shows "unat (e - 1 - w) < unat (e - w)"
proof -
  have "e - w \<noteq> 0"
    using assms by simp
  then have "unat (e - w - 1) < unat (e - w)"
    by (simp add: unat_gt_0 unat_minus_one)
  then show ?thesis
    by (simp add: diff_right_commute)
qed

termination kill_line
  by (relation "measure (\<lambda>s. unat (cons_e (cns s) - cons_w (cns s)))")
    (auto simp: setcons_def unat_pred_diff)

declare kill_line.simps [simp del]

definition consoleintr :: "u8 \<Rightarrow> 'a kfs_scheme \<Rightarrow> 'a kfs_scheme option" where
  "consoleintr c s =
     (if c = CTRL_P then procdump s
      else if c = CTRL_U then Some (kill_line s)
      else if c = CTRL_H \<or> c = 0x7f then
        Some (if cons_e (cns s) \<noteq> cons_w (cns s)
              then console_putc BACKSPACE (setcons (\<lambda>cn. cn\<lparr>cons_e := cons_e cn - 1\<rparr>) s) else s)
      else if c \<noteq> 0 \<and> cons_e (cns s) - cons_r (cns s) < of_nat INPUT_BUF_SIZE then
        (let c = (if c = 13 then NEWLINE else c);
             s = console_putc (ucast c) s;
             s = setcons (\<lambda>cn. cn\<lparr>cons_buf := (cons_buf cn)[unat (cons_e cn) mod INPUT_BUF_SIZE := c],
                            cons_e := cons_e cn + 1\<rparr>) s
         in Some (if c = NEWLINE \<or> c = CTRL_D \<or> cons_e (cns s) - cons_r (cns s) = of_nat INPUT_BUF_SIZE
                  then wakeup ChCons (setcons (\<lambda>cn. cn\<lparr>cons_w := cons_e cn\<rparr>) s) else s))
      else Some s)"

definition uartgetc :: "u8 list \<Rightarrow> int \<times> u8 list" where
  "uartgetc fifo = (case fifo of [] \<Rightarrow> (- 1, []) | c # fifo \<Rightarrow> (uint c, fifo))"

function consume_input :: "u8 list \<Rightarrow> 'a kfs_scheme \<Rightarrow> 'a kfs_scheme option" where
  "consume_input fifo s =
     (let (c, fifo') = uartgetc fifo
      in if c = - 1 then Some s else Option.bind (consoleintr (of_int c) s) (consume_input fifo'))"
  by pat_completeness auto
termination
  by (relation "measure (\<lambda>(fifo, s). length fifo)") (auto simp: uartgetc_def split: list.splits)

declare consume_input.simps [simp del]

definition uartintr :: "bool \<Rightarrow> u8 list \<Rightarrow> 'a kfs_scheme \<Rightarrow> 'a kfs_scheme option" where
  "uartintr tx_idle fifo s = consume_input fifo (if tx_idle then uart_tx_done s else s)"

definition consoleinit :: "'a kfs_scheme \<Rightarrow> 'a kfs_scheme" where
  "consoleinit s = s\<lparr>devsw := (devsw s)[1 := True]\<rparr>"

end
