(* ===== verification/File.thy ===== *)
theory File
  imports Fs Pipe Console
begin

text \<open>
  The file table, \<^verbatim>\<open>kernel/file.c\<close>, and \<open>pipealloc\<close> of \<^verbatim>\<open>kernel/pipe.c\<close>. An open file is named by its index
  in \<open>ftable.file\<close>. The only device is the console. The padding bytes of \<open>struct stat\<close>, which \<open>stati\<close>
  leaves uninitialised, are an argument of \<open>filestat\<close>.
\<close>

fun find_file :: "kfile list \<Rightarrow> nat option" where
  "find_file [] = None"
| "find_file (f # fs) = (if f_ref f = 0 then Some 0 else map_option Suc (find_file fs))"

definition filealloc :: "'a kfs_scheme \<Rightarrow> nat option \<times> 'a kfs_scheme" where
  "filealloc s =
     (case find_file (ftable s) of
        None \<Rightarrow> (None, s)
      | Some f \<Rightarrow> (Some f, setf f (\<lambda>fl. fl\<lparr>f_ref := 1\<rparr>) s))"

definition filedup :: "nat \<Rightarrow> 'a kfs_scheme \<Rightarrow> 'a kfs_scheme option" where
  "filedup f s =
     (if f_ref (getf s f) < 1 then panic ''filedup''
      else Some (setf f (\<lambda>fl. fl\<lparr>f_ref := f_ref fl + 1\<rparr>) s))"

definition fileclose :: "nat \<Rightarrow> 'a kfs_scheme \<Rightarrow> 'a kfs_scheme option" where
  "fileclose f s =
     (if f_ref (getf s f) < 1 then panic ''fileclose''
      else if 0 < f_ref (getf s f) - 1 then Some (setf f (\<lambda>fl. fl\<lparr>f_ref := f_ref fl - 1\<rparr>) s)
      else
        (let ff = getf s f; s = setf f (\<lambda>fl. fl\<lparr>f_ref := 0, f_type := FD_NONE\<rparr>) s
         in case f_type ff of
              FD_PIPE \<Rightarrow> pipeclose (f_pipe ff) (f_writable ff) s
            | FD_NONE \<Rightarrow> Some s
            | _ \<Rightarrow> do {
                s \<leftarrow> begin_op s;
                ip \<leftarrow> f_ip ff;
                s \<leftarrow> iput ip s;
                end_op s
              }))"

definition new_pipe :: "u64 \<Rightarrow> 'a mach_scheme \<Rightarrow> pipe" where
  "new_pipe pi s = \<lparr>pi_data = load_bytes (pmem s) (pi + 24) PIPESIZE, pi_nread = 0, pi_nwrite = 0,
     pi_readopen = True, pi_writeopen = True\<rparr>"

definition close_opt :: "nat option \<Rightarrow> 'a kfs_scheme \<Rightarrow> 'a kfs_scheme option" where
  "close_opt f s = (case f of None \<Rightarrow> Some s | Some f \<Rightarrow> fileclose f s)"

definition pipealloc :: "'a kfs_scheme \<Rightarrow> ((nat \<times> nat) option \<times> 'a kfs_scheme) option" where
  "pipealloc s =
     (let (f0, s) = filealloc s;
          (f1, s) = (if f0 = None then (None, s) else filealloc s)
      in case (f0, f1) of
           (Some f0, Some f1) \<Rightarrow>
             (let (pi, s) = kalloc s
              in if pi = 0 then do {
                   s \<leftarrow> fileclose f0 s;
                   s \<leftarrow> fileclose f1 s;
                   Some (None, s)
                 }
                 else let s = s\<lparr>pipes := (pipes s)(pi := Some (new_pipe pi s))\<rparr>;
                          s = setf f0 (\<lambda>fl. fl\<lparr>f_type := FD_PIPE, f_readable := True, f_writable := False, f_pipe := pi\<rparr>) s;
                          s = setf f1 (\<lambda>fl. fl\<lparr>f_type := FD_PIPE, f_readable := False, f_writable := True, f_pipe := pi\<rparr>) s
                      in Some (Some (f0, f1), s))
         | _ \<Rightarrow> do {
             s \<leftarrow> close_opt f0 s;
             s \<leftarrow> close_opt f1 s;
             Some (None, s)
           })"

definition stat_bytes :: "stat \<Rightarrow> u8 list \<Rightarrow> u8 list" where
  "stat_bytes st pad = word_bytes 4 (st_dev st) @ word_bytes 4 (st_ino st) @ word_bytes 2 (st_type st) @
     word_bytes 2 (st_nlink st) @ pad @ word_bytes 8 (st_size st)"

definition filestat :: "u8 list \<Rightarrow> nat \<Rightarrow> u64 \<Rightarrow> 'a kfs_scheme \<Rightarrow> (int \<times> 'a kfs_scheme) option" where
  "filestat pad f addr s =
     (if f_type (getf s f) = FD_INODE \<or> f_type (getf s f) = FD_DEVICE then do {
        p \<leftarrow> myproc s;
        ip \<leftarrow> f_ip (getf s f);
        s \<leftarrow> ilock ip s;
        let st = stati (geti s ip);
        s \<leftarrow> iunlock ip s;
        (r, s) \<leftarrow> copyout (p_pagetable (getp s p)) addr (stat_bytes st pad) s;
        Some (if r < 0 then - 1 else 0, s)
      } else Some (- 1, s))"

text \<open>Whether \<open>devsw[major]\<close> has its functions; \<open>major\<close> is a signed \<open>short\<close>.\<close>

definition device_ok :: "u16 \<Rightarrow> 'a kfs_scheme \<Rightarrow> bool" where
  "device_ok mj s \<longleftrightarrow> 0 \<le> sint mj \<and> sint mj < int NDEV \<and> devsw s ! nat (sint mj)"

definition fileread :: "nat \<Rightarrow> u64 \<Rightarrow> u32 \<Rightarrow> 'a kfs_scheme \<Rightarrow> (int \<times> 'a kfs_scheme) option" where
  "fileread f addr n s =
     (let fl = getf s f
      in if \<not> f_readable fl then Some (- 1, s)
         else case f_type fl of
           FD_PIPE \<Rightarrow> piperead (f_pipe fl) addr n s
         | FD_DEVICE \<Rightarrow> if device_ok (f_major fl) s then consoleread True addr n s else Some (- 1, s)
         | FD_INODE \<Rightarrow> do {
             ip \<leftarrow> f_ip fl;
             s \<leftarrow> ilock ip s;
             (r, _, s) \<leftarrow> readi ip (Some addr) (f_off (getf s f)) n s;
             let s = (if 0 < r then setf f (\<lambda>fl. fl\<lparr>f_off := f_off fl + of_int r\<rparr>) s else s);
             s \<leftarrow> iunlock ip s;
             Some (r, s)
           }
         | FD_NONE \<Rightarrow> panic ''fileread'')"

text \<open>\<open>max\<close> is \<open>((MAXOPBLOCKS-1-1-2) / 2) * BSIZE\<close>.\<close>

abbreviation (input) WRITE_MAX :: nat where "WRITE_MAX \<equiv> 3072"

definition write_chunk :: "nat \<Rightarrow> nat \<Rightarrow> u64 \<Rightarrow> nat \<Rightarrow> nat \<Rightarrow> 'a kfs_scheme \<Rightarrow> (int \<times> 'a kfs_scheme) option" where
  "write_chunk f ip addr i n1 s = do {
     s \<leftarrow> begin_op s;
     s \<leftarrow> ilock ip s;
     (r, s) \<leftarrow> writei ip (UserSrc (addr + of_nat i)) (f_off (getf s f)) (of_nat n1) s;
     let s = (if 0 < r then setf f (\<lambda>fl. fl\<lparr>f_off := f_off fl + of_int r\<rparr>) s else s);
     s \<leftarrow> iunlock ip s;
     s \<leftarrow> end_op s;
     Some (r, s)
   }"

function filewrite_loop :: "nat \<Rightarrow> nat \<Rightarrow> u64 \<Rightarrow> nat \<Rightarrow> nat \<Rightarrow> 'a kfs_scheme \<Rightarrow> (nat \<times> 'a kfs_scheme) option" where
  "filewrite_loop f ip addr i n s =
     (if i < n then do {
        let n1 = min (n - i) WRITE_MAX;
        (r, s) \<leftarrow> write_chunk f ip addr i n1 s;
        if r \<noteq> int n1 then Some (i, s) else filewrite_loop f ip addr (i + n1) n s
      } else Some (i, s))"
  by pat_completeness auto
termination
  by (relation "measure (\<lambda>(f, ip, addr, i, n, s). n - i)") (auto simp: Let_def)

declare filewrite_loop.simps [simp del]

definition filewrite :: "nat \<Rightarrow> u64 \<Rightarrow> u32 \<Rightarrow> 'a kfs_scheme \<Rightarrow> (int \<times> 'a kfs_scheme) option" where
  "filewrite f addr n s =
     (let fl = getf s f
      in if \<not> f_writable fl then Some (- 1, s)
         else case f_type fl of
           FD_PIPE \<Rightarrow> pipewrite (f_pipe fl) addr n s
         | FD_DEVICE \<Rightarrow> if device_ok (f_major fl) s then consolewrite True addr n s else Some (- 1, s)
         | FD_INODE \<Rightarrow> do {
             ip \<leftarrow> f_ip fl;
             (i, s) \<leftarrow> filewrite_loop f ip addr 0 (nat (sint n)) s;
             Some (if int i = sint n then sint n else - 1, s)
           }
         | FD_NONE \<Rightarrow> panic ''filewrite'')"

end
