(* ===== verification/Spinlock.thy ===== *)
theory Spinlock
  imports Prelude
begin

text \<open>
  Spin locks, \<^verbatim>\<open>kernel/spinlock.c\<close>. The operations are functions on the lock and on the state
  of the hart that runs them; the relation \<open>sl_step\<close> breaks \<open>acquire\<close> and \<open>release\<close> at every
  access to the shared lock, so that the harts interleave as they do on the machine. A hart
  is named by its index in \<open>cpus\<close>.
\<close>

section \<open>Data\<close>

record spinlock =
  lk_locked :: u32
  lk_name :: string
  lk_cpu :: "nat option"

text \<open>\<open>struct cpu\<close> together with the interrupt-enable bit of the hart (\<open>intr_get\<close>).\<close>

record cpu =
  c_proc :: "nat option"
  c_noff :: int
  c_intena :: bool
  c_intr :: bool

section \<open>Operations\<close>

definition initlock :: "string \<Rightarrow> spinlock" where
  "initlock nm = \<lparr>lk_locked = 0, lk_name = nm, lk_cpu = None\<rparr>"

definition holding :: "nat \<Rightarrow> spinlock \<Rightarrow> bool" where
  "holding me lk \<longleftrightarrow> lk_locked lk \<noteq> 0 \<and> lk_cpu lk = Some me"

definition push_off :: "cpu \<Rightarrow> cpu" where
  "push_off c =
     (let old = c_intr c;
          c = c\<lparr>c_intr := False\<rparr>;
          c = (if c_noff c = 0 then c\<lparr>c_intena := old\<rparr> else c)
      in c\<lparr>c_noff := c_noff c + 1\<rparr>)"

definition pop_off :: "cpu \<Rightarrow> cpu option" where
  "pop_off c =
     (if c_intr c then panic ''pop_off - interruptible''
      else if c_noff c < 1 then panic ''pop_off''
      else let c = c\<lparr>c_noff := c_noff c - 1\<rparr>
           in Some (if c_noff c = 0 \<and> c_intena c then c\<lparr>c_intr := True\<rparr> else c))"

text \<open>\<open>__sync_lock_test_and_set(&lk->locked, 1)\<close>: the old value and the lock with 1 stored.\<close>

definition test_and_set :: "spinlock \<Rightarrow> u32 \<times> spinlock" where
  "test_and_set lk = (lk_locked lk, lk\<lparr>lk_locked := 1\<rparr>)"

text \<open>\<open>acquire\<close> by one hart while no other hart runs: a lock that is taken is never released, so
  the spinning does not end and there is no result.\<close>

definition acquire :: "nat \<Rightarrow> cpu \<Rightarrow> spinlock \<Rightarrow> (cpu \<times> spinlock) option" where
  "acquire me c lk =
     (let c = push_off c
      in if holding me lk then panic ''acquire''
         else let (old, lk) = test_and_set lk
              in if old \<noteq> 0 then None
                 else Some (c, lk\<lparr>lk_cpu := Some me\<rparr>))"

definition release :: "nat \<Rightarrow> cpu \<Rightarrow> spinlock \<Rightarrow> (cpu \<times> spinlock) option" where
  "release me c lk =
     (if \<not> holding me lk then panic ''release''
      else let lk = lk\<lparr>lk_cpu := None\<rparr>;
               lk = lk\<lparr>lk_locked := 0\<rparr>
           in map_option (\<lambda>c. (c, lk)) (pop_off c))"

section \<open>Interleaving\<close>

text \<open>Where a hart is. \<open>holding\<close> reads \<open>locked\<close> and then, if that is set, \<open>cpu\<close>; other harts may run between
  the two reads.\<close>

datatype lpc = Out | AcqCheck | AcqCheckCpu | AcqSpin | AcqOwn | Held | RelCheckCpu | RelClear | RelFree | RelPop | Panicked

record slock_sys =
  sl_lock :: spinlock
  sl_cpu :: "nat \<Rightarrow> cpu"
  sl_pc :: "nat \<Rightarrow> lpc"

definition goto :: "nat \<Rightarrow> lpc \<Rightarrow> slock_sys \<Rightarrow> slock_sys" where
  "goto i l s = s\<lparr>sl_pc := (sl_pc s)(i := l)\<rparr>"

inductive sl_step :: "slock_sys \<Rightarrow> slock_sys \<Rightarrow> bool" where
  acq_push: "sl_pc s i = Out \<Longrightarrow>
    sl_step s (goto i AcqCheck (s\<lparr>sl_cpu := (sl_cpu s)(i := push_off (sl_cpu s i))\<rparr>))"
| acq_free: "sl_pc s i = AcqCheck \<Longrightarrow> lk_locked (sl_lock s) = 0 \<Longrightarrow> sl_step s (goto i AcqSpin s)"
| acq_taken: "sl_pc s i = AcqCheck \<Longrightarrow> lk_locked (sl_lock s) \<noteq> 0 \<Longrightarrow> sl_step s (goto i AcqCheckCpu s)"
| acq_panic: "sl_pc s i = AcqCheckCpu \<Longrightarrow> lk_cpu (sl_lock s) = Some i \<Longrightarrow> sl_step s (goto i Panicked s)"
| acq_check: "sl_pc s i = AcqCheckCpu \<Longrightarrow> lk_cpu (sl_lock s) \<noteq> Some i \<Longrightarrow> sl_step s (goto i AcqSpin s)"
| acq_spin: "sl_pc s i = AcqSpin \<Longrightarrow> test_and_set (sl_lock s) = (old, lk) \<Longrightarrow> old \<noteq> 0 \<Longrightarrow>
    sl_step s (s\<lparr>sl_lock := lk\<rparr>)"
| acq_got: "sl_pc s i = AcqSpin \<Longrightarrow> test_and_set (sl_lock s) = (old, lk) \<Longrightarrow> old = 0 \<Longrightarrow>
    sl_step s (goto i AcqOwn (s\<lparr>sl_lock := lk\<rparr>))"
| acq_own: "sl_pc s i = AcqOwn \<Longrightarrow>
    sl_step s (goto i Held (s\<lparr>sl_lock := (sl_lock s)\<lparr>lk_cpu := Some i\<rparr>\<rparr>))"
| rel_unlocked: "sl_pc s i = Held \<Longrightarrow> lk_locked (sl_lock s) = 0 \<Longrightarrow> sl_step s (goto i Panicked s)"
| rel_locked: "sl_pc s i = Held \<Longrightarrow> lk_locked (sl_lock s) \<noteq> 0 \<Longrightarrow> sl_step s (goto i RelCheckCpu s)"
| rel_panic: "sl_pc s i = RelCheckCpu \<Longrightarrow> lk_cpu (sl_lock s) \<noteq> Some i \<Longrightarrow> sl_step s (goto i Panicked s)"
| rel_check: "sl_pc s i = RelCheckCpu \<Longrightarrow> lk_cpu (sl_lock s) = Some i \<Longrightarrow> sl_step s (goto i RelClear s)"
| rel_clear: "sl_pc s i = RelClear \<Longrightarrow>
    sl_step s (goto i RelFree (s\<lparr>sl_lock := (sl_lock s)\<lparr>lk_cpu := None\<rparr>\<rparr>))"
| rel_free: "sl_pc s i = RelFree \<Longrightarrow>
    sl_step s (goto i RelPop (s\<lparr>sl_lock := (sl_lock s)\<lparr>lk_locked := 0\<rparr>\<rparr>))"
| rel_pop: "sl_pc s i = RelPop \<Longrightarrow> pop_off (sl_cpu s i) = Some c \<Longrightarrow>
    sl_step s (goto i Out (s\<lparr>sl_cpu := (sl_cpu s)(i := c)\<rparr>))"
| pop_panic: "sl_pc s i = RelPop \<Longrightarrow> pop_off (sl_cpu s i) = None \<Longrightarrow> sl_step s (goto i Panicked s)"

definition sl_init :: "string \<Rightarrow> (nat \<Rightarrow> cpu) \<Rightarrow> slock_sys" where
  "sl_init nm cs = \<lparr>sl_lock = initlock nm, sl_cpu = cs, sl_pc = (\<lambda>_. Out)\<rparr>"

inductive sl_reach :: "string \<Rightarrow> (nat \<Rightarrow> cpu) \<Rightarrow> slock_sys \<Rightarrow> bool" for nm cs where
  start: "sl_reach nm cs (sl_init nm cs)"
| step: "sl_reach nm cs s \<Longrightarrow> sl_step s t \<Longrightarrow> sl_reach nm cs t"

section \<open>Invariant\<close>

definition inside :: "lpc \<Rightarrow> bool" where
  "inside l \<longleftrightarrow> l \<in> {AcqOwn, Held, RelCheckCpu, RelClear, RelFree}"

text \<open>Where the lock's \<open>cpu\<close> field names the hart.\<close>

definition named :: "lpc \<Rightarrow> bool" where
  "named l \<longleftrightarrow> l \<in> {Held, RelCheckCpu, RelClear}"

text \<open>The hart's interrupt state while it is between \<open>push_off\<close> and \<open>pop_off\<close>, relative to the state
  \<open>c\<close> it had before.\<close>

definition cpu_inv :: "cpu \<Rightarrow> lpc \<Rightarrow> cpu \<Rightarrow> bool" where
  "cpu_inv c l c' \<longleftrightarrow> c_proc c' = c_proc c \<and>
     (if l = Out then c_noff c' = 0 \<and> c_intr c' = c_intr c
      else c_noff c' = 1 \<and> \<not> c_intr c' \<and> c_intena c' = c_intr c)"

text \<open>\<open>ow\<close> is the hart whose swap took the lock and that has not yet given it back.\<close>

definition sl_inv :: "(nat \<Rightarrow> cpu) \<Rightarrow> nat option \<Rightarrow> slock_sys \<Rightarrow> bool" where
  "sl_inv cs ow s \<longleftrightarrow>
     (\<forall>i. sl_pc s i \<noteq> Panicked) \<and>
     (\<forall>i. inside (sl_pc s i) \<longleftrightarrow> ow = Some i) \<and>
     (lk_locked (sl_lock s) \<noteq> 0 \<longleftrightarrow> ow \<noteq> None) \<and>
     (\<forall>i. lk_cpu (sl_lock s) = Some i \<longleftrightarrow> named (sl_pc s i)) \<and>
     (\<forall>i. cpu_inv (cs i) (sl_pc s i) (sl_cpu s i))"

lemma inside_simps [simp]:
  "inside AcqOwn" "inside Held" "inside RelCheckCpu" "inside RelClear" "inside RelFree" "\<not> inside Out"
  "\<not> inside AcqCheck" "\<not> inside AcqCheckCpu" "\<not> inside AcqSpin" "\<not> inside RelPop"
  by (simp_all add: inside_def)

lemma named_simps [simp]:
  "\<not> named AcqOwn" "named Held" "named RelCheckCpu" "named RelClear" "\<not> named RelFree" "\<not> named Out"
  "\<not> named AcqCheck" "\<not> named AcqCheckCpu" "\<not> named AcqSpin" "\<not> named RelPop" "\<not> named Panicked"
  by (simp_all add: named_def)

lemma named_inside: "named l \<Longrightarrow> inside l"
  by (auto simp: named_def inside_def)

lemma push_off_inv: "cpu_inv c Out c' \<Longrightarrow> l \<noteq> Out \<Longrightarrow> cpu_inv c l (push_off c')"
  by (simp add: cpu_inv_def push_off_def Let_def)

lemma pop_off_inv: "cpu_inv c RelPop c' \<Longrightarrow> \<exists>d. pop_off c' = Some d \<and> cpu_inv c Out d"
  by (auto simp: cpu_inv_def pop_off_def Let_def)

lemma cpu_inv_move: "l \<noteq> Out \<Longrightarrow> cpu_inv c l d \<longleftrightarrow> cpu_inv c Held d"
  by (simp add: cpu_inv_def)

lemma sl_inv_init: "\<forall>i. c_noff (cs i) = 0 \<Longrightarrow> sl_inv cs None (sl_init nm cs)"
  by (simp add: sl_inv_def sl_init_def initlock_def cpu_inv_def)

text \<open>A step of hart \<open>i\<close> keeps the invariant if it does so for \<open>i\<close> and the lock.\<close>

lemma sl_inv_goto:
  assumes "sl_inv cs ow s" "\<And>j. j \<noteq> i \<Longrightarrow> sl_cpu t j = sl_cpu s j \<and> sl_pc t j = sl_pc s j"
    and "\<And>j. j \<noteq> i \<Longrightarrow> ow' = Some j \<longleftrightarrow> ow = Some j"
    and "\<And>j. j \<noteq> i \<Longrightarrow> lk_cpu (sl_lock t) = Some j \<longleftrightarrow> lk_cpu (sl_lock s) = Some j"
    and "sl_pc t i \<noteq> Panicked" "inside (sl_pc t i) \<longleftrightarrow> ow' = Some i"
    and "lk_locked (sl_lock t) \<noteq> 0 \<longleftrightarrow> ow' \<noteq> None"
    and "lk_cpu (sl_lock t) = Some i \<longleftrightarrow> named (sl_pc t i)"
    and "cpu_inv (cs i) (sl_pc t i) (sl_cpu t i)"
  shows "sl_inv cs ow' t"
proof -
  have "sl_pc t j \<noteq> Panicked \<and> (inside (sl_pc t j) \<longleftrightarrow> ow' = Some j) \<and>
      (lk_cpu (sl_lock t) = Some j \<longleftrightarrow> named (sl_pc t j)) \<and>
      cpu_inv (cs j) (sl_pc t j) (sl_cpu t j)" for j
    using assms(1) assms(2-4) [of j] assms(5,6,8,9) by (cases "j = i") (auto simp: sl_inv_def)
  then show ?thesis using assms(7) by (simp add: sl_inv_def)
qed

lemma sl_inv_at:
  assumes "sl_inv cs ow s"
  shows "inside (sl_pc s i) \<longleftrightarrow> ow = Some i"
    "lk_cpu (sl_lock s) = Some i \<longleftrightarrow> named (sl_pc s i)"
    "cpu_inv (cs i) (sl_pc s i) (sl_cpu s i)"
  using assms unfolding sl_inv_def by blast+

lemma sl_inv_lock:
  assumes "sl_inv cs ow s"
  shows "lk_locked (sl_lock s) \<noteq> 0 \<longleftrightarrow> ow \<noteq> None" "lk_cpu (sl_lock s) = Some j \<Longrightarrow> ow = Some j"
  subgoal using assms unfolding sl_inv_def by blast
  subgoal using sl_inv_at(1,2) [OF assms, of j] named_inside by auto
  done

lemma sl_step_inv:
  assumes "sl_step s t" "sl_inv cs ow s"
  shows "\<exists>ow'. sl_inv cs ow' t"
  using assms
proof (induction rule: sl_step.induct)
  case (acq_push s i)
  note d = sl_inv_at [OF acq_push(2), of i] sl_inv_lock(1) [OF acq_push(2)]
  show ?case by (rule exI [of _ ow], rule sl_inv_goto [of cs ow s i])
      (use acq_push d in \<open>auto simp: goto_def push_off_inv\<close>)
next
  case (acq_free s i)
  note d = sl_inv_at [OF acq_free(3), of i] sl_inv_lock(1) [OF acq_free(3)]
  show ?case by (rule exI [of _ ow], rule sl_inv_goto [of cs ow s i])
      (use acq_free d in \<open>auto simp: goto_def cpu_inv_move [of AcqSpin] cpu_inv_move [of AcqCheck]\<close>)
next
  case (acq_taken s i)
  note d = sl_inv_at [OF acq_taken(3), of i] sl_inv_lock(1) [OF acq_taken(3)]
  show ?case by (rule exI [of _ ow], rule sl_inv_goto [of cs ow s i])
      (use acq_taken d in \<open>auto simp: goto_def cpu_inv_move [of AcqCheckCpu] cpu_inv_move [of AcqCheck]\<close>)
next
  case (acq_panic s i)
  then show ?case using sl_inv_at(2) [OF acq_panic(3), of i] by simp
next
  case (acq_check s i)
  note d = sl_inv_at [OF acq_check(3), of i] sl_inv_lock(1) [OF acq_check(3)]
  show ?case by (rule exI [of _ ow], rule sl_inv_goto [of cs ow s i])
      (use acq_check d in \<open>auto simp: goto_def cpu_inv_move [of AcqSpin] cpu_inv_move [of AcqCheckCpu]\<close>)
next
  case (acq_spin s i old lk)
  note d = sl_inv_at [OF acq_spin(4), of i] sl_inv_lock(1) [OF acq_spin(4)]
  show ?case by (rule exI [of _ ow], rule sl_inv_goto [of cs ow s i])
      (use acq_spin d in \<open>auto simp: goto_def test_and_set_def\<close>)
next
  case (acq_got s i old lk)
  note d = sl_inv_at [OF acq_got(4), of i] sl_inv_lock(1) [OF acq_got(4)]
  show ?case by (rule exI [of _ "Some i"], rule sl_inv_goto [of cs ow s i])
      (use acq_got d in \<open>auto simp: goto_def test_and_set_def cpu_inv_move [of AcqSpin] cpu_inv_move [of AcqOwn]\<close>)
next
  case (acq_own s i)
  note d = sl_inv_at [OF acq_own(2), of i] sl_inv_lock(1) [OF acq_own(2)]
  have o: "lk_cpu (sl_lock s) \<noteq> Some j" if "j \<noteq> i" for j
    using sl_inv_lock(2) [OF acq_own(2), of j] d(1) acq_own(1) that by auto
  show ?case by (rule exI [of _ ow], rule sl_inv_goto [of cs ow s i])
      (use acq_own d o in \<open>auto simp: goto_def cpu_inv_move [of AcqOwn]\<close>)
next
  case (rel_unlocked s i)
  then show ?case using sl_inv_at(1) [OF rel_unlocked(3), of i] sl_inv_lock(1) [OF rel_unlocked(3)] by auto
next
  case (rel_locked s i)
  note d = sl_inv_at [OF rel_locked(3), of i] sl_inv_lock(1) [OF rel_locked(3)]
  show ?case by (rule exI [of _ ow], rule sl_inv_goto [of cs ow s i])
      (use rel_locked d in \<open>auto simp: goto_def cpu_inv_move [of RelCheckCpu]\<close>)
next
  case (rel_panic s i)
  then show ?case using sl_inv_at(2) [OF rel_panic(3), of i] by simp
next
  case (rel_check s i)
  note d = sl_inv_at [OF rel_check(3), of i] sl_inv_lock(1) [OF rel_check(3)]
  show ?case by (rule exI [of _ ow], rule sl_inv_goto [of cs ow s i])
      (use rel_check d in \<open>auto simp: goto_def cpu_inv_move [of RelClear] cpu_inv_move [of RelCheckCpu]\<close>)
next
  case (rel_clear s i)
  note d = sl_inv_at [OF rel_clear(2), of i] sl_inv_lock(1) [OF rel_clear(2)]
  have o: "lk_cpu (sl_lock s) \<noteq> Some j" if "j \<noteq> i" for j
    using sl_inv_lock(2) [OF rel_clear(2), of j] d(1) rel_clear(1) that by auto
  show ?case by (rule exI [of _ ow], rule sl_inv_goto [of cs ow s i])
      (use rel_clear d o in \<open>auto simp: goto_def cpu_inv_move [of RelClear] cpu_inv_move [of RelFree]\<close>)
next
  case (rel_free s i)
  note d = sl_inv_at [OF rel_free(2), of i] sl_inv_lock(1) [OF rel_free(2)]
  show ?case by (rule exI [of _ None], rule sl_inv_goto [of cs ow s i])
      (use rel_free d in \<open>auto simp: goto_def cpu_inv_move [of RelPop] cpu_inv_move [of RelFree]\<close>)
next
  case (rel_pop s i c)
  note d = sl_inv_at [OF rel_pop(3), of i] sl_inv_lock(1) [OF rel_pop(3)]
  have c: "cpu_inv (cs i) Out c" using pop_off_inv [of "cs i" "sl_cpu s i"] d(3) rel_pop(1,2) by auto
  show ?case by (rule exI [of _ ow], rule sl_inv_goto [of cs ow s i])
      (use rel_pop d c in \<open>auto simp: goto_def\<close>)
next
  case (pop_panic s i)
  then show ?case using pop_off_inv sl_inv_at(3) [OF pop_panic(3), of i] by fastforce
qed

lemma sl_reach_inv: "sl_reach nm cs s \<Longrightarrow> \<forall>i. c_noff (cs i) = 0 \<Longrightarrow> \<exists>ow. sl_inv cs ow s"
  by (induction rule: sl_reach.induct) (use sl_inv_init sl_step_inv in blast)+

section \<open>The functions as sequences of steps\<close>

lemma acquire_runs:
  assumes "sl_pc s i = Out" "acquire i (sl_cpu s i) (sl_lock s) = Some (c, lk)"
  shows "sl_step\<^sup>*\<^sup>* s (goto i Held (s\<lparr>sl_cpu := (sl_cpu s)(i := c), sl_lock := lk\<rparr>))"
proof -
  have free: "lk_locked (sl_lock s) = 0" and c: "c = push_off (sl_cpu s i)" and lk: "lk = (sl_lock s)\<lparr>lk_locked := 1, lk_cpu := Some i\<rparr>"
    using assms(2) by (auto simp: acquire_def test_and_set_def Let_def split: if_splits)
  let ?s1 = "goto i AcqCheck (s\<lparr>sl_cpu := (sl_cpu s)(i := c)\<rparr>)" and ?lk = "(sl_lock s)\<lparr>lk_locked := 1\<rparr>"
  have "sl_step\<^sup>*\<^sup>* s ?s1" unfolding c by (rule r_into_rtranclp, rule acq_push [OF assms(1)])
  also have "sl_step\<^sup>*\<^sup>* ?s1 (goto i AcqSpin ?s1)" by (rule r_into_rtranclp, rule acq_free) (simp_all add: goto_def free)
  also have "sl_step\<^sup>*\<^sup>* (goto i AcqSpin ?s1) (goto i AcqOwn (goto i AcqSpin ?s1\<lparr>sl_lock := ?lk\<rparr>))"
    by (rule r_into_rtranclp, rule acq_got) (simp_all add: goto_def test_and_set_def free)
  also have "sl_step\<^sup>*\<^sup>* (goto i AcqOwn (goto i AcqSpin ?s1\<lparr>sl_lock := ?lk\<rparr>)) (goto i Held (s\<lparr>sl_cpu := (sl_cpu s)(i := c), sl_lock := lk\<rparr>))"
    by (rule r_into_rtranclp) (use acq_own [of "goto i AcqOwn (goto i AcqSpin ?s1\<lparr>sl_lock := ?lk\<rparr>)" i] in \<open>simp add: goto_def lk\<close>)
  finally show ?thesis .
qed

lemma release_runs:
  assumes "sl_pc s i = Held" "release i (sl_cpu s i) (sl_lock s) = Some (c, lk)"
  shows "sl_step\<^sup>*\<^sup>* s (goto i Out (s\<lparr>sl_lock := lk, sl_cpu := (sl_cpu s)(i := c)\<rparr>))"
proof -
  have h: "lk_locked (sl_lock s) \<noteq> 0" "lk_cpu (sl_lock s) = Some i" and c: "pop_off (sl_cpu s i) = Some c"
    and lk: "lk = (sl_lock s)\<lparr>lk_cpu := None, lk_locked := 0\<rparr>"
    using assms(2) by (auto simp: release_def holding_def Let_def split: if_splits)
  let ?s1 = "goto i RelClear (goto i RelCheckCpu s)" and ?lk = "(sl_lock s)\<lparr>lk_cpu := None\<rparr>"
  let ?s2 = "goto i RelFree (?s1\<lparr>sl_lock := ?lk\<rparr>)"
  have "sl_step\<^sup>*\<^sup>* s (goto i RelCheckCpu s)" by (rule r_into_rtranclp, rule rel_locked [OF assms(1) h(1)])
  also have "sl_step\<^sup>*\<^sup>* (goto i RelCheckCpu s) ?s1" by (rule r_into_rtranclp, rule rel_check) (simp_all add: goto_def h)
  also have "sl_step\<^sup>*\<^sup>* ?s1 ?s2" by (rule r_into_rtranclp) (use rel_clear [of ?s1 i] in \<open>simp add: goto_def\<close>)
  also have "sl_step\<^sup>*\<^sup>* ?s2 (goto i RelPop (?s2\<lparr>sl_lock := lk\<rparr>))" by (rule r_into_rtranclp) (use rel_free [of ?s2 i] in \<open>simp add: goto_def lk\<close>)
  also have "sl_step\<^sup>*\<^sup>* (goto i RelPop (?s2\<lparr>sl_lock := lk\<rparr>)) (goto i Out (s\<lparr>sl_lock := lk, sl_cpu := (sl_cpu s)(i := c)\<rparr>))"
    by (rule r_into_rtranclp) (use rel_pop [of "goto i RelPop (?s2\<lparr>sl_lock := lk\<rparr>)" i c] c in \<open>simp add: goto_def\<close>)
  finally show ?thesis .
qed

lemma sl_reach_steps: "sl_step\<^sup>*\<^sup>* s t \<Longrightarrow> sl_reach nm cs s \<Longrightarrow> sl_reach nm cs t"
  by (induction rule: rtranclp_induct) (auto intro: sl_reach.step)

section \<open>Properties\<close>

text \<open>C12: under every interleaving of \<open>acquire\<close> and \<open>release\<close> by any number of harts, at most one
  hart is in the critical section, \<open>holding\<close> is true there for exactly that hart, neither
  function panics, interrupts are off from the start of \<open>acquire\<close> to the end of \<open>release\<close>, and
  outside that region every hart has the interrupt setting it started with.\<close>

theorem spinlock_mutual_exclusion:
  assumes "sl_reach nm cs s" "\<forall>i. c_noff (cs i) = 0"
  shows "(\<forall>i j. sl_pc s i = Held \<and> sl_pc s j = Held \<longrightarrow> i = j) \<and>
    (\<forall>i. sl_pc s i = Held \<longrightarrow> (\<forall>j. holding j (sl_lock s) \<longleftrightarrow> j = i)) \<and>
    (\<forall>i. sl_pc s i \<noteq> Panicked) \<and>
    (\<forall>i. sl_pc s i \<noteq> Out \<longrightarrow> \<not> c_intr (sl_cpu s i)) \<and>
    (\<forall>i. sl_pc s i = Out \<longrightarrow> c_intr (sl_cpu s i) = c_intr (cs i))"
proof -
  from sl_reach_inv [OF assms] obtain ow where inv: "sl_inv cs ow s" by blast
  note d = sl_inv_at [OF inv] and l = sl_inv_lock [OF inv]
  have h: "ow = Some i" if "sl_pc s i = Held" for i using d(1) [of i] that by simp
  have "holding j (sl_lock s) \<longleftrightarrow> j = i" if "sl_pc s i = Held" for i j
    using l(1) d(2) [of i] l(2) [of j] h [OF that] that by (auto simp: holding_def)
  moreover have "c_intr (sl_cpu s i) = (sl_pc s i = Out \<and> c_intr (cs i))" for i
    using d(3) [of i] by (simp add: cpu_inv_def split: if_splits)
  ultimately show ?thesis using h inv by (auto simp: sl_inv_def)
qed

text \<open>Hart 1 has taken the lock while hart 0 waits for it.\<close>

definition idle_cpu :: cpu where
  "idle_cpu = \<lparr>c_proc = None, c_noff = 0, c_intena = False, c_intr = True\<rparr>"

theorem spinlock_mutual_exclusion_witness:
  "\<exists>s. sl_reach ''kmem'' (\<lambda>_. idle_cpu) s \<and> sl_pc s 1 = Held \<and> sl_pc s 0 = AcqCheck \<and>
     (\<forall>j. holding j (sl_lock s) \<longleftrightarrow> j = 1) \<and> \<not> c_intr (sl_cpu s 0) \<and> c_intr (sl_cpu s 2)"
proof -
  let ?s = "sl_init ''kmem'' (\<lambda>_. idle_cpu)"
  have "acquire 1 (sl_cpu ?s 1) (sl_lock ?s) = Some (push_off idle_cpu, (initlock ''kmem'')\<lparr>lk_locked := 1, lk_cpu := Some 1\<rparr>)"
    by (simp add: acquire_def sl_init_def initlock_def holding_def test_and_set_def Let_def)
  then obtain t where "sl_step\<^sup>*\<^sup>* ?s t" and t: "sl_pc t 1 = Held" "sl_pc t 0 = Out" "sl_pc t 2 = Out"
    using acquire_runs [of ?s 1] by (fastforce simp: sl_init_def goto_def)
  then have "sl_reach ''kmem'' (\<lambda>_. idle_cpu) t" using sl_reach_steps [OF _ sl_reach.start] by blast
  then have r: "sl_reach ''kmem'' (\<lambda>_. idle_cpu) (goto 0 AcqCheck (t\<lparr>sl_cpu := (sl_cpu t)(0 := push_off (sl_cpu t 0))\<rparr>))"
    (is "sl_reach _ _ ?t") by (rule sl_reach.step) (rule acq_push [OF t(2)])
  have "sl_pc ?t 1 = Held" "sl_pc ?t 0 = AcqCheck" "sl_pc ?t 2 = Out" using t by (simp_all add: goto_def)
  then show ?thesis
    using spinlock_mutual_exclusion [OF r] r by (intro exI [of _ ?t]) (simp add: idle_cpu_def)
qed

end
