(* ===== verification/ProcLife.thy ===== *)
theory ProcLife
  imports File Spinlock
begin

text \<open>
  The life of a process, the rest of \<^verbatim>\<open>kernel/proc.c\<close>: creation by \<open>kfork\<close> and \<open>userinit\<close>, exit, waiting
  for children, and scheduling. \<open>kexit\<close> is modelled up to its call of \<open>sched\<close>, from which it does not
  come back. \<open>kwait_run\<close> is \<open>kwait\<close> up to its return (\<open>Inl\<close>) or its sleep (\<open>Inr\<close>).
\<close>

section \<open>Creation\<close>

definition copy_name :: "u8 list \<Rightarrow> (nat \<Rightarrow> u8) \<Rightarrow> u8 list" where
  "copy_name old t = (let ws = safestrcpy t 16 in ws @ drop (length ws) old)"

definition dup_fd :: "nat \<Rightarrow> nat \<Rightarrow> nat \<Rightarrow> 'a kfs_scheme \<Rightarrow> 'a kfs_scheme option" where
  "dup_fd p np fd s =
     (case p_ofile (getp s p) ! fd of
        None \<Rightarrow> Some s
      | Some f \<Rightarrow> do {
          s \<leftarrow> filedup f s;
          Some (setp np (\<lambda>q. q\<lparr>p_ofile := (p_ofile q)[fd := Some f]\<rparr>) s)
        })"

definition kfork :: "'a kfs_scheme \<Rightarrow> (int \<times> 'a kfs_scheme) option" where
  "kfork s = do {
     p \<leftarrow> myproc s;
     (np, s) \<leftarrow> allocproc s;
     case np of
       None \<Rightarrow> Some (- 1, s)
     | Some np \<Rightarrow> do {
         (r, s) \<leftarrow> uvmcopy (p_pagetable (getp s p)) (p_pagetable (getp s np)) (p_sz (getp s p)) s;
         if r < 0 then do {
           s \<leftarrow> freeproc np s;
           Some (- 1, s)
         } else do {
           let s = setp np (\<lambda>q. q\<lparr>p_sz := p_sz (getp s p)\<rparr>) s;
           let s = s\<lparr>pmem := store_bytes (pmem s) (p_trapframe (getp s np)) (load_bytes (pmem s) (p_trapframe (getp s p)) 288)\<rparr>;
           let s = tf_set np TF_a0 0 s;
           s \<leftarrow> for_each (dup_fd p np) [0..<NOFILE] s;
           cwd \<leftarrow> p_cwd (getp s p);
           let s = idup cwd s;
           let s = setp np (\<lambda>q. q\<lparr>p_cwd := Some cwd, p_name := copy_name (p_name q) (cstr (p_name (getp s p))),
                              p_trace_mask := p_trace_mask (getp s p)\<rparr>) s;
           let pid = p_pid (getp s np);
           let s = setp np (\<lambda>q. q\<lparr>p_parent := Some p\<rparr>) s;
           s \<leftarrow> (if p_usar_memoria_compartida (getp s p) then do {
                   (_, s) \<leftarrow> crear_memoria_compartida p np s;
                   Some (setp np (\<lambda>q. q\<lparr>p_usar_memoria_compartida := True\<rparr>) s)
                 } else Some s);
           Some (sint pid, setp np (\<lambda>q. q\<lparr>p_state := RUNNABLE\<rparr>) s)
         }
       }
   }"

definition userinit :: "'a kfs_scheme \<Rightarrow> 'a kfs_scheme option" where
  "userinit s = do {
     (p, s) \<leftarrow> allocproc s;
     let s = s\<lparr>initproc := p\<rparr>;
     p \<leftarrow> p;
     (cwd, s) \<leftarrow> namei (str ''/'') s;
     Some (setp p (\<lambda>q. q\<lparr>p_cwd := cwd, p_state := RUNNABLE\<rparr>) s)
   }"

section \<open>Exit and wait\<close>

definition close_fd :: "nat \<Rightarrow> nat \<Rightarrow> 'a kfs_scheme \<Rightarrow> 'a kfs_scheme option" where
  "close_fd p fd s =
     (case p_ofile (getp s p) ! fd of
        None \<Rightarrow> Some s
      | Some f \<Rightarrow> do {
          s \<leftarrow> fileclose f s;
          Some (setp p (\<lambda>q. q\<lparr>p_ofile := (p_ofile q)[fd := None]\<rparr>) s)
        })"

definition kexit :: "u32 \<Rightarrow> 'a kfs_scheme \<Rightarrow> 'a kfs_scheme option" where
  "kexit status s = do {
     p \<leftarrow> myproc s;
     if initproc s = Some p then panic ''init exiting''
     else do {
       s \<leftarrow> for_each (close_fd p) [0..<NOFILE] s;
       s \<leftarrow> begin_op s;
       cwd \<leftarrow> p_cwd (getp s p);
       s \<leftarrow> iput cwd s;
       s \<leftarrow> end_op s;
       let s = setp p (\<lambda>q. q\<lparr>p_cwd := None\<rparr>) s;
       s \<leftarrow> reparent p s;
       let s = (case p_parent (getp s p) of None \<Rightarrow> s | Some q \<Rightarrow> wakeup (ChProc q) s);
       Some (setp p (\<lambda>q. q\<lparr>p_xstate := status, p_state := ZOMBIE\<rparr>) s)
     }
   }"

text \<open>The scan of the table. The first component is \<open>Some r\<close> when the scan returns \<open>r\<close>, and the second
  says whether a child was seen.\<close>

fun kwait_scan :: "nat \<Rightarrow> u64 \<Rightarrow> nat list \<Rightarrow> bool \<Rightarrow> 'a kproc_scheme \<Rightarrow> (int option \<times> bool \<times> 'a kproc_scheme) option" where
  "kwait_scan p addr [] havekids s = Some (None, havekids, s)"
| "kwait_scan p addr (pp # pps) havekids s =
     (if p_parent (getp s pp) = Some p then
        (if p_state (getp s pp) = ZOMBIE then do {
           let pid = p_pid (getp s pp);
           (r, s) \<leftarrow> (if addr \<noteq> 0 then copyout (p_pagetable (getp s p)) addr (word_bytes 4 (p_xstate (getp s pp))) s
                      else Some (0, s));
           if r < 0 then Some (Some (- 1), True, s)
           else do {
             s \<leftarrow> freeproc pp s;
             Some (Some (sint pid), True, s)
           }
         } else kwait_scan p addr pps True s)
      else kwait_scan p addr pps havekids s)"

definition kwait_run :: "u64 \<Rightarrow> 'a kproc_scheme \<Rightarrow> ((int + unit) \<times> 'a kproc_scheme) option" where
  "kwait_run addr s = do {
     p \<leftarrow> myproc s;
     (r, havekids, s) \<leftarrow> kwait_scan p addr [0..<length (procs s)] False s;
     case r of
       Some r \<Rightarrow> Some (Inl r, s)
     | None \<Rightarrow> if \<not> havekids \<or> killed p s then Some (Inl (- 1), s)
               else Some (Inr (), sleep_enter (ChProc p) p s)
   }"

definition kwait :: "u64 \<Rightarrow> 'a kproc_scheme \<Rightarrow> (int \<times> 'a kproc_scheme) option" where
  "kwait addr s = do {
     (r, s) \<leftarrow> kwait_run addr s;
     case r of Inl r \<Rightarrow> Some (r, s) | Inr _ \<Rightarrow> None
   }"

section \<open>Scheduling\<close>

text \<open>One turn of the scheduler's inner loop up to \<open>swtch\<close>; the flag says whether it switched.\<close>

definition scheduler_visit :: "nat \<Rightarrow> 'a kproc_scheme \<Rightarrow> bool \<times> 'a kproc_scheme" where
  "scheduler_visit i s =
     (if p_state (getp s i) = RUNNABLE
      then (True, (setp i (\<lambda>p. p\<lparr>p_state := RUNNING\<rparr>) s)\<lparr>cur := Some i\<rparr>) else (False, s))"

text \<open>The checks of \<open>sched\<close> on CPU \<open>me\<close> with the lock of the current process, and the switch to the
  scheduler, which clears \<open>c->proc\<close>; \<open>yield\<close> up to that switch.\<close>

definition sched :: "nat \<Rightarrow> cpu \<Rightarrow> spinlock \<Rightarrow> 'a kproc_scheme \<Rightarrow> 'a kproc_scheme option" where
  "sched me c plk s = do {
     p \<leftarrow> myproc s;
     if \<not> holding me plk then panic ''sched p->lock''
     else if c_noff c \<noteq> 1 then panic ''sched locks''
     else if p_state (getp s p) = RUNNING then panic ''sched RUNNING''
     else if c_intr c then panic ''sched interruptible''
     else Some (s\<lparr>cur := None\<rparr>)
   }"

definition yield :: "nat \<Rightarrow> cpu \<Rightarrow> spinlock \<Rightarrow> 'a kproc_scheme \<Rightarrow> 'a kproc_scheme option" where
  "yield me c plk s = do {
     p \<leftarrow> myproc s;
     (c, plk) \<leftarrow> acquire me c plk;
     sched me c plk (setp p (\<lambda>q. q\<lparr>p_state := RUNNABLE\<rparr>) s)
   }"

end
