(* ===== verification/Exec.thy ===== *)
theory Exec
  imports ProcLife
begin

text \<open>
  The \<open>exec\<close> system call, \<^verbatim>\<open>kernel/exec.c\<close>. The headers of the ELF file are the byte strings that
  \<open>readi\<close> copies into \<open>elf\<close> and \<open>ph\<close>. The argument strings are the bytes before their zero.
  A step that ends in \<open>goto bad\<close> gives \<open>Inl\<close> with the value of \<open>sz\<close> at that point.
\<close>

definition flags2perm :: "u32 \<Rightarrow> u64" where
  "flags2perm flags =
     (let perm = (if flags AND 1 \<noteq> 0 then PTE_X else 0)
      in if flags AND 2 \<noteq> 0 then perm OR PTE_W else perm)"

abbreviation (input) ELF_MAGIC :: u32 where "ELF_MAGIC \<equiv> 0x464C457F"
abbreviation (input) MAXARG :: nat where "MAXARG \<equiv> 32"
abbreviation (input) USERSTACK :: u64 where "USERSTACK \<equiv> 1"

definition get64 :: "u8 list \<Rightarrow> nat \<Rightarrow> u64" where
  "get64 bs off = ucast (get32 bs off) OR push_bit 32 (ucast (get32 bs (off + 4)))"

text \<open>The fields of \<open>struct elfhdr\<close> and \<open>struct proghdr\<close>.\<close>

record elfhdr =
  eh_magic :: u32
  eh_entry :: u64
  eh_phoff :: u64
  eh_phnum :: u16

record proghdr =
  ph_type :: u32
  ph_flags :: u32
  ph_off :: u64
  ph_vaddr :: u64
  ph_filesz :: u64
  ph_memsz :: u64

definition decode_elfhdr :: "u8 list \<Rightarrow> elfhdr" where
  "decode_elfhdr bs = \<lparr>eh_magic = get32 bs 0, eh_entry = get64 bs 24, eh_phoff = get64 bs 32, eh_phnum = get16 bs 56\<rparr>"

definition decode_proghdr :: "u8 list \<Rightarrow> proghdr" where
  "decode_proghdr bs = \<lparr>ph_type = get32 bs 0, ph_flags = get32 bs 4, ph_off = get64 bs 8, ph_vaddr = get64 bs 16,
     ph_filesz = get64 bs 32, ph_memsz = get64 bs 40\<rparr>"

section \<open>Loading a segment\<close>

function loadseg_loop :: "u64 \<Rightarrow> u64 \<Rightarrow> nat \<Rightarrow> u32 \<Rightarrow> nat \<Rightarrow> nat \<Rightarrow> 'a kfs_scheme \<Rightarrow> (int \<times> 'a kfs_scheme) option" where
  "loadseg_loop pagetable va ip offset i sz s =
     (if i < sz then do {
        pa \<leftarrow> walkaddr pagetable (va + of_nat i) s;
        if pa = 0 then panic ''loadseg: address should exist''
        else do {
          let n = min (sz - i) 4096;
          (r, bs, s) \<leftarrow> readi ip None (offset + of_nat i) (of_nat n) s;
          let s = s\<lparr>pmem := store_bytes (pmem s) pa bs\<rparr>;
          if r \<noteq> int n then Some (- 1, s)
          else loadseg_loop pagetable va ip offset (i + 4096) sz s
        }
      } else Some (0, s))"
  by pat_completeness auto
termination
  by (relation "measure (\<lambda>(pt, va, ip, off, i, sz, s). sz - i)") auto

declare loadseg_loop.simps [simp del]

definition loadseg :: "u64 \<Rightarrow> u64 \<Rightarrow> nat \<Rightarrow> u32 \<Rightarrow> u32 \<Rightarrow> 'a kfs_scheme \<Rightarrow> (int \<times> 'a kfs_scheme) option" where
  "loadseg pagetable va ip offset sz s = loadseg_loop pagetable va ip offset 0 (unat sz) s"

definition load_segment :: "u64 \<Rightarrow> nat \<Rightarrow> u64 \<Rightarrow> proghdr \<Rightarrow> 'a kfs_scheme \<Rightarrow> ((u64 + u64) \<times> 'a kfs_scheme) option" where
  "load_segment pagetable ip sz ph s =
     (if ph_type ph \<noteq> 1 then Some (Inr sz, s)
      else if ph_memsz ph < ph_filesz ph then Some (Inl sz, s)
      else if ph_vaddr ph + ph_memsz ph < ph_vaddr ph then Some (Inl sz, s)
      else if ph_vaddr ph mod PGSIZE \<noteq> 0 then Some (Inl sz, s)
      else do {
        (sz1, s) \<leftarrow> uvmalloc pagetable sz (ph_vaddr ph + ph_memsz ph) (flags2perm (ph_flags ph)) s;
        if sz1 = 0 then Some (Inl sz, s)
        else do {
          (r, s) \<leftarrow> loadseg pagetable (ph_vaddr ph) ip (ucast (ph_off ph)) (ucast (ph_filesz ph)) s;
          Some (if r < 0 then Inl sz1 else Inr sz1, s)
        }
      })"

fun load_program :: "u64 \<Rightarrow> nat \<Rightarrow> nat \<Rightarrow> u32 \<Rightarrow> u64 \<Rightarrow> 'a kfs_scheme \<Rightarrow> ((u64 + u64) \<times> 'a kfs_scheme) option" where
  "load_program pagetable ip 0 off sz s = Some (Inr sz, s)"
| "load_program pagetable ip (Suc k) off sz s = do {
     (r, bs, s) \<leftarrow> readi ip None off 56 s;
     if r \<noteq> 56 then Some (Inl sz, s)
     else do {
       (r, s) \<leftarrow> load_segment pagetable ip sz (decode_proghdr bs) s;
       case r of Inl sz \<Rightarrow> Some (Inl sz, s) | Inr sz \<Rightarrow> load_program pagetable ip k (off + 56) sz s
     }
   }"

section \<open>The argument stack\<close>

text \<open>Copies the strings down from \<open>sp\<close>; the result is the new \<open>sp\<close> and \<open>ustack\<close>, or \<open>None\<close> for \<open>goto bad\<close>.
  Writing \<open>ustack[MAXARG]\<close> would be out of bounds.\<close>

fun push_strings :: "u64 \<Rightarrow> u64 \<Rightarrow> u64 \<Rightarrow> u64 list \<Rightarrow> u8 list list \<Rightarrow> 'a kfs_scheme
    \<Rightarrow> ((u64 \<times> u64 list) option \<times> 'a kfs_scheme) option" where
  "push_strings pagetable stackbase sp ustack [] s =
     (if MAXARG \<le> length ustack then None else Some (Some (sp, ustack @ [0]), s))"
| "push_strings pagetable stackbase sp ustack (arg # args) s =
     (if MAXARG \<le> length ustack then Some (None, s)
      else let sp = sp - of_nat (length arg + 1);
               sp = sp - sp mod 16
           in if sp < stackbase then Some (None, s)
              else do {
                (r, s) \<leftarrow> copyout pagetable sp (arg @ [0]) s;
                if r < 0 then Some (None, s)
                else push_strings pagetable stackbase sp (ustack @ [sp]) args s
              })"

text \<open>Strings, then the array of pointers to them.\<close>

definition push_args :: "u64 \<Rightarrow> u64 \<Rightarrow> u64 \<Rightarrow> u8 list list \<Rightarrow> 'a kfs_scheme
    \<Rightarrow> ((u64 \<times> u64) option \<times> 'a kfs_scheme) option" where
  "push_args pagetable stackbase sp argv s = do {
     (r, s) \<leftarrow> push_strings pagetable stackbase sp [] argv s;
     case r of
       None \<Rightarrow> Some (None, s)
     | Some (sp, ustack) \<Rightarrow>
         (let argc = length ustack - 1;
              sp = sp - of_nat (argc + 1) * 8;
              sp = sp - sp mod 16
          in if sp < stackbase then Some (None, s)
             else do {
               (r, s) \<leftarrow> copyout pagetable sp (concat (map (word_bytes 8) ustack)) s;
               Some (if r < 0 then None else Some (sp, of_nat argc), s)
             })
   }"

section \<open>The system call\<close>

definition exec_bad :: "u64 \<Rightarrow> u64 \<Rightarrow> nat option \<Rightarrow> 'a kfs_scheme \<Rightarrow> (int \<times> 'a kfs_scheme) option" where
  "exec_bad pagetable sz ip s = do {
     s \<leftarrow> (if pagetable \<noteq> 0 then proc_freepagetable pagetable sz s else Some s);
     s \<leftarrow> (case ip of None \<Rightarrow> Some s | Some ip \<Rightarrow> do { s \<leftarrow> iunlockput ip s; end_op s });
     Some (- 1, s)
   }"

definition last_elem :: "u8 list \<Rightarrow> u8 list" where
  "last_elem path = rev (takeWhile (\<lambda>c. c \<noteq> SLASH) (rev path))"

text \<open>From the loaded image on: stack, arguments, and the commit to the new image.\<close>

definition exec_commit :: "u8 list \<Rightarrow> u8 list list \<Rightarrow> nat \<Rightarrow> u64 \<Rightarrow> u64 \<Rightarrow> u64 \<Rightarrow> 'a kfs_scheme \<Rightarrow> (int \<times> 'a kfs_scheme) option" where
  "exec_commit path argv p entry pagetable sz s = do {
     let oldsz = p_sz (getp s p);
     let sz = PGROUNDUP sz;
     (sz1, s) \<leftarrow> uvmalloc pagetable sz (sz + (USERSTACK + 1) * PGSIZE) PTE_W s;
     if sz1 = 0 then exec_bad pagetable sz None s
     else do {
       let sz = sz1;
       s \<leftarrow> uvmclear pagetable (sz - (USERSTACK + 1) * PGSIZE) s;
       let stackbase = sz - USERSTACK * PGSIZE;
       (r, s) \<leftarrow> push_args pagetable stackbase sz argv s;
       case r of
         None \<Rightarrow> exec_bad pagetable sz None s
       | Some (sp, argc) \<Rightarrow> do {
           let s = tf_set p TF_a1 sp s;
           let s = setp p (\<lambda>q. q\<lparr>p_name := copy_name (p_name q) (cstr (last_elem path))\<rparr>) s;
           let oldpagetable = p_pagetable (getp s p);
           let s = setp p (\<lambda>q. q\<lparr>p_pagetable := pagetable, p_sz := sz\<rparr>) s;
           let s = tf_set p TF_epc entry s;
           let s = tf_set p TF_sp sp s;
           s \<leftarrow> proc_freepagetable oldpagetable oldsz s;
           Some (uint argc, s)
         }
     }
   }"

definition kexec :: "u8 list \<Rightarrow> u8 list list \<Rightarrow> 'a kfs_scheme \<Rightarrow> (int \<times> 'a kfs_scheme) option" where
  "kexec path argv s = do {
     p \<leftarrow> myproc s;
     s \<leftarrow> begin_op s;
     (ip, s) \<leftarrow> namei path s;
     case ip of
       None \<Rightarrow> do { s \<leftarrow> end_op s; Some (- 1, s) }
     | Some ip \<Rightarrow> do {
         s \<leftarrow> ilock ip s;
         (r, bs, s) \<leftarrow> readi ip None 0 64 s;
         if r \<noteq> 64 then exec_bad 0 0 (Some ip) s
         else if eh_magic (decode_elfhdr bs) \<noteq> ELF_MAGIC then exec_bad 0 0 (Some ip) s
         else do {
           let elf = decode_elfhdr bs;
           (pagetable, s) \<leftarrow> proc_pagetable (p_trapframe (getp s p)) s;
           if pagetable = 0 then exec_bad 0 0 (Some ip) s
           else do {
             (r, s) \<leftarrow> load_program pagetable ip (unat (eh_phnum elf)) (ucast (eh_phoff elf)) 0 s;
             case r of
               Inl sz \<Rightarrow> exec_bad pagetable sz (Some ip) s
             | Inr sz \<Rightarrow> do {
                 s \<leftarrow> iunlockput ip s;
                 s \<leftarrow> end_op s;
                 exec_commit path argv p (eh_entry elf) pagetable sz s
               }
           }
         }
       }
   }"

end
