(* ===== verification/Sysproc.thy ===== *)
theory Sysproc
  imports Exec
begin

text \<open>
  System-call arguments (\<^verbatim>\<open>kernel/syscall.c\<close>) and the process system calls (\<^verbatim>\<open>kernel/sysproc.c\<close>). A system
  call returns the 64-bit value that goes to \<open>a0\<close>. \<open>argstr\<close> and \<open>fetchstr\<close> return the string they
  copied, or \<open>None\<close> for -1.
\<close>

section \<open>Arguments\<close>

definition fetchaddr :: "u64 \<Rightarrow> 'a kproc_scheme \<Rightarrow> (u64 option \<times> 'a kproc_scheme) option" where
  "fetchaddr addr s = do {
     i \<leftarrow> myproc s;
     let p = getp s i;
     if p_sz p \<le> addr \<or> p_sz p < addr + 8 then Some (None, s)
     else do {
       (r, bs, s) \<leftarrow> copyin (p_pagetable p) addr 8 s;
       Some (if r \<noteq> 0 then None else Some (get64 bs 0), s)
     }
   }"

definition fetchstr :: "u64 \<Rightarrow> nat \<Rightarrow> 'a kproc_scheme \<Rightarrow> u8 list option option" where
  "fetchstr addr mx s = do {
     i \<leftarrow> myproc s;
     (r, bs) \<leftarrow> copyinstr (p_pagetable (getp s i)) addr mx s;
     Some (if r < 0 then None else Some (until_nul bs))
   }"

definition argraw :: "nat \<Rightarrow> 'a kproc_scheme \<Rightarrow> u64 option" where
  "argraw n s = do {
     i \<leftarrow> myproc s;
     if n = 0 then Some (tf_get s i TF_a0)
     else if n = 1 then Some (tf_get s i TF_a1)
     else if n = 2 then Some (tf_get s i TF_a2)
     else if n = 3 then Some (tf_get s i TF_a3)
     else if n = 4 then Some (tf_get s i TF_a4)
     else if n = 5 then Some (tf_get s i TF_a5)
     else panic ''argraw''
   }"

definition argint :: "nat \<Rightarrow> 'a kproc_scheme \<Rightarrow> u32 option" where
  "argint n s = map_option ucast (argraw n s)"

definition argaddr :: "nat \<Rightarrow> 'a kproc_scheme \<Rightarrow> u64 option" where
  "argaddr n s = argraw n s"

definition argstr :: "nat \<Rightarrow> nat \<Rightarrow> 'a kproc_scheme \<Rightarrow> u8 list option option" where
  "argstr n mx s = do {
     addr \<leftarrow> argaddr n s;
     fetchstr addr mx s
   }"

section \<open>Process system calls\<close>

definition sys_exit :: "'a kfs_scheme \<Rightarrow> 'a kfs_scheme option" where
  "sys_exit s = do { n \<leftarrow> argint 0 s; kexit n s }"

definition sys_getpid :: "'a kproc_scheme \<Rightarrow> (u64 \<times> 'a kproc_scheme) option" where
  "sys_getpid s = do { i \<leftarrow> myproc s; Some (scast (p_pid (getp s i)), s) }"

definition sys_fork :: "'a kfs_scheme \<Rightarrow> (u64 \<times> 'a kfs_scheme) option" where
  "sys_fork s = do { (r, s) \<leftarrow> kfork s; Some (of_int r, s) }"

definition sys_wait :: "'a kproc_scheme \<Rightarrow> (u64 \<times> 'a kproc_scheme) option" where
  "sys_wait s = do { p \<leftarrow> argaddr 0 s; (r, s) \<leftarrow> kwait p s; Some (of_int r, s) }"

definition sys_sbrk :: "'a kproc_scheme \<Rightarrow> (u64 \<times> 'a kproc_scheme) option" where
  "sys_sbrk s = do {
     n \<leftarrow> argint 0 s;
     i \<leftarrow> myproc s;
     let addr = p_sz (getp s i);
     if 0 < sint n then
       (if addr + scast n < addr \<or> TRAPFRAME < addr + scast n then Some (- 1, s)
        else Some (addr, setp i (\<lambda>p. p\<lparr>p_sz := p_sz p + scast n\<rparr>) s))
     else if sint n < 0 then do {
       (r, s) \<leftarrow> growproc n s;
       Some (if r < 0 then - 1 else addr, s)
     }
     else Some (addr, s)
   }"

text \<open>One turn of the waiting loop of \<open>sys_pause\<close>: \<open>Inl\<close> the return value, \<open>Inr\<close> asleep on \<open>ticks\<close>.\<close>

definition pause_run :: "nat \<Rightarrow> u32 \<Rightarrow> u32 \<Rightarrow> 'a kproc_scheme \<Rightarrow> (u64 + unit) \<times> 'a kproc_scheme" where
  "pause_run i ticks0 n s =
     (if ticks s - ticks0 < n then
        (if killed i s then (Inl (- 1), s) else (Inr (), sleep_enter ChTicks i s))
      else (Inl 0, s))"

definition sys_pause :: "'a kproc_scheme \<Rightarrow> (u64 \<times> 'a kproc_scheme) option" where
  "sys_pause s = do {
     n \<leftarrow> argint 0 s;
     i \<leftarrow> myproc s;
     let n = (if sint n < 0 then 0 else n);
     (case pause_run i (ticks s) n s of
        (Inl r, s) \<Rightarrow> Some (r, s)
      | (Inr _, s) \<Rightarrow> None)
   }"

definition sys_kill :: "'a kproc_scheme \<Rightarrow> (u64 \<times> 'a kproc_scheme) option" where
  "sys_kill s = do {
     pid \<leftarrow> argint 0 s;
     (let (r, s) = kkill pid s in Some (of_int r, s))
   }"

definition sys_uptime :: "'a kproc_scheme \<Rightarrow> (u64 \<times> 'a kproc_scheme) option" where
  "sys_uptime s = Some (ucast (ticks s), s)"

record rtcdate =
  year :: u32
  month :: u32
  day :: u32
  hour :: u32
  minute :: u32
  second :: u32

definition rtc_now :: "u32 \<Rightarrow> rtcdate" where
  "rtc_now xticks = \<lparr>year = 2026, month = 2, day = 20, hour = 2, minute = 38, second = (xticks div 10) mod 60\<rparr>"

definition rtc_bytes :: "rtcdate \<Rightarrow> u8 list" where
  "rtc_bytes r = concat (map (word_bytes 4) [year r, month r, day r, hour r, minute r, second r])"

definition sys_date :: "'a kproc_scheme \<Rightarrow> (u64 \<times> 'a kproc_scheme) option" where
  "sys_date s = do {
     let r = rtc_now (ticks s);
     addr \<leftarrow> argaddr 0 s;
     i \<leftarrow> myproc s;
     (e, s) \<leftarrow> copyout (p_pagetable (getp s i)) addr (rtc_bytes r) s;
     Some (if e < 0 then - 1 else 0, s)
   }"

definition sys_halt :: "'a mach_scheme \<Rightarrow> (u64 \<times> 'a mach_scheme) option" where
  "sys_halt s = Some (0, s\<lparr>pmem := store_bytes (pmem s) 0x100000 (word_bytes 4 (0x5555 :: u32))\<rparr>)"

definition sys_setshm :: "'a kproc_scheme \<Rightarrow> (u64 \<times> 'a kproc_scheme) option" where
  "sys_setshm s = do {
     i \<leftarrow> myproc s;
     Some (0, setp i (\<lambda>p. p\<lparr>p_usar_memoria_compartida := True\<rparr>) s)
   }"

definition sys_getshm :: "'a kproc_scheme \<Rightarrow> (u64 \<times> 'a kproc_scheme) option" where
  "sys_getshm s = do {
     i \<leftarrow> myproc s;
     Some (if p_usar_memoria_compartida (getp s i) then p_shm_va (getp s i) else 0, s)
   }"

definition sys_hello :: "'a mach_scheme \<Rightarrow> (u64 \<times> 'a mach_scheme) option" where
  "sys_hello s = do {
     s \<leftarrow> kprint (''hello: greetings from the xv6 kernel!'' @ [CHR 0x0A]) [] s;
     Some (42, s)
   }"

definition sys_trace :: "'a kproc_scheme \<Rightarrow> (u64 \<times> 'a kproc_scheme) option" where
  "sys_trace s = do {
     mask \<leftarrow> argint 0 s;
     i \<leftarrow> myproc s;
     Some (0, setp i (\<lambda>p. p\<lparr>p_trace_mask := mask\<rparr>) s)
   }"

definition sys_dumpvm :: "'a kproc_scheme \<Rightarrow> (u64 \<times> 'a kproc_scheme) option" where
  "sys_dumpvm s = do {
     i \<leftarrow> myproc s;
     s \<leftarrow> kprint (''=== Page table for pid %d ==='' @ [CHR 0x0A]) [Reg (scast (p_pid (getp s i)))] s;
     s \<leftarrow> vmprint (p_pagetable (getp s i)) s;
     Some (0, s)
   }"

definition ro_msg :: "u8 list" where
  "ro_msg = str ''Hola desde el kernel xv6 - pagina solo lectura'' @ [0]"

definition sys_map_ro :: "'a kproc_scheme \<Rightarrow> (u64 \<times> 'a kproc_scheme) option" where
  "sys_map_ro s = do {
     va \<leftarrow> argaddr 0 s;
     i \<leftarrow> myproc s;
     let va = PGROUNDDOWN va;
     m \<leftarrow> ismapped (p_pagetable (getp s i)) va s;
     if m then Some (- 1, s)
     else let (mem, s) = kalloc s
          in if mem = 0 then Some (- 1, s)
             else do {
               let s = s\<lparr>pmem := memset (pmem s) mem 0 4096\<rparr>;
               let s = s\<lparr>pmem := store_bytes (pmem s) mem ro_msg\<rparr>;
               (r, s) \<leftarrow> mappages (p_pagetable (getp s i)) va PGSIZE mem (PTE_R OR PTE_U) s;
               if r \<noteq> 0 then do {
                 s \<leftarrow> kfree mem s;
                 Some (- 1, s)
               } else Some (0, setp i (\<lambda>p. p\<lparr>p_map_ro_va := va\<rparr>) s)
             }
   }"

definition sys_mapzero :: "'a kproc_scheme \<Rightarrow> (u64 \<times> 'a kproc_scheme) option" where
  "sys_mapzero s = do {
     size_arg \<leftarrow> argint 0 s;
     if sint size_arg \<le> 0 then Some (- 1, s)
     else do {
       i \<leftarrow> myproc s;
       let aligned = PGROUNDUP (scast size_arg);
       let start = p_sz (getp s i);
       Some (start, setp i (\<lambda>p. p\<lparr>p_vr := \<lparr>vr_start = start, vr_size = ucast aligned, vr_active = True\<rparr>,
                                  p_sz := p_sz p + aligned\<rparr>) s)
     }
   }"

end
