(* ===== verification/Sysfile.thy ===== *)
theory Sysfile
  imports Sysproc
begin

text \<open>
  The file system calls, \<^verbatim>\<open>kernel/sysfile.c\<close>. \<open>argfd\<close> gives the descriptor and the file, or \<open>None\<close> for -1.
\<close>

abbreviation (input) MAXPATH :: nat where "MAXPATH \<equiv> 128"

section \<open>Descriptors\<close>

definition argfd :: "nat \<Rightarrow> 'a kproc_scheme \<Rightarrow> (nat \<times> nat) option option" where
  "argfd n s = do {
     fd \<leftarrow> argint n s;
     i \<leftarrow> myproc s;
     if sint fd < 0 \<or> int NOFILE \<le> sint fd then Some None
     else Some (map_option (Pair (unat fd)) (p_ofile (getp s i) ! unat fd))
   }"

fun find_fd :: "nat option list \<Rightarrow> nat option" where
  "find_fd [] = None"
| "find_fd (f # fs) = (if f = None then Some 0 else map_option Suc (find_fd fs))"

definition fdalloc :: "nat \<Rightarrow> 'a kproc_scheme \<Rightarrow> (nat option \<times> 'a kproc_scheme) option" where
  "fdalloc f s = do {
     i \<leftarrow> myproc s;
     Some (case find_fd (p_ofile (getp s i)) of
             None \<Rightarrow> (None, s)
           | Some fd \<Rightarrow> (Some fd, setp i (\<lambda>p. p\<lparr>p_ofile := (p_ofile p)[fd := Some f]\<rparr>) s))
   }"

definition clear_fd :: "nat \<Rightarrow> nat \<Rightarrow> 'a kproc_scheme \<Rightarrow> 'a kproc_scheme" where
  "clear_fd i fd s = setp i (\<lambda>p. p\<lparr>p_ofile := (p_ofile p)[fd := None]\<rparr>) s"

definition sys_dup :: "'a kfs_scheme \<Rightarrow> (u64 \<times> 'a kfs_scheme) option" where
  "sys_dup s = do {
     a \<leftarrow> argfd 0 s;
     case a of
       None \<Rightarrow> Some (- 1, s)
     | Some (_, f) \<Rightarrow> do {
         (fd, s) \<leftarrow> fdalloc f s;
         case fd of
           None \<Rightarrow> Some (- 1, s)
         | Some fd \<Rightarrow> do {
             s \<leftarrow> filedup f s;
             Some (of_nat fd, s)
           }
       }
   }"

definition sys_read :: "'a kfs_scheme \<Rightarrow> (u64 \<times> 'a kfs_scheme) option" where
  "sys_read s = do {
     p \<leftarrow> argaddr 1 s;
     n \<leftarrow> argint 2 s;
     a \<leftarrow> argfd 0 s;
     case a of
       None \<Rightarrow> Some (- 1, s)
     | Some (_, f) \<Rightarrow> do { (r, s) \<leftarrow> fileread f p n s; Some (of_int r, s) }
   }"

definition sys_write :: "'a kfs_scheme \<Rightarrow> (u64 \<times> 'a kfs_scheme) option" where
  "sys_write s = do {
     p \<leftarrow> argaddr 1 s;
     n \<leftarrow> argint 2 s;
     a \<leftarrow> argfd 0 s;
     case a of
       None \<Rightarrow> Some (- 1, s)
     | Some (_, f) \<Rightarrow> do { (r, s) \<leftarrow> filewrite f p n s; Some (of_int r, s) }
   }"

definition sys_close :: "'a kfs_scheme \<Rightarrow> (u64 \<times> 'a kfs_scheme) option" where
  "sys_close s = do {
     a \<leftarrow> argfd 0 s;
     case a of
       None \<Rightarrow> Some (- 1, s)
     | Some (fd, f) \<Rightarrow> do {
         i \<leftarrow> myproc s;
         s \<leftarrow> fileclose f (clear_fd i fd s);
         Some (0, s)
       }
   }"

definition sys_fstat :: "u8 list \<Rightarrow> 'a kfs_scheme \<Rightarrow> (u64 \<times> 'a kfs_scheme) option" where
  "sys_fstat pad s = do {
     st \<leftarrow> argaddr 1 s;
     a \<leftarrow> argfd 0 s;
     case a of
       None \<Rightarrow> Some (- 1, s)
     | Some (_, f) \<Rightarrow> do { (r, s) \<leftarrow> filestat pad f st s; Some (of_int r, s) }
   }"

section \<open>Links\<close>

text \<open>The pattern \<open>end_op(); return -1\<close>.\<close>

definition end_fail :: "'a kfs_scheme \<Rightarrow> (u64 \<times> 'a kfs_scheme) option" where
  "end_fail s = do { s \<leftarrow> end_op s; Some (- 1, s) }"

definition add_nlink :: "u16 \<Rightarrow> nat \<Rightarrow> 'a kfs_scheme \<Rightarrow> 'a kfs_scheme option" where
  "add_nlink d i s = iupdate i (seti i (\<lambda>ip. ip\<lparr>i_nlink := i_nlink ip + d\<rparr>) s)"

definition link_bad :: "nat \<Rightarrow> 'a kfs_scheme \<Rightarrow> (u64 \<times> 'a kfs_scheme) option" where
  "link_bad ip s = do {
     s \<leftarrow> ilock ip s;
     s \<leftarrow> add_nlink (- 1) ip s;
     s \<leftarrow> iunlockput ip s;
     end_fail s
   }"

definition link_at :: "nat \<Rightarrow> nat \<Rightarrow> u8 list \<Rightarrow> 'a kfs_scheme \<Rightarrow> (u64 \<times> 'a kfs_scheme) option" where
  "link_at ip dp name s = do {
     s \<leftarrow> ilock dp s;
     (r, s) \<leftarrow> (if i_dev (geti s dp) \<noteq> i_dev (geti s ip) then Some (- 1, s)
                else dirlink dp name (i_inum (geti s ip)) s);
     if r < 0 then do {
       s \<leftarrow> iunlockput dp s;
       link_bad ip s
     } else do {
       s \<leftarrow> iunlockput dp s;
       s \<leftarrow> iput ip s;
       s \<leftarrow> end_op s;
       Some (0, s)
     }
   }"

definition sys_link :: "'a kfs_scheme \<Rightarrow> (u64 \<times> 'a kfs_scheme) option" where
  "sys_link s = do {
     old \<leftarrow> argstr 0 MAXPATH s;
     case old of
       None \<Rightarrow> Some (- 1, s)
     | Some old \<Rightarrow> do {
         new \<leftarrow> argstr 1 MAXPATH s;
         case new of
           None \<Rightarrow> Some (- 1, s)
         | Some new \<Rightarrow> do {
             s \<leftarrow> begin_op s;
             (ip, s) \<leftarrow> namei old s;
             case ip of
               None \<Rightarrow> end_fail s
             | Some ip \<Rightarrow> do {
                 s \<leftarrow> ilock ip s;
                 if i_type (geti s ip) = T_DIR then do {
                   s \<leftarrow> iunlockput ip s;
                   end_fail s
                 } else do {
                   s \<leftarrow> add_nlink 1 ip s;
                   s \<leftarrow> iunlock ip s;
                   (dp, name, s) \<leftarrow> nameiparent new s;
                   case dp of
                     None \<Rightarrow> link_bad ip s
                   | Some dp \<Rightarrow> link_at ip dp name s
                 }
               }
           }
       }
   }"

function isdirempty_loop :: "nat \<Rightarrow> nat \<Rightarrow> nat \<Rightarrow> 'a kfs_scheme \<Rightarrow> (bool \<times> 'a kfs_scheme) option" where
  "isdirempty_loop dp sz off s =
     (if sz \<le> off then Some (True, s)
      else do {
        (r, de, s) \<leftarrow> readi dp None (of_nat off) 16 s;
        if r \<noteq> 16 then panic ''isdirempty: readi''
        else if de_inum de \<noteq> 0 then Some (False, s)
        else isdirempty_loop dp sz (off + 16) s
      })"
  by pat_completeness auto
termination
  by (relation "measure (\<lambda>(dp, sz, off, s). sz - off)") auto

declare isdirempty_loop.simps [simp del]

definition isdirempty :: "nat \<Rightarrow> 'a kfs_scheme \<Rightarrow> (bool \<times> 'a kfs_scheme) option" where
  "isdirempty dp s = isdirempty_loop dp (unat (i_size (geti s dp))) 32 s"

definition unlink_bad :: "nat \<Rightarrow> 'a kfs_scheme \<Rightarrow> (u64 \<times> 'a kfs_scheme) option" where
  "unlink_bad dp s = do {
     s \<leftarrow> iunlockput dp s;
     end_fail s
   }"

text \<open>The entry at \<open>off\<close> of the locked directory \<open>dp\<close> names the locked inode \<open>ip\<close>.\<close>

definition unlink_entry :: "nat \<Rightarrow> nat \<Rightarrow> nat \<Rightarrow> 'a kfs_scheme \<Rightarrow> (u64 \<times> 'a kfs_scheme) option" where
  "unlink_entry dp ip off s = do {
     (r, s) \<leftarrow> writei dp (KernSrc (replicate 16 0)) (of_nat off) 16 s;
     if r \<noteq> 16 then panic ''unlink: writei''
     else do {
       s \<leftarrow> (if i_type (geti s ip) = T_DIR then add_nlink (- 1) dp s else Some s);
       s \<leftarrow> iunlockput dp s;
       s \<leftarrow> add_nlink (- 1) ip s;
       s \<leftarrow> iunlockput ip s;
       s \<leftarrow> end_op s;
       Some (0, s)
     }
   }"

definition sys_unlink :: "'a kfs_scheme \<Rightarrow> (u64 \<times> 'a kfs_scheme) option" where
  "sys_unlink s = do {
     path \<leftarrow> argstr 0 MAXPATH s;
     case path of
       None \<Rightarrow> Some (- 1, s)
     | Some path \<Rightarrow> do {
         s \<leftarrow> begin_op s;
         (dp, name, s) \<leftarrow> nameiparent path s;
         case dp of
           None \<Rightarrow> end_fail s
         | Some dp \<Rightarrow> do {
             s \<leftarrow> ilock dp s;
             if namecmp name (str ''.'') = 0 \<or> namecmp name (str ''..'') = 0 then unlink_bad dp s
             else do {
               (found, s) \<leftarrow> dirlookup dp name s;
               case found of
                 None \<Rightarrow> unlink_bad dp s
               | Some (ip, off) \<Rightarrow> do {
                   s \<leftarrow> ilock ip s;
                   if sint (i_nlink (geti s ip)) < 1 then panic ''unlink: nlink < 1''
                   else do {
                     (empty, s) \<leftarrow> (if i_type (geti s ip) = T_DIR then isdirempty ip s else Some (True, s));
                     if \<not> empty then do {
                       s \<leftarrow> iunlockput ip s;
                       unlink_bad dp s
                     } else unlink_entry dp ip off s
                   }
                 }
             }
           }
       }
   }"

section \<open>Creating and opening\<close>

text \<open>Fills the new locked inode \<open>ip\<close> and links it; the flag is false for \<open>goto fail\<close>.\<close>

definition create_link :: "nat \<Rightarrow> nat \<Rightarrow> u8 list \<Rightarrow> u16 \<Rightarrow> 'a kfs_scheme \<Rightarrow> (bool \<times> 'a kfs_scheme) option" where
  "create_link dp ip name ty s = do {
     (ok, s) \<leftarrow> (if ty = T_DIR then do {
                   (r, s) \<leftarrow> dirlink ip (str ''.'') (i_inum (geti s ip)) s;
                   if r < 0 then Some (False, s)
                   else do {
                     (r, s) \<leftarrow> dirlink ip (str ''..'') (i_inum (geti s dp)) s;
                     Some (\<not> r < 0, s)
                   }
                 } else Some (True, s));
     if \<not> ok then Some (False, s)
     else do {
       (r, s) \<leftarrow> dirlink dp name (i_inum (geti s ip)) s;
       if r < 0 then Some (False, s)
       else do {
         s \<leftarrow> (if ty = T_DIR then add_nlink 1 dp s else Some s);
         Some (True, s)
       }
     }
   }"

definition create :: "u8 list \<Rightarrow> u16 \<Rightarrow> u16 \<Rightarrow> u16 \<Rightarrow> 'a kfs_scheme \<Rightarrow> (nat option \<times> 'a kfs_scheme) option" where
  "create path ty mj mn s = do {
     (dp, name, s) \<leftarrow> nameiparent path s;
     case dp of
       None \<Rightarrow> Some (None, s)
     | Some dp \<Rightarrow> do {
         s \<leftarrow> ilock dp s;
         (found, s) \<leftarrow> dirlookup dp name s;
         case found of
           Some (ip, _) \<Rightarrow> do {
             s \<leftarrow> iunlockput dp s;
             s \<leftarrow> ilock ip s;
             if ty = T_FILE \<and> (i_type (geti s ip) = T_FILE \<or> i_type (geti s ip) = T_DEVICE) then Some (Some ip, s)
             else do {
               s \<leftarrow> iunlockput ip s;
               Some (None, s)
             }
           }
         | None \<Rightarrow> do {
             (ip, s) \<leftarrow> ialloc (i_dev (geti s dp)) ty s;
             case ip of
               None \<Rightarrow> do {
                 s \<leftarrow> iunlockput dp s;
                 Some (None, s)
               }
             | Some ip \<Rightarrow> do {
                 s \<leftarrow> ilock ip s;
                 s \<leftarrow> iupdate ip (seti ip (\<lambda>i. i\<lparr>i_major := mj, i_minor := mn, i_nlink := 1\<rparr>) s);
                 (ok, s) \<leftarrow> create_link dp ip name ty s;
                 if ok then do {
                   s \<leftarrow> iunlockput dp s;
                   Some (Some ip, s)
                 } else do {
                   s \<leftarrow> iupdate ip (seti ip (\<lambda>i. i\<lparr>i_nlink := 0\<rparr>) s);
                   s \<leftarrow> iunlockput ip s;
                   s \<leftarrow> iunlockput dp s;
                   Some (None, s)
                 }
               }
           }
       }
   }"

abbreviation (input) O_WRONLY :: u32 where "O_WRONLY \<equiv> 1"
abbreviation (input) O_RDWR :: u32 where "O_RDWR \<equiv> 2"
abbreviation (input) O_CREATE :: u32 where "O_CREATE \<equiv> 0x200"
abbreviation (input) O_TRUNC :: u32 where "O_TRUNC \<equiv> 0x400"

text \<open>The locked inode that \<open>open\<close> is to use.\<close>

definition open_inode :: "u8 list \<Rightarrow> u32 \<Rightarrow> 'a kfs_scheme \<Rightarrow> (nat option \<times> 'a kfs_scheme) option" where
  "open_inode path omode s =
     (if omode AND O_CREATE \<noteq> 0 then create path T_FILE 0 0 s
      else do {
        (ip, s) \<leftarrow> namei path s;
        case ip of
          None \<Rightarrow> Some (None, s)
        | Some ip \<Rightarrow> do {
            s \<leftarrow> ilock ip s;
            if i_type (geti s ip) = T_DIR \<and> omode \<noteq> 0 then do {
              s \<leftarrow> iunlockput ip s;
              Some (None, s)
            } else Some (Some ip, s)
          }
      })"

definition open_file :: "nat \<Rightarrow> u32 \<Rightarrow> nat \<Rightarrow> 'a kfs_scheme \<Rightarrow> 'a kfs_scheme" where
  "open_file f omode ip s =
     setf f (\<lambda>fl. (if i_type (geti s ip) = T_DEVICE then fl\<lparr>f_type := FD_DEVICE, f_major := i_major (geti s ip)\<rparr>
                   else fl\<lparr>f_type := FD_INODE, f_off := 0\<rparr>)
               \<lparr>f_ip := Some ip, f_readable := (omode AND O_WRONLY = 0),
                f_writable := (omode AND O_WRONLY \<noteq> 0 \<or> omode AND O_RDWR \<noteq> 0)\<rparr>) s"

definition open_fail :: "nat \<Rightarrow> 'a kfs_scheme \<Rightarrow> (u64 \<times> 'a kfs_scheme) option" where
  "open_fail ip s = do {
     s \<leftarrow> iunlockput ip s;
     end_fail s
   }"

definition sys_open :: "'a kfs_scheme \<Rightarrow> (u64 \<times> 'a kfs_scheme) option" where
  "sys_open s = do {
     omode \<leftarrow> argint 1 s;
     path \<leftarrow> argstr 0 MAXPATH s;
     case path of
       None \<Rightarrow> Some (- 1, s)
     | Some path \<Rightarrow> do {
         s \<leftarrow> begin_op s;
         (ip, s) \<leftarrow> open_inode path omode s;
         case ip of
           None \<Rightarrow> end_fail s
         | Some ip \<Rightarrow>
             if i_type (geti s ip) = T_DEVICE \<and>
                (sint (i_major (geti s ip)) < 0 \<or> int NDEV \<le> sint (i_major (geti s ip)))
             then open_fail ip s
             else (case filealloc s of
                 (None, s) \<Rightarrow> open_fail ip s
               | (Some f, s) \<Rightarrow> do {
                   (fd, s) \<leftarrow> fdalloc f s;
                   case fd of
                     None \<Rightarrow> do {
                       s \<leftarrow> fileclose f s;
                       open_fail ip s
                     }
                   | Some fd \<Rightarrow> do {
                       let s = open_file f omode ip s;
                       s \<leftarrow> (if omode AND O_TRUNC \<noteq> 0 \<and> i_type (geti s ip) = T_FILE then itrunc ip s else Some s);
                       s \<leftarrow> iunlock ip s;
                       s \<leftarrow> end_op s;
                       Some (of_nat fd, s)
                     }
                 })
       }
   }"

definition create_and_put :: "u8 list option \<Rightarrow> u16 \<Rightarrow> u16 \<Rightarrow> u16 \<Rightarrow> 'a kfs_scheme \<Rightarrow> (u64 \<times> 'a kfs_scheme) option" where
  "create_and_put path ty mj mn s =
     (case path of
        None \<Rightarrow> end_fail s
      | Some path \<Rightarrow> do {
          (ip, s) \<leftarrow> create path ty mj mn s;
          case ip of
            None \<Rightarrow> end_fail s
          | Some ip \<Rightarrow> do {
              s \<leftarrow> iunlockput ip s;
              s \<leftarrow> end_op s;
              Some (0, s)
            }
        })"

definition sys_mkdir :: "'a kfs_scheme \<Rightarrow> (u64 \<times> 'a kfs_scheme) option" where
  "sys_mkdir s = do {
     s \<leftarrow> begin_op s;
     path \<leftarrow> argstr 0 MAXPATH s;
     create_and_put path T_DIR 0 0 s
   }"

definition sys_mknod :: "'a kfs_scheme \<Rightarrow> (u64 \<times> 'a kfs_scheme) option" where
  "sys_mknod s = do {
     s \<leftarrow> begin_op s;
     mj \<leftarrow> argint 1 s;
     mn \<leftarrow> argint 2 s;
     path \<leftarrow> argstr 0 MAXPATH s;
     create_and_put path T_DEVICE (ucast mj) (ucast mn) s
   }"

definition sys_chdir :: "'a kfs_scheme \<Rightarrow> (u64 \<times> 'a kfs_scheme) option" where
  "sys_chdir s = do {
     p \<leftarrow> myproc s;
     s \<leftarrow> begin_op s;
     path \<leftarrow> argstr 0 MAXPATH s;
     case path of
       None \<Rightarrow> end_fail s
     | Some path \<Rightarrow> do {
         (ip, s) \<leftarrow> namei path s;
         case ip of
           None \<Rightarrow> end_fail s
         | Some ip \<Rightarrow> do {
             s \<leftarrow> ilock ip s;
             if i_type (geti s ip) \<noteq> T_DIR then open_fail ip s
             else do {
               s \<leftarrow> iunlock ip s;
               cwd \<leftarrow> p_cwd (getp s p);
               s \<leftarrow> iput cwd s;
               s \<leftarrow> end_op s;
               Some (0, setp p (\<lambda>q. q\<lparr>p_cwd := Some ip\<rparr>) s)
             }
           }
       }
   }"

section \<open>Exec and pipe\<close>

text \<open>The argument loop of \<open>sys_exec\<close> with \<open>k\<close> slots of \<open>argv\<close> left: whether it ended at a null pointer,
  the pages it allocated and the strings in them.\<close>

fun exec_args :: "nat \<Rightarrow> u64 \<Rightarrow> u64 list \<Rightarrow> u8 list list \<Rightarrow> 'a kfs_scheme
    \<Rightarrow> (bool \<times> u64 list \<times> u8 list list \<times> 'a kfs_scheme) option" where
  "exec_args 0 uargv pages argv s = Some (False, pages, argv, s)"
| "exec_args (Suc k) uargv pages argv s = do {
     (a, s) \<leftarrow> fetchaddr (uargv + 8 * of_nat (length pages)) s;
     case a of
       None \<Rightarrow> Some (False, pages, argv, s)
     | Some uarg \<Rightarrow>
         if uarg = 0 then Some (True, pages, argv, s)
         else let (pg, s) = kalloc s
              in if pg = 0 then Some (False, pages, argv, s)
                 else do {
                   str_r \<leftarrow> fetchstr uarg 4096 s;
                   case str_r of
                     None \<Rightarrow> Some (False, pages @ [pg], argv, s)
                   | Some bs \<Rightarrow>
                       exec_args k uargv (pages @ [pg]) (argv @ [bs]) (s\<lparr>pmem := store_bytes (pmem s) pg (bs @ [0])\<rparr>)
                 }
   }"

definition sys_exec :: "'a kfs_scheme \<Rightarrow> (u64 \<times> 'a kfs_scheme) option" where
  "sys_exec s = do {
     uargv \<leftarrow> argaddr 1 s;
     path \<leftarrow> argstr 0 MAXPATH s;
     case path of
       None \<Rightarrow> Some (- 1, s)
     | Some path \<Rightarrow> do {
         (ok, pages, argv, s) \<leftarrow> exec_args MAXARG uargv [] [] s;
         (r, s) \<leftarrow> (if ok then kexec path argv s else Some (- 1, s));
         s \<leftarrow> for_each kfree pages s;
         Some (of_int r, s)
       }
   }"

definition pipe_undo :: "nat \<Rightarrow> nat \<Rightarrow> 'a kfs_scheme \<Rightarrow> (u64 \<times> 'a kfs_scheme) option" where
  "pipe_undo rf wrf s = do {
     s \<leftarrow> fileclose rf s;
     s \<leftarrow> fileclose wrf s;
     Some (- 1, s)
   }"

definition sys_pipe :: "'a kfs_scheme \<Rightarrow> (u64 \<times> 'a kfs_scheme) option" where
  "sys_pipe s = do {
     p \<leftarrow> myproc s;
     fdarray \<leftarrow> argaddr 0 s;
     (fs, s) \<leftarrow> pipealloc s;
     case fs of
       None \<Rightarrow> Some (- 1, s)
     | Some (rf, wrf) \<Rightarrow> do {
         (fd0, s) \<leftarrow> fdalloc rf s;
         case fd0 of
           None \<Rightarrow> pipe_undo rf wrf s
         | Some fd0 \<Rightarrow> do {
             (fd1, s) \<leftarrow> fdalloc wrf s;
             case fd1 of
               None \<Rightarrow> pipe_undo rf wrf (clear_fd p fd0 s)
             | Some fd1 \<Rightarrow> do {
                 let pt = p_pagetable (getp s p);
                 (r, s) \<leftarrow> copyout pt fdarray (word_bytes 4 (of_nat fd0 :: u32)) s;
                 (r, s) \<leftarrow> (if r < 0 then Some (r, s) else copyout pt (fdarray + 4) (word_bytes 4 (of_nat fd1 :: u32)) s);
                 if r < 0 then pipe_undo rf wrf (clear_fd p fd1 (clear_fd p fd0 s))
                 else Some (0, s)
               }
           }
       }
   }"

end
