(* ===== verification/Syscall.thy ===== *)
theory Syscall
  imports Sysfile
begin

text \<open>
  System-call dispatch, \<^verbatim>\<open>kernel/syscall.c\<close>. The table \<open>syscalls[]\<close> is indexed by the numbers of
  \<^verbatim>\<open>kernel/syscall.h\<close>; a missing entry is a null pointer. \<open>Exited\<close> is the outcome of \<open>sys_exit\<close>, which does
  not return.
\<close>

datatype outcome = Ret u64 | Exited

definition ret :: "('s \<Rightarrow> (u64 \<times> 's) option) \<Rightarrow> 's \<Rightarrow> (outcome \<times> 's) option" where
  "ret f s = do { (r, s) \<leftarrow> f s; Some (Ret r, s) }"

definition exits :: "('s \<Rightarrow> 's option) \<Rightarrow> 's \<Rightarrow> (outcome \<times> 's) option" where
  "exits f s = do { s \<leftarrow> f s; Some (Exited, s) }"

definition syscalls :: "u8 list \<Rightarrow> ('a kfs_scheme \<Rightarrow> (outcome \<times> 'a kfs_scheme) option) option list" where
  "syscalls pad =
     [None, Some (ret sys_fork), Some (exits sys_exit), Some (ret sys_wait), Some (ret sys_pipe),
      Some (ret sys_read), Some (ret sys_kill), Some (ret sys_exec), Some (ret (sys_fstat pad)),
      Some (ret sys_chdir), Some (ret sys_dup), Some (ret sys_getpid), Some (ret sys_sbrk),
      Some (ret sys_pause), Some (ret sys_uptime), Some (ret sys_open), Some (ret sys_write),
      Some (ret sys_mknod), Some (ret sys_unlink), Some (ret sys_link), Some (ret sys_mkdir),
      Some (ret sys_close), Some (ret sys_date), Some (ret sys_halt), None, Some (ret sys_getshm),
      Some (ret sys_setshm), Some (ret sys_hello), Some (ret sys_trace), Some (ret sys_dumpvm),
      Some (ret sys_map_ro), Some (ret sys_mapzero)]"

definition syscall_names :: "string list" where
  "syscall_names =
     [''(none)'', ''fork'', ''exit'', ''wait'', ''pipe'', ''read'', ''kill'', ''exec'', ''fstat'', ''chdir'',
      ''dup'', ''getpid'', ''sbrk'', ''pause'', ''uptime'', ''open'', ''write'', ''mknod'', ''unlink'', ''link'',
      ''mkdir'', ''close'', ''date'', ''halt'', ''setshared'', ''getshm'', ''setshm'', ''hello'', ''trace'',
      ''dumpvm'', ''map_ro'', ''mapzero'']"

definition print_trace :: "nat \<Rightarrow> nat \<Rightarrow> 'a kproc_scheme \<Rightarrow> 'a kproc_scheme option" where
  "print_trace i num s =
     kprint (''[trace] pid %d: syscall %s (num=%d) args=(%ld, %ld, %ld, %ld, %ld, %ld) -> %ld'' @ [CHR 0x0A])
       [Reg (scast (p_pid (getp s i))), Ptr (Some (str (syscall_names ! num))), Reg (of_nat num),
        Reg (tf_get s i TF_a0), Reg (tf_get s i TF_a1), Reg (tf_get s i TF_a2),
        Reg (tf_get s i TF_a3), Reg (tf_get s i TF_a4), Reg (tf_get s i TF_a5),
        Reg (tf_get s i TF_a0)] s"

definition handler :: "u8 list \<Rightarrow> u32 \<Rightarrow> ('a kfs_scheme \<Rightarrow> (outcome \<times> 'a kfs_scheme) option) option" where
  "handler pad num = (if 0 < sint num \<and> sint num < 32 then syscalls pad ! unat num else None)"

definition syscall :: "u8 list \<Rightarrow> 'a kfs_scheme \<Rightarrow> (bool \<times> 'a kfs_scheme) option" where
  "syscall pad s = do {
     i \<leftarrow> myproc s;
     let num = (ucast (tf_get s i TF_a7) :: u32);
     (case handler pad num of
        Some f \<Rightarrow> do {
          (r, s) \<leftarrow> f s;
          case r of
            Exited \<Rightarrow> Some (False, s)
          | Ret v \<Rightarrow> do {
              let s = tf_set i TF_a0 v s;
              s \<leftarrow> (if p_trace_mask (getp s i) AND push_bit (unat num) 1 \<noteq> 0 then print_trace i (unat num) s
                    else Some s);
              Some (True, s)
            }
        }
      | None \<Rightarrow> do {
          s \<leftarrow> kprint (''%d %s: unknown sys call %d'' @ [CHR 0x0A])
                 [Reg (scast (p_pid (getp s i))), Ptr (Some (until_nul (p_name (getp s i)))), Reg (scast num)] s;
          Some (True, tf_set i TF_a0 (- 1) s)
        })
   }"

end
