(* ===== verification/Riscv.thy ===== *)
theory Riscv
  imports Virtio Syscall
begin

text \<open>
  The control and status registers of one hart and the functions of \<^verbatim>\<open>kernel/riscv.h\<close> that read and write
  them, with the state of the trap code. The hardware's own effect on a register (an interrupt
  changing \<open>scause\<close>, the aliasing of \<open>sstatus\<close> with \<open>mstatus\<close>) is outside the model; what a trap delivers
  is in the state when its handler starts. \<open>satp\<close> is a field of the machine. Writes to the registers of
  the interrupt controller and of the UART and disk at boot are recorded in \<open>mmio\<close>, in order, and
  \<open>devin\<close> is what the devices have ready.
\<close>

record csrs =
  c_mhartid :: u64
  c_mstatus :: u64
  c_mepc :: u64
  c_sstatus :: u64
  c_sip :: u64
  c_sie :: u64
  c_mie :: u64
  c_sepc :: u64
  c_medeleg :: u64
  c_mideleg :: u64
  c_stvec :: u64
  c_stimecmp :: u64
  c_menvcfg :: u64
  c_pmpcfg0 :: u64
  c_pmpaddr0 :: u64
  c_scause :: u64
  c_stval :: u64
  c_mcounteren :: u64
  c_time_csr :: u64
  c_tp_reg :: u64

record devin =
  in_irq :: u32
  in_tx_idle :: bool
  in_rx :: "u8 list"

record ktrap = kvirt +
  csr :: csrs
  mmio :: "(u64 \<times> u32) list"
  dev_in :: devin
  hart :: cpu
  first :: bool

section \<open>Registers\<close>

definition r_mhartid :: "'a ktrap_scheme \<Rightarrow> u64" where
  "r_mhartid s = c_mhartid (csr s)"

definition r_mstatus :: "'a ktrap_scheme \<Rightarrow> u64" where
  "r_mstatus s = c_mstatus (csr s)"

definition r_sstatus :: "'a ktrap_scheme \<Rightarrow> u64" where
  "r_sstatus s = c_sstatus (csr s)"

definition r_sip :: "'a ktrap_scheme \<Rightarrow> u64" where
  "r_sip s = c_sip (csr s)"

definition r_sie :: "'a ktrap_scheme \<Rightarrow> u64" where
  "r_sie s = c_sie (csr s)"

definition r_mie :: "'a ktrap_scheme \<Rightarrow> u64" where
  "r_mie s = c_mie (csr s)"

definition r_sepc :: "'a ktrap_scheme \<Rightarrow> u64" where
  "r_sepc s = c_sepc (csr s)"

definition r_medeleg :: "'a ktrap_scheme \<Rightarrow> u64" where
  "r_medeleg s = c_medeleg (csr s)"

definition r_mideleg :: "'a ktrap_scheme \<Rightarrow> u64" where
  "r_mideleg s = c_mideleg (csr s)"

definition r_stvec :: "'a ktrap_scheme \<Rightarrow> u64" where
  "r_stvec s = c_stvec (csr s)"

definition r_stimecmp :: "'a ktrap_scheme \<Rightarrow> u64" where
  "r_stimecmp s = c_stimecmp (csr s)"

definition r_menvcfg :: "'a ktrap_scheme \<Rightarrow> u64" where
  "r_menvcfg s = c_menvcfg (csr s)"

definition r_scause :: "'a ktrap_scheme \<Rightarrow> u64" where
  "r_scause s = c_scause (csr s)"

definition r_stval :: "'a ktrap_scheme \<Rightarrow> u64" where
  "r_stval s = c_stval (csr s)"

definition r_mcounteren :: "'a ktrap_scheme \<Rightarrow> u64" where
  "r_mcounteren s = c_mcounteren (csr s)"

definition r_time :: "'a ktrap_scheme \<Rightarrow> u64" where
  "r_time s = c_time_csr (csr s)"

definition r_tp :: "'a ktrap_scheme \<Rightarrow> u64" where
  "r_tp s = c_tp_reg (csr s)"

definition w_mstatus :: "u64 \<Rightarrow> 'a ktrap_scheme \<Rightarrow> 'a ktrap_scheme" where
  "w_mstatus x s = s\<lparr>csr := (csr s)\<lparr>c_mstatus := x\<rparr>\<rparr>"

definition w_mepc :: "u64 \<Rightarrow> 'a ktrap_scheme \<Rightarrow> 'a ktrap_scheme" where
  "w_mepc x s = s\<lparr>csr := (csr s)\<lparr>c_mepc := x\<rparr>\<rparr>"

definition w_sstatus :: "u64 \<Rightarrow> 'a ktrap_scheme \<Rightarrow> 'a ktrap_scheme" where
  "w_sstatus x s = s\<lparr>csr := (csr s)\<lparr>c_sstatus := x\<rparr>\<rparr>"

definition w_sip :: "u64 \<Rightarrow> 'a ktrap_scheme \<Rightarrow> 'a ktrap_scheme" where
  "w_sip x s = s\<lparr>csr := (csr s)\<lparr>c_sip := x\<rparr>\<rparr>"

definition w_sie :: "u64 \<Rightarrow> 'a ktrap_scheme \<Rightarrow> 'a ktrap_scheme" where
  "w_sie x s = s\<lparr>csr := (csr s)\<lparr>c_sie := x\<rparr>\<rparr>"

definition w_mie :: "u64 \<Rightarrow> 'a ktrap_scheme \<Rightarrow> 'a ktrap_scheme" where
  "w_mie x s = s\<lparr>csr := (csr s)\<lparr>c_mie := x\<rparr>\<rparr>"

definition w_sepc :: "u64 \<Rightarrow> 'a ktrap_scheme \<Rightarrow> 'a ktrap_scheme" where
  "w_sepc x s = s\<lparr>csr := (csr s)\<lparr>c_sepc := x\<rparr>\<rparr>"

definition w_medeleg :: "u64 \<Rightarrow> 'a ktrap_scheme \<Rightarrow> 'a ktrap_scheme" where
  "w_medeleg x s = s\<lparr>csr := (csr s)\<lparr>c_medeleg := x\<rparr>\<rparr>"

definition w_mideleg :: "u64 \<Rightarrow> 'a ktrap_scheme \<Rightarrow> 'a ktrap_scheme" where
  "w_mideleg x s = s\<lparr>csr := (csr s)\<lparr>c_mideleg := x\<rparr>\<rparr>"

definition w_stvec :: "u64 \<Rightarrow> 'a ktrap_scheme \<Rightarrow> 'a ktrap_scheme" where
  "w_stvec x s = s\<lparr>csr := (csr s)\<lparr>c_stvec := x\<rparr>\<rparr>"

definition w_stimecmp :: "u64 \<Rightarrow> 'a ktrap_scheme \<Rightarrow> 'a ktrap_scheme" where
  "w_stimecmp x s = s\<lparr>csr := (csr s)\<lparr>c_stimecmp := x\<rparr>\<rparr>"

definition w_menvcfg :: "u64 \<Rightarrow> 'a ktrap_scheme \<Rightarrow> 'a ktrap_scheme" where
  "w_menvcfg x s = s\<lparr>csr := (csr s)\<lparr>c_menvcfg := x\<rparr>\<rparr>"

definition w_pmpcfg0 :: "u64 \<Rightarrow> 'a ktrap_scheme \<Rightarrow> 'a ktrap_scheme" where
  "w_pmpcfg0 x s = s\<lparr>csr := (csr s)\<lparr>c_pmpcfg0 := x\<rparr>\<rparr>"

definition w_pmpaddr0 :: "u64 \<Rightarrow> 'a ktrap_scheme \<Rightarrow> 'a ktrap_scheme" where
  "w_pmpaddr0 x s = s\<lparr>csr := (csr s)\<lparr>c_pmpaddr0 := x\<rparr>\<rparr>"

definition w_mcounteren :: "u64 \<Rightarrow> 'a ktrap_scheme \<Rightarrow> 'a ktrap_scheme" where
  "w_mcounteren x s = s\<lparr>csr := (csr s)\<lparr>c_mcounteren := x\<rparr>\<rparr>"

definition w_tp :: "u64 \<Rightarrow> 'a ktrap_scheme \<Rightarrow> 'a ktrap_scheme" where
  "w_tp x s = s\<lparr>csr := (csr s)\<lparr>c_tp_reg := x\<rparr>\<rparr>"

definition r_satp :: "'a mach_scheme \<Rightarrow> u64" where
  "r_satp s = satp s"

definition w_satp :: "u64 \<Rightarrow> 'a mach_scheme \<Rightarrow> 'a mach_scheme" where
  "w_satp x s = s\<lparr>satp := x\<rparr>"

abbreviation (input) SSTATUS_SPP :: u64 where "SSTATUS_SPP \<equiv> 0x100"
abbreviation (input) SSTATUS_SPIE :: u64 where "SSTATUS_SPIE \<equiv> 0x20"
abbreviation (input) SSTATUS_SIE :: u64 where "SSTATUS_SIE \<equiv> 2"

definition intr_on :: "'a ktrap_scheme \<Rightarrow> 'a ktrap_scheme" where
  "intr_on s = w_sstatus (r_sstatus s OR SSTATUS_SIE) s"

definition intr_off :: "'a ktrap_scheme \<Rightarrow> 'a ktrap_scheme" where
  "intr_off s = w_sstatus (r_sstatus s AND NOT SSTATUS_SIE) s"

definition intr_get :: "'a ktrap_scheme \<Rightarrow> bool" where
  "intr_get s \<longleftrightarrow> r_sstatus s AND SSTATUS_SIE \<noteq> 0"

definition cpuid :: "'a ktrap_scheme \<Rightarrow> u32" where
  "cpuid s = ucast (r_tp s)"

lemmas csr_defs =
  r_mhartid_def r_mstatus_def r_sstatus_def r_sip_def r_sie_def r_mie_def r_sepc_def r_medeleg_def 
  r_mideleg_def r_stvec_def r_stimecmp_def r_menvcfg_def r_scause_def r_stval_def r_mcounteren_def 
  r_time_def r_tp_def w_mstatus_def w_mepc_def w_sstatus_def w_sip_def w_sie_def w_mie_def 
  w_sepc_def w_medeleg_def w_mideleg_def w_stvec_def w_stimecmp_def w_menvcfg_def w_pmpcfg0_def 
  w_pmpaddr0_def w_mcounteren_def w_tp_def r_satp_def w_satp_def

lemma intr_on_off [simp]: "\<not> intr_get (intr_off s)" "intr_get (intr_on s)"
  by (simp_all add: intr_get_def intr_off_def intr_on_def csr_defs and.assoc bit.conj_disj_distrib2 or_eq_0_iff)

end
