(* ===== verification/Trap.thy ===== *)
theory Trap
  imports Riscv
begin

text \<open>
  Traps, \<^verbatim>\<open>kernel/trap.c\<close>, the interrupt controller, \<^verbatim>\<open>kernel/plic.c\<close>, the return of a new process to user
  space (\<open>forkret\<close>), and the boot sequence, \<^verbatim>\<open>kernel/start.c\<close> and \<^verbatim>\<open>kernel/main.c\<close>. A trap handler that gives
  up the CPU is modelled up to the switch and from there on: \<open>TYielded\<close> and \<open>TExited\<close> are the outcomes
  that do not come back to the handler at once.
\<close>

section \<open>Interrupt controller\<close>

abbreviation (input) PLIC_BASE :: u64 where "PLIC_BASE \<equiv> 0xc000000"
abbreviation (input) UART0_IRQ :: nat where "UART0_IRQ \<equiv> 10"
abbreviation (input) VIRTIO0_IRQ :: nat where "VIRTIO0_IRQ \<equiv> 1"

definition PLIC_SENABLE :: "u32 \<Rightarrow> u64" where
  "PLIC_SENABLE h = PLIC_BASE + 0x2080 + scast h * 0x100"

definition PLIC_SPRIORITY :: "u32 \<Rightarrow> u64" where
  "PLIC_SPRIORITY h = PLIC_BASE + 0x201000 + scast h * 0x2000"

definition PLIC_SCLAIM :: "u32 \<Rightarrow> u64" where
  "PLIC_SCLAIM h = PLIC_BASE + 0x201004 + scast h * 0x2000"

definition mmio_write :: "u64 \<Rightarrow> u32 \<Rightarrow> 'a ktrap_scheme \<Rightarrow> 'a ktrap_scheme" where
  "mmio_write a v s = s\<lparr>mmio := mmio s @ [(a, v)]\<rparr>"

definition plicinit :: "'a ktrap_scheme \<Rightarrow> 'a ktrap_scheme" where
  "plicinit s = mmio_write (PLIC_BASE + of_nat VIRTIO0_IRQ * 4) 1 (mmio_write (PLIC_BASE + of_nat UART0_IRQ * 4) 1 s)"

definition plicinithart :: "'a ktrap_scheme \<Rightarrow> 'a ktrap_scheme" where
  "plicinithart s =
     mmio_write (PLIC_SPRIORITY (cpuid s)) 0
       (mmio_write (PLIC_SENABLE (cpuid s)) (push_bit UART0_IRQ 1 OR push_bit VIRTIO0_IRQ 1) s)"

definition plic_claim :: "'a ktrap_scheme \<Rightarrow> u32" where
  "plic_claim s = in_irq (dev_in s)"

definition plic_complete :: "u32 \<Rightarrow> 'a ktrap_scheme \<Rightarrow> 'a ktrap_scheme" where
  "plic_complete irq s = mmio_write (PLIC_SCLAIM (cpuid s)) irq s"

section \<open>Interrupts\<close>

definition trapinithart :: "'a ktrap_scheme \<Rightarrow> 'a ktrap_scheme" where
  "trapinithart s = w_stvec (sym_kernelvec (sym s)) s"

definition clockintr :: "'a ktrap_scheme \<Rightarrow> 'a ktrap_scheme" where
  "clockintr s =
     (let s = (if cpuid s = 0 then wakeup ChTicks (s\<lparr>ticks := ticks s + 1\<rparr>) else s)
      in w_stimecmp (r_time s + 1000000) s)"

definition devintr :: "'a ktrap_scheme \<Rightarrow> (nat \<times> 'a ktrap_scheme) option" where
  "devintr s =
     (let scause = r_scause s
      in if scause = 0x8000000000000009 then do {
           let irq = plic_claim s;
           s \<leftarrow> (if irq = of_nat UART0_IRQ then uartintr (in_tx_idle (dev_in s)) (in_rx (dev_in s)) s
                 else if irq = of_nat VIRTIO0_IRQ then virtio_disk_intr s
                 else if irq \<noteq> 0 then kprint (''unexpected interrupt irq=%d'' @ [CHR 0x0A]) [Reg (scast irq)] s
                 else Some s);
           Some (1, if irq \<noteq> 0 then plic_complete irq s else s)
         }
         else if scause = 0x8000000000000005 then Some (2, clockintr s)
         else Some (0, s))"

section \<open>Returning to user space\<close>

definition prepare_return :: "'a ktrap_scheme \<Rightarrow> 'a ktrap_scheme option" where
  "prepare_return s = do {
     i \<leftarrow> myproc s;
     let s = intr_off s;
     let s = w_stvec (TRAMPOLINE + (sym_uservec (sym s) - sym_trampoline (sym s))) s;
     let s = tf_set i TF_kernel_satp (r_satp s) s;
     let s = tf_set i TF_kernel_sp (p_kstack (getp s i) + PGSIZE) s;
     let s = tf_set i TF_kernel_trap (sym_usertrap (sym s)) s;
     let s = tf_set i TF_kernel_hartid (r_tp s) s;
     let s = w_sstatus (r_sstatus s AND NOT SSTATUS_SPP OR SSTATUS_SPIE) s;
     Some (w_sepc (tf_get s i TF_epc) s)
   }"

datatype trap_out = TExited | TYielded | TReturn u64

definition usertrap_return :: "nat \<Rightarrow> 'a ktrap_scheme \<Rightarrow> (trap_out \<times> 'a ktrap_scheme) option" where
  "usertrap_return i s = do {
     s \<leftarrow> prepare_return s;
     Some (TReturn (MAKE_SATP (p_pagetable (getp s i))), s)
   }"

section \<open>Traps from user space\<close>

text \<open>A fault in the region that \<open>mapzero\<close> reserved, and any other page fault.\<close>

definition in_vr :: "proc \<Rightarrow> u64 \<Rightarrow> bool" where
  "in_vr p va \<longleftrightarrow> vr_active (p_vr p) \<and> vr_start (p_vr p) \<le> va \<and> va < vr_start (p_vr p) + scast (vr_size (p_vr p))"

definition count_fault :: "nat \<Rightarrow> 'a kproc_scheme \<Rightarrow> 'a kproc_scheme" where
  "count_fault i s = setp i (\<lambda>p. p\<lparr>p_pagefault_count := p_pagefault_count p + 1\<rparr>) s"

definition vr_fault :: "nat \<Rightarrow> u64 \<Rightarrow> 'a kproc_scheme \<Rightarrow> 'a kproc_scheme option" where
  "vr_fault i va s =
     (let (pa, s) = kalloc s
      in if pa = 0 then Some (setkilled i s)
         else do {
           let s = s\<lparr>pmem := memset (pmem s) pa 65 4096\<rparr>;
           (r, s) \<leftarrow> mappages (p_pagetable (getp s i)) (PGROUNDDOWN va) PGSIZE pa (PTE_W OR PTE_R OR PTE_U) s;
           if r \<noteq> 0 then do {
             s \<leftarrow> kfree pa s;
             Some (setkilled i s)
           } else Some (count_fault i s)
         })"

definition page_fault :: "nat \<Rightarrow> u64 \<Rightarrow> u64 \<Rightarrow> 'a kproc_scheme \<Rightarrow> 'a kproc_scheme option" where
  "page_fault i scause va s = do {
     s \<leftarrow> kprint (''page fault: pid=%d scause=%ld stval=0x%lx'' @ [CHR 0x0A])
            [Reg (scast (p_pid (getp s i))), Reg scause, Reg va] s;
     if in_vr (getp s i) va then vr_fault i va s
     else if va = 0 \<or> p_sz (getp s i) \<le> va then Some (setkilled i s)
     else do {
       (r, s) \<leftarrow> vmfault (p_pagetable (getp s i)) va s;
       Some (if r = 0 then setkilled i s else count_fault i s)
     }
   }"

definition bad_trap :: "nat \<Rightarrow> 'a ktrap_scheme \<Rightarrow> 'a ktrap_scheme option" where
  "bad_trap i s = do {
     s \<leftarrow> kprint (''usertrap(): unexpected scause 0x%lx pid=%d'' @ [CHR 0x0A])
            [Reg (r_scause s), Reg (scast (p_pid (getp s i)))] s;
     s \<leftarrow> kprint (''            sepc=0x%lx stval=0x%lx'' @ [CHR 0x0A]) [Reg (r_sepc s), Reg (r_stval s)] s;
     Some (setkilled i s)
   }"

abbreviation (input) SYS_hello :: int where "SYS_hello \<equiv> 27"

text \<open>The system-call branch; the flag is false when the process has exited.\<close>

definition user_ecall :: "u8 list \<Rightarrow> nat \<Rightarrow> 'a ktrap_scheme \<Rightarrow> (bool \<times> 'a ktrap_scheme) option" where
  "user_ecall pad i s =
     (if killed i s then do {
        s \<leftarrow> kexit (- 1) s;
        Some (False, s)
      } else do {
        let s = tf_set i TF_epc (tf_get s i TF_epc + 4) s;
        let sysnum = (ucast (tf_get s i TF_a7) :: u32);
        s \<leftarrow> (if SYS_hello \<le> sint sysnum
              then kprint (''[trap] pid %d: ecall from U-mode, scause=8, sepc=0x%lx, syscall=%d'' @ [CHR 0x0A])
                     [Reg (scast (p_pid (getp s i))), Reg (r_sepc s), Reg (scast sysnum)] s
              else Some s);
        syscall pad (intr_on s)
      })"

text \<open>\<open>plk\<close> is the lock of the current process when \<open>yield\<close> takes it.\<close>

definition usertrap :: "u8 list \<Rightarrow> spinlock \<Rightarrow> 'a ktrap_scheme \<Rightarrow> (trap_out \<times> 'a ktrap_scheme) option" where
  "usertrap pad plk s =
     (if r_sstatus s AND SSTATUS_SPP \<noteq> 0 then panic ''usertrap: not from user mode''
      else do {
        let s = w_stvec (sym_kernelvec (sym s)) s;
        i \<leftarrow> myproc s;
        let s = tf_set i TF_epc (r_sepc s) s;
        (alive, which_dev, s) \<leftarrow>
          (if r_scause s = 8 then do {
             (alive, s) \<leftarrow> user_ecall pad i s;
             Some (alive, 0, s)
           } else do {
             (which_dev, s) \<leftarrow> devintr s;
             if which_dev \<noteq> 0 then Some (True, which_dev, s)
             else if r_scause s = 15 \<or> r_scause s = 13 then do {
               s \<leftarrow> page_fault i (r_scause s) (r_stval s) s;
               Some (True, 0, s)
             } else do {
               s \<leftarrow> bad_trap i s;
               Some (True, 0, s)
             }
           });
        if \<not> alive then Some (TExited, s)
        else if killed i s then do {
          s \<leftarrow> kexit (- 1) s;
          Some (TExited, s)
        }
        else if which_dev = (2 :: nat) then do {
          s \<leftarrow> yield (unat (cpuid s)) (hart s) plk s;
          Some (TYielded, s)
        }
        else usertrap_return i s
      })"

section \<open>Traps from the kernel\<close>

definition kerneltrap_return :: "u64 \<Rightarrow> u64 \<Rightarrow> 'a ktrap_scheme \<Rightarrow> 'a ktrap_scheme" where
  "kerneltrap_return sepc sstatus s = w_sstatus sstatus (w_sepc sepc s)"

text \<open>The flag says whether the handler has yielded; it then goes on with \<open>kerneltrap_return\<close>.\<close>

definition kerneltrap :: "spinlock \<Rightarrow> 'a ktrap_scheme \<Rightarrow> (bool \<times> 'a ktrap_scheme) option" where
  "kerneltrap plk s =
     (let sepc = r_sepc s; sstatus = r_sstatus s
      in if sstatus AND SSTATUS_SPP = 0 then panic ''kerneltrap: not from supervisor mode''
         else if intr_get s then panic ''kerneltrap: interrupts enabled''
         else do {
           (which_dev, s) \<leftarrow> devintr s;
           if which_dev = 0 then panic ''kerneltrap''
           else if which_dev = 2 \<and> myproc s \<noteq> None then do {
             s \<leftarrow> yield (unat (cpuid s)) (hart s) plk s;
             Some (True, s)
           }
           else Some (False, kerneltrap_return sepc sstatus s)
         })"

section \<open>First return of a process\<close>

text \<open>\<open>forkret\<close> ends by calling \<open>userret\<close> in the trampoline page with the page table to use.\<close>

definition forkret :: "'a ktrap_scheme \<Rightarrow> (u64 \<times> u64 \<times> 'a ktrap_scheme) option" where
  "forkret s = do {
     i \<leftarrow> myproc s;
     s \<leftarrow> (if first s then do {
             s \<leftarrow> fsinit ROOTDEV s;
             let s = s\<lparr>first := False\<rparr>;
             (r, s) \<leftarrow> kexec (str ''/init'') [str ''/init''] s;
             let s = tf_set i TF_a0 (of_int r) s;
             if tf_get s i TF_a0 = - 1 then panic ''exec'' else Some s
           } else Some s);
     s \<leftarrow> prepare_return s;
     Some (TRAMPOLINE + (sym_userret (sym s) - sym_trampoline (sym s)), MAKE_SATP (p_pagetable (getp s i)), s)
   }"

section \<open>Boot\<close>

abbreviation (input) MSTATUS_MPP_MASK :: u64 where "MSTATUS_MPP_MASK \<equiv> 0x1800"
abbreviation (input) MSTATUS_MPP_S :: u64 where "MSTATUS_MPP_S \<equiv> 0x800"

definition timerinit :: "'a ktrap_scheme \<Rightarrow> 'a ktrap_scheme" where
  "timerinit s =
     (let s = w_mie (r_mie s OR 0x20) s;
          s = w_menvcfg (r_menvcfg s OR push_bit 63 1) s;
          s = w_mcounteren (r_mcounteren s OR 2) s
      in w_stimecmp (r_time s + 1000000) s)"

text \<open>\<open>start\<close> up to its \<open>mret\<close>; the address of \<open>main\<close> is an argument.\<close>

definition start :: "u64 \<Rightarrow> 'a ktrap_scheme \<Rightarrow> 'a ktrap_scheme" where
  "start main_addr s =
     (let x = r_mstatus s;
          x = x AND NOT MSTATUS_MPP_MASK;
          x = x OR MSTATUS_MPP_S;
          s = w_mstatus x s;
          s = w_mepc main_addr s;
          s = w_satp 0 s;
          s = w_medeleg 0xffff s;
          s = w_mideleg 0xffff s;
          s = w_sie (r_sie s OR 0x200 OR 0x20) s;
          s = w_pmpaddr0 0x3fffffffffffff s;
          s = w_pmpcfg0 0xf s;
          s = timerinit s
      in w_tp (scast (ucast (r_mhartid s) :: u32)) s)"

definition uart_boot :: "'a ktrap_scheme \<Rightarrow> 'a ktrap_scheme" where
  "uart_boot s = fold (\<lambda>(r, v). mmio_write (UART0 + of_nat r) (ucast v)) uartinit s"

text \<open>\<open>main\<close> on the first hart, up to the call of \<open>scheduler\<close>; \<open>rd\<close> is what the disk's registers read.\<close>

definition kmain :: "vregs \<Rightarrow> 'a ktrap_scheme \<Rightarrow> 'a ktrap_scheme option" where
  "kmain rd s = do {
     let s = consoleinit (uart_boot s);
     s \<leftarrow> kprint [CHR 0x0A] [] s;
     s \<leftarrow> kprint (''xv6 kernel is booting'' @ [CHR 0x0A]) [] s;
     s \<leftarrow> kprint [CHR 0x0A] [] s;
     s \<leftarrow> kinit s;
     s \<leftarrow> kvminit s;
     let s = kvminithart s;
     let s = procinit s;
     let s = trapinithart s;
     let s = plicinit s;
     let s = plicinithart s;
     let s = binit s;
     let s = iinit s;
     (ws, s) \<leftarrow> virtio_disk_init rd s;
     let s = fold (\<lambda>(r, v). mmio_write (VIRTIO0 + ucast r) v) ws s;
     userinit s
   }"

text \<open>The other harts, once the first has set \<open>started\<close>.\<close>

definition kmain_other :: "'a ktrap_scheme \<Rightarrow> 'a ktrap_scheme option" where
  "kmain_other s = do {
     s \<leftarrow> kprint (''hart %d starting'' @ [CHR 0x0A]) [Reg (scast (cpuid s))] s;
     let s = kvminithart s;
     let s = trapinithart s;
     Some (plicinithart s)
   }"

end
