(* ===== verification/SysMem.thy ===== *)
theory SysMem
  imports Trap
begin

text \<open>
  The memory system calls that this kernel adds, \<open>map_ro\<close> and \<open>mapzero\<close> of \<^verbatim>\<open>kernel/sysproc.c\<close>, together with the
  page faults of \<^verbatim>\<open>kernel/trap.c\<close> that fill a \<open>mapzero\<close> region: what they do to the user memory of the caller,
  and for which arguments the kernel does not survive them.
\<close>

section \<open>A page with given contents\<close>

lemma vpath_page: "vpath (PGROUNDDOWN va) = vpath va"
  using PX_page [of "PGROUNDDOWN va" va] by (simp add: vpath_def)

lemma page_below_MAXVA: "va < MAXVA \<Longrightarrow> PGROUNDDOWN va < MAXVA"
  by (simp add: word_less_nat_alt unat_PGROUNDDOWN)

lemma walk_alloc_present:
  "va < MAXVA \<Longrightarrow> tbl (pmem s) root (vpath va) \<noteq> None \<Longrightarrow> walk root va True s = Some (slot_of (pmem s) root va, s)"
  by (auto simp: walk_def not_le [symmetric] slot_of_def vpath_def vidx_def numeral_2_eq_2 next_tbl_def pte_at_def Let_def
      split: if_splits option.splits)

text \<open>A mapping below a table that is there does not need memory.\<close>

lemma mappages_present:
  assumes va: "aligned va" "va < MAXVA" and wf: "pt_wf R (pmem s) root"
    and m: "mappages root va PGSIZE pa fl s = Some (- 1, s')"
  shows "tbl (pmem s) root (vpath va) = None"
proof (rule ccontr)
  assume p: "tbl (pmem s) root (vpath va) \<noteq> None"
  then have "slot_of (pmem s) root va \<noteq> 0" using slot_of_eq(1) [OF wf] by blast
  then show False
    using m walk_alloc_present [OF va(2) p] va(1) by (auto simp: mappages_def mappages_loop.simps Let_def split: if_splits)
qed

lemma mappages_below_table:
  assumes va: "aligned va" "va < MAXVA" "lookup (pmem s) root va AND PTE_V = 0" and wf: "pt_wf R (pmem s) root"
    and tb: "tbl (pmem s) root (vpath va) \<noteq> None"
  obtains m where "mappages root va PGSIZE pa fl s = Some (0, s\<lparr>pmem := m\<rparr>)"
proof -
  have sl: "slot_of (pmem s) root va \<noteq> 0" using slot_of_eq(1) [OF wf] tb by blast
  have "mappages root va PGSIZE pa fl s = Some (0, s\<lparr>pmem := store64 (pmem s) (slot_of (pmem s) root va) (PA2PTE pa OR fl OR PTE_V)\<rparr>)"
    using walk_alloc_present [OF va(2) tb] va sl slot_of_eq(2) [OF wf sl]
    by (simp add: mappages_def mappages_loop.simps Let_def aligned_def)
  then show thesis by (rule that)
qed

lemma kalloc_getp: "kalloc s = (pg, s1) \<Longrightarrow> getp (s1\<lparr>pmem := M\<rparr>) i = getp s i"
  by (auto simp: kalloc_def getp_def Let_def split: if_splits)

text \<open>A fresh page \<open>pg\<close> with the contents \<open>M\<close> is mapped at \<open>va\<close>, or the caller gets it back.\<close>

lemma map_page_contents:
  fixes s :: "'a mach_scheme"
  assumes u: "uspace s root F" and F: "F \<noteq> {}" and k: "kalloc s = (pg, s1)" and M: "same_off {pg} (pmem s1) M"
    and va: "aligned va" "va < MAXVA" "lookup (pmem s) root va AND PTE_V = 0" and fl: "fl < 1024" "fl AND PTE_U \<noteq> 0"
  obtains (fail) s2 s3 where "mappages root va PGSIZE pg fl (s1\<lparr>pmem := M\<rparr>) = Some (- 1, s2)" "kfree pg s2 = Some s3"
    "ukeep s root F {} s3 {pg}" "tbl (pmem s) root (vpath va) = None"
    "\<And>x. x < MAXVA \<Longrightarrow> lookup (pmem s3) root x = lookup (pmem s) root x"
  | (ok) s2 F2 where "mappages root va PGSIZE pg fl (s1\<lparr>pmem := M\<rparr>) = Some (0, s2)"
    "ukeep s root F {x. PGROUNDDOWN x = va} s2 F2" "va \<in> upages (pmem s2) root"
    "lookup (pmem s2) root va = PA2PTE pg OR fl OR PTE_V"
    "\<And>k. k < 4096 \<Longrightarrow> umem (pmem s2) root (va + of_nat k) = M (pg + of_nat k)"
    "\<And>x. x < MAXVA \<Longrightarrow> PGROUNDDOWN x \<noteq> va \<Longrightarrow> lookup (pmem s2) root x = lookup (pmem s) root x"
proof -
  let ?D = "upages (pmem s) root"
  have o: "own s root F ?D" and inv: "vm_inv s root F" and km: "kmem_inv s F" using u by (auto simp: uspace_def own_def vm_inv_def)
  have pg: "pg \<in> F" "aligned pg" using kmem.alloc_some [OF km F k] km by (auto simp: kmem_inv_def)
  note ka = kalloc_keeps_tree [OF inv F k M]
  have pM: "pmem (s1\<lparr>pmem := M\<rparr>) = M" by simp
  have nv: "lookup (pmem (s1\<lparr>pmem := M\<rparr>)) root va AND PTE_V = 0" using va(3) ka(7) by simp
  show thesis
  proof (cases rule: mappages_one [OF ka(3) va(1,2) nv, of pg fl])
    case (1 s2)
    obtain s3 where s3: "kfree pg s2 = Some s3" "own s3 root {pg} ?D" "mem_only s s3"
      "\<And>va. va < MAXVA \<Longrightarrow> lookup (pmem s3) root va = lookup (pmem s) root va"
      "same_off (pt_pages (pmem s) root \<union> F) (pmem s) (pmem s3)"
      using map_fresh_fail [OF o F k M 1(1) 1(2) [unfolded pM]] by metis
    have "tbl M root (vpath va) = tbl (pmem s) root (vpath va)"
      by (rule tbl_same_off [OF _ ka(5) _ valid_vpath]) (use inv pg(1) in \<open>auto simp: vm_inv_def\<close>)
    moreover have "tbl M root (vpath va) = None"
      using mappages_present [OF va(1,2) _ 1(1)] ka(3) by (auto simp: vm_inv_def)
    ultimately have "tbl (pmem s) root (vpath va) = None" by simp
    with s3 show thesis by (intro fail [OF 1(1) s3(1) ukeep_failed_map [OF u pg(1) s3(2-5)]])
  next
    case (2 s2 F2)
    note mf = map_fresh_ok [OF o F k M va fl(1) 2(2) [unfolded pM]]
    have la: "lookup (pmem s2) root va = PA2PTE pg OR fl OR PTE_V" using mf(7) [OF va(2)] va(1) by simp
    have "(PA2PTE pg OR fl OR PTE_V) AND PTE_U \<noteq> 0"
      using fl(2) by (simp add: bit.conj_disj_distrib2 or_eq_0_iff)
    then have au: "va \<in> upages (pmem s2) root" using va la by (simp add: upages_def)
    have fr: "frame_of (pmem s2) root va = pg" using la pte_frame [OF mf(5) fl(1)] by (simp add: frame_of_def)
    have na: "va \<notin> ?D" using va(3) by (simp add: upages_def)
    have l': "lookup (pmem s2) root x = lookup (pmem s) root x" if "PGROUNDDOWN x \<in> ?D" for x
      using that na mf(7) [of "PGROUNDDOWN x"] by (auto simp: upages_def lookup_PGROUNDDOWN)
    have up: "upages (pmem s2) root = insert va ?D"
      using au mf(7) l' va by (auto simp: upages_def split: if_splits)
    have uk: "ukeep s root F {x. PGROUNDDOWN x = va} s2 F2"
    proof -
      have "umem (pmem s2) root x = umem (pmem s) root x" if x: "PGROUNDDOWN x \<in> ?D" for x
      proof -
        let ?pa = "frame_of (pmem s) root (PGROUNDDOWN x)"
        have "?pa \<in> frames (pmem s) root ?D" using x by (simp add: frames_def upages_live)
        then have "PGROUNDDOWN (?pa + of_nat (unat x mod 4096)) \<notin> pt_pages (pmem s) root \<union> (F - F2)"
          using frames_disj [OF u] PGROUNDDOWN_byte [OF uspace_frame(5) [OF u x], of "unat x mod 4096"] by auto
        moreover have "frame_of (pmem s2) root (PGROUNDDOWN x) = ?pa"
          using l' [of "PGROUNDDOWN x"] x by (simp add: frame_of_def)
        ultimately show ?thesis using mf(9) by (simp add: umem_alt same_off_def)
      qed
      then show ?thesis using mf(1-3) up l' by (auto simp: ukeep_def uview_def uspace_def)
    qed
    have "umem (pmem s2) root (va + of_nat k) = M (pg + of_nat k)" if "k < 4096" for k
      using that mf(8) [of "pg + of_nat k"] PGROUNDDOWN_byte [OF pg(2) that] PGROUNDDOWN_byte [OF va(1) that]
        page_mod [OF va(1) that] by (simp only: umem_alt fr)
    moreover have "lookup (pmem s2) root x = lookup (pmem s) root x" if "x < MAXVA" "PGROUNDDOWN x \<noteq> va" for x
      using mf(7) [OF that(1)] that(2) by auto
    ultimately show thesis by (rule ok [OF 2(1) uk au la])
  qed
qed

lemma upages_insert:
  assumes "va \<in> upages m' root" "\<And>x. x < MAXVA \<Longrightarrow> PGROUNDDOWN x \<noteq> va \<Longrightarrow> lookup m' root x = lookup m root x"
  shows "upages m' root = insert va (upages m root)"
proof -
  have "x \<in> upages m' root \<longleftrightarrow> x \<in> upages m root" if "x \<noteq> va" for x
  proof (cases "aligned x \<and> x < MAXVA")
    case True
    then show ?thesis using assms(2) [of x] that by (simp add: upages_def)
  next
    case False
    then show ?thesis by (auto simp: upages_def)
  qed
  then show ?thesis using assms(1) by (intro set_eqI) (metis insert_iff)
qed

section \<open>\<open>map_ro\<close>\<close>

lemma argaddr_0: "cur s = Some i \<Longrightarrow> argaddr 0 s = Some (tf_get s i TF_a0)"
  by (simp add: argaddr_def argraw_def myproc_def)

definition ro_page :: "nat \<Rightarrow> u8" where
  "ro_page k = (if k < length ro_msg then ro_msg ! k else 0)"

lemma length_ro_msg: "length ro_msg = 47"
  by (simp add: ro_msg_def str_def)

lemma ro_contents:
  fixes m :: phys
  assumes "aligned pg"
  defines "M \<equiv> store_bytes (memset m pg 0 4096) pg ro_msg"
  shows "same_off {pg} m M" "k < 4096 \<Longrightarrow> M (pg + of_nat k) = ro_page k"
proof -
  have z: "same_off {pg} m (memset m pg 0 4096)" using same_off_fill [OF assms(1)] by simp
  show "same_off {pg} m M"
    using same_off_trans [OF z same_off_store_bytes [OF assms(1), of 0 ro_msg]] by (simp add: M_def length_ro_msg)
  show "M (pg + of_nat k) = ro_page k" if "k < 4096"
    using store_in_page [OF assms(1), of 0 ro_msg k "memset m pg 0 4096"] that fill_page_same [OF assms(1) PGROUNDDOWN_byte [OF assms(1) that]]
    by (simp add: M_def length_ro_msg ro_page_def)
qed

lemma no_write_bit: "(PA2PTE pg OR (PTE_R OR PTE_U) OR PTE_V) AND PTE_W = 0"
proof -
  have b: "bit (4 :: u64) n \<longleftrightarrow> n = 2" for n using bit_exp_iff [of 2 n, where 'a = u64] by auto
  have "bit (PA2PTE pg AND 4) n \<longleftrightarrow> bit 0 n" for n
    unfolding bit_and_iff b by (cases "n = 2") (simp_all add: PA2PTE_def bit_push_bit_iff)
  then have "PA2PTE pg AND 4 = 0" by (intro bit_word_eqI)
  then show ?thesis by (simp add: bit.conj_disj_distrib2)
qed

lemma sys_map_ro_spec:
  fixes s :: "'a kproc_scheme"
  assumes u: "uspace s root F" and r: "runs s i root" and lo: "tf_get s i TF_a0 < MAXVA"
  defines "va \<equiv> PGROUNDDOWN (tf_get s i TF_a0)"
  obtains (refused) s' F' where "sys_map_ro s = Some (- 1, s')" "ukeep s root F {} s' F'"
    "\<And>x. x < MAXVA \<Longrightarrow> lookup (pmem s') root x = lookup (pmem s) root x"
  | (placed) s' F' where "sys_map_ro s = Some (0, setp i (\<lambda>p. p\<lparr>p_map_ro_va := va\<rparr>) s')"
    "ukeep s root F {x. PGROUNDDOWN x = va} s' F'" "va \<in> upages (pmem s') root" "lookup (pmem s') root va AND PTE_W = 0"
    "\<And>k. k < 4096 \<Longrightarrow> umem (pmem s') root (va + of_nat k) = ro_page k"
    "\<And>x. x < MAXVA \<Longrightarrow> PGROUNDDOWN x \<noteq> va \<Longrightarrow> lookup (pmem s') root x = lookup (pmem s) root x" "va \<notin> upages (pmem s) root"
proof -
  have me: "cur s = Some i" "p_pagetable (getp s i) = root" using r by (auto simp: runs_def)
  have wf: "pt_wf (ram s) (pmem s) root" and km: "kmem_inv s F" using u by (auto simp: uspace_def own_def vm_inv_def)
  have va: "aligned va" "va < MAXVA"
    using lo by (simp_all add: va_def page_below_MAXVA)
  let ?fl = "PTE_R OR PTE_U :: u64"
  show thesis
  proof (cases "lookup (pmem s) root va AND PTE_V \<noteq> 0 \<or> F = {}")
    case True
    then have "sys_map_ro s = Some (- 1, s)"
      using me va ismapped_eq [OF wf va(2)] kalloc_empty [of s] km
      by (auto simp: sys_map_ro_def argaddr_0 myproc_def va_def [symmetric] Let_def)
    then show thesis using refused [of s F] u by simp
  next
    case False
    then have v: "lookup (pmem s) root va AND PTE_V = 0" and F: "F \<noteq> {}" by auto
    obtain pg s1 where k: "kalloc s = (pg, s1)" by fastforce
    then have pg: "pg \<in> F" "pg \<noteq> 0" using kmem.alloc_some [OF km F k] by auto
    then have al: "aligned pg" using km by (auto simp: kmem_inv_def)
    define M where "M = store_bytes (memset (pmem s1) pg 0 4096) pg ro_msg"
    note M = ro_contents [OF al, where m = "pmem s1", folded M_def]
    have kp: "getp (s1\<lparr>pmem := M\<rparr>) i = getp s i" by (rule kalloc_getp [OF k])
    have ev: "sys_map_ro s = Option.bind (mappages root va PGSIZE pg ?fl (s1\<lparr>pmem := M\<rparr>))
        (\<lambda>(r, s). if r \<noteq> 0 then Option.bind (kfree pg s) (\<lambda>s. Some (- 1, s))
                 else Some (0, setp i (\<lambda>p. p\<lparr>p_map_ro_va := va\<rparr>) s))"
      using me va v k pg(2) ismapped_eq [OF wf va(2)] kp
      unfolding va_def by (simp add: sys_map_ro_def argaddr_0 myproc_def Let_def M_def getp_def)
    have fl: "?fl < 1024" "?fl AND PTE_U \<noteq> 0" by simp_all
    show thesis
    proof (cases rule: map_page_contents [OF u F k M(1) va v fl])
      case (1 s2 s3)
      then show thesis using refused [of s3 "{pg}"] ev by simp
    next
      case (2 s2 F2)
      have "(PA2PTE pg OR ?fl OR PTE_V) AND PTE_W = 0"
        by (rule no_write_bit)
      moreover have "va \<notin> upages (pmem s) root" using v by (simp add: upages_def)
      ultimately show thesis using placed [of s2 F2] ev 2 M(2) by simp
    qed
  qed
qed

lemma sys_map_ro_below_table:
  fixes s :: "'a kproc_scheme"
  assumes u: "uspace s root F" and r: "runs s i root" and lo: "tf_get s i TF_a0 < MAXVA" and F: "F \<noteq> {}"
    and nv: "lookup (pmem s) root (tf_get s i TF_a0) AND PTE_V = 0" and tb: "tbl (pmem s) root (vpath (tf_get s i TF_a0)) \<noteq> None"
  obtains s' where "sys_map_ro s = Some (0, s')" "freelist s' = load64 (pmem s) (freelist s)"
proof -
  let ?va = "PGROUNDDOWN (tf_get s i TF_a0)"
  have me: "cur s = Some i" "p_pagetable (getp s i) = root" using r by (auto simp: runs_def)
  have inv: "vm_inv s root F" and wf: "pt_wf (ram s) (pmem s) root" and km: "kmem_inv s F"
    using u by (auto simp: uspace_def own_def vm_inv_def)
  have va: "aligned ?va" "?va < MAXVA" "lookup (pmem s) root ?va AND PTE_V = 0"
    using lo nv by (simp_all add: page_below_MAXVA lookup_PGROUNDDOWN)
  obtain pg s1 where k: "kalloc s = (pg, s1)" by fastforce
  then have pg: "pg \<in> F" "pg \<noteq> 0" "aligned pg" using kmem.alloc_some [OF km F k] km by (auto simp: kmem_inv_def)
  have fl: "freelist s1 = load64 (pmem s) (freelist s)" using k pg(2) by (auto simp: kalloc_def Let_def split: if_splits)
  define M where "M = store_bytes (memset (pmem s1) pg 0 4096) pg ro_msg"
  note M = ro_contents [OF pg(3), where m = "pmem s1", folded M_def]
  note ka = kalloc_keeps_tree [OF inv F k M(1)]
  have "tbl M root (vpath ?va) = tbl (pmem s) root (vpath ?va)"
    by (rule tbl_same_off [OF _ ka(5) _ valid_vpath]) (use inv pg(1) in \<open>auto simp: vm_inv_def\<close>)
  then have tb': "tbl (pmem (s1\<lparr>pmem := M\<rparr>)) root (vpath ?va) \<noteq> None" using tb by (simp add: vpath_page)
  have wf': "pt_wf (ram (s1\<lparr>pmem := M\<rparr>)) (pmem (s1\<lparr>pmem := M\<rparr>)) root" using ka(3) by (simp add: vm_inv_def)
  have nv': "lookup (pmem (s1\<lparr>pmem := M\<rparr>)) root ?va AND PTE_V = 0" using va(3) ka(7) by simp
  obtain m where "mappages root ?va PGSIZE pg (PTE_R OR PTE_U) (s1\<lparr>pmem := M\<rparr>) = Some (0, s1\<lparr>pmem := M\<rparr>\<lparr>pmem := m\<rparr>)"
    by (rule mappages_below_table [OF va(1,2) nv' wf' tb'])
  then have "sys_map_ro s = Some (0, setp i (\<lambda>p. p\<lparr>p_map_ro_va := ?va\<rparr>) (s1\<lparr>pmem := m\<rparr>))"
    using me va k pg(2) ismapped_eq [OF wf va(2)] kalloc_getp [OF k, of M i]
    by (simp add: sys_map_ro_def argaddr_0 myproc_def Let_def M_def getp_def)
  then show thesis using that fl by simp
qed

section \<open>\<open>mapzero\<close> and page faults\<close>

lemma argint_0: "cur s = Some i \<Longrightarrow> argint 0 s = Some (ucast (tf_get s i TF_a0))"
  by (simp add: argint_def argraw_def myproc_def)

lemma kprint_keeps: "kprint fmt ap s = Some s' \<Longrightarrow> s' = s\<lparr>conout := conout s'\<rparr>"
  by (auto simp: kprint_def)

lemma fault_msg:
  obtains bs where "kprint (''page fault: pid=%d scause=%ld stval=0x%lx'' @ [CHR 0x0A]) [Reg a, Reg b, Reg c] s =
    Some (s\<lparr>conout := conout s @ bs\<rparr>)"
  by (simp add: kprint_def str_def conv_def next_reg_def byte_at_def)

lemma fault_contents:
  fixes m :: phys
  assumes "aligned pg"
  shows "same_off {pg} m (memset m pg 65 4096)" "k < 4096 \<Longrightarrow> memset m pg 65 4096 (pg + of_nat k) = 65"
  using same_off_fill [OF assms, of m 65] fill_page_same [OF assms PGROUNDDOWN_byte [OF assms]] by simp_all

lemma vr_fault_spec:
  fixes s :: "'a kproc_scheme"
  assumes u: "uspace s root F" and r: "runs s i root" and lo: "va < MAXVA"
    and nv: "lookup (pmem s) root va AND PTE_V = 0"
  defines "pg \<equiv> PGROUNDDOWN va"
  obtains (no_memory) s' F' where "vr_fault i va s = Some (setkilled i s')" "ukeep s root F {} s' F'"
    "F = {} \<or> tbl (pmem s) root (vpath va) = None"
  | (filled) s' F' where "vr_fault i va s = Some (count_fault i s')" "ukeep s root F {x. PGROUNDDOWN x = pg} s' F'"
    "pg \<in> upages (pmem s') root" "\<And>k. k < 4096 \<Longrightarrow> umem (pmem s') root (pg + of_nat k) = 65"
proof -
  have me: "p_pagetable (getp s i) = root" using r by (auto simp: runs_def)
  have wf: "pt_wf (ram s) (pmem s) root" and km: "kmem_inv s F" using u by (auto simp: uspace_def own_def vm_inv_def)
  have va: "aligned pg" "pg < MAXVA" "lookup (pmem s) root pg AND PTE_V = 0"
    using lo nv by (simp_all add: pg_def page_below_MAXVA lookup_PGROUNDDOWN)
  show thesis
  proof (cases "F = {}")
    case True
    then show thesis using no_memory [of s F] u km kalloc_empty [of s] by (simp add: vr_fault_def)
  next
    case False
    obtain q s1 where k: "kalloc s = (q, s1)" by fastforce
    then have q: "q \<noteq> 0" "aligned q" using kmem.alloc_some [OF km False k] km by (auto simp: kmem_inv_def)
    define M where "M = memset (pmem s1) q 65 4096"
    note M = fault_contents [OF q(2), where m = "pmem s1", folded M_def]
    have kp: "getp (s1\<lparr>pmem := M\<rparr>) i = getp s i" by (rule kalloc_getp [OF k])
    let ?fl = "PTE_W OR PTE_R OR PTE_U :: u64"
    have ev: "vr_fault i va s = Option.bind (mappages root pg PGSIZE q ?fl (s1\<lparr>pmem := M\<rparr>))
        (\<lambda>(r, s). if r \<noteq> 0 then Option.bind (kfree q s) (\<lambda>s. Some (setkilled i s)) else Some (count_fault i s))"
      using k q(1) me kp by (simp add: vr_fault_def Let_def M_def pg_def getp_def)
    have fl: "?fl < 1024" "?fl AND PTE_U \<noteq> 0" by simp_all
    show thesis
      by (cases rule: map_page_contents [OF u False k M(1) va fl]) (use no_memory filled ev M(2) in \<open>simp_all add: pg_def vpath_page\<close>)
  qed
qed

text \<open>A page of the region that is mapped already is mapped again, which \<open>mappages\<close> does not accept.\<close>

lemma vr_fault_mapped:
  fixes s :: "'a kproc_scheme"
  assumes u: "uspace s root F" and r: "runs s i root" and lo: "va < MAXVA" and F: "F \<noteq> {}"
    and v: "lookup (pmem s) root va AND PTE_V \<noteq> 0"
  shows "vr_fault i va s = None"
proof -
  have me: "p_pagetable (getp s i) = root" using r by (auto simp: runs_def)
  have inv: "vm_inv s root F" and km: "kmem_inv s F" using u by (auto simp: uspace_def own_def vm_inv_def)
  obtain q s1 where k: "kalloc s = (q, s1)" by fastforce
  then have q: "q \<noteq> 0" "aligned q" using kmem.alloc_some [OF km F k] km by (auto simp: kmem_inv_def)
  define M where "M = memset (pmem s1) q 65 4096"
  note M = fault_contents [OF q(2), where m = "pmem s1", folded M_def]
  note ka = kalloc_keeps_tree [OF inv F k M(1)]
  have kp: "getp (s1\<lparr>pmem := M\<rparr>) i = getp s i" by (rule kalloc_getp [OF k])
  let ?s = "s1\<lparr>pmem := M\<rparr>" and ?pg = "PGROUNDDOWN va"
  have lk: "lookup (pmem ?s) root ?pg AND PTE_V \<noteq> 0" using ka(7) v by (simp add: lookup_PGROUNDDOWN)
  have wf: "pt_wf (ram ?s) (pmem ?s) root" using ka(3) by (simp add: vm_inv_def)
  have lo': "?pg < MAXVA" using lo by (rule page_below_MAXVA)
  have nz: "lookup (pmem ?s) root ?pg \<noteq> 0" using lk by auto
  then have sl: "slot_of (pmem ?s) root ?pg \<noteq> 0" using slot_of_eq(3) [OF wf] by blast
  have "tbl (pmem ?s) root (vpath ?pg) \<noteq> None" using nz by (auto simp: lookup_def split: option.splits)
  then have "walk root ?pg True ?s = walk root ?pg False ?s"
    using walk_alloc_present [OF lo'] walk_lookup [OF lo'] by metis
  then have "mappages root ?pg PGSIZE q (PTE_W OR PTE_R OR PTE_U) ?s = None"
    using lk slot_of_eq(2) [OF wf sl] sl walk_lookup [OF lo', of root ?s]
    by (simp add: mappages_def mappages_loop.simps)
  then show ?thesis using k q(1) me kp by (simp add: vr_fault_def Let_def M_def getp_def)
qed

text \<open>The kernel's own first access to a page of the process fills it with zeros.\<close>

lemma copyin_fault:
  fixes s :: "'a kproc_scheme"
  assumes u: "uspace s root F" and r: "runs s i root" and lo: "va < p_sz (getp s i)"
    and nv: "lookup (pmem s) root va AND PTE_V = 0" and F: "F \<noteq> {}" and tb: "tbl (pmem s) root (vpath va) \<noteq> None"
  obtains s' F' where "copyin root va 1 s = Some (0, [0], s')" "ukeep s root F {x. PGROUNDDOWN x = PGROUNDDOWN va} s' F'"
proof -
  let ?p = "PGROUNDDOWN va" and ?fl = "PTE_W OR PTE_U OR PTE_R :: u64"
  have me: "cur s = Some i" "p_pagetable (getp s i) = root" "p_sz (getp s i) \<le> MAXVA" using r by (auto simp: runs_def)
  have inv: "vm_inv s root F" and wf: "pt_wf (ram s) (pmem s) root" and km: "kmem_inv s F"
    using u by (auto simp: uspace_def own_def vm_inv_def)
  have lom: "va < MAXVA" using lo me(3) by simp
  have "?p \<le> va" by (simp add: word_le_nat_alt unat_PGROUNDDOWN)
  then have ns: "\<not> p_sz (getp s i) \<le> ?p" using lo by simp
  have va: "aligned ?p" "?p < MAXVA" "lookup (pmem s) root ?p AND PTE_V = 0"
    using lom nv by (simp_all add: page_below_MAXVA lookup_PGROUNDDOWN)
  obtain q s1 where k: "kalloc s = (q, s1)" by fastforce
  then have q: "q \<noteq> 0" "aligned q" using kmem.alloc_some [OF km F k] km by (auto simp: kmem_inv_def)
  define M where "M = memset (pmem s1) q 0 4096"
  have M: "same_off {q} (pmem s1) M" "\<And>k. k < 4096 \<Longrightarrow> M (q + of_nat k) = 0"
    using same_off_fill [OF q(2)] fill_page_same [OF q(2) PGROUNDDOWN_byte [OF q(2)]] by (simp_all add: M_def)
  have fl: "?fl < 1024" "?fl AND PTE_U \<noteq> 0" by simp_all
  have w0: "walkaddr root ?p s = Some 0" using walkaddr_eq [OF wf, of ?p] va(3) by simp
  have vf: "vmfault root ?p s = Option.bind (mappages root ?p PGSIZE q ?fl (s1\<lparr>pmem := M\<rparr>))
      (\<lambda>(r, s). if r \<noteq> 0 then Option.bind (kfree q s) (\<lambda>s. Some (0, s)) else Some (q, s))"
    using me ns va k q(1) ismapped_eq [OF wf va(2)] by (simp add: vmfault_def myproc_def Let_def M_def)
  show thesis
  proof (cases rule: map_page_contents [OF u F k M(1) va fl])
    case (1 s2 s3)
    then show thesis using tb by (simp add: vpath_page)
  next
    case (2 s2 F2)
    have "user_page root ?p s = Some (q, s2)" using w0 vf 2(1) by (simp add: user_page_def)
    moreover have "pmem s2 (q + (va - ?p)) = 0"
    proof -
      have "frame_of (pmem s2) root ?p = q"
        using 2(4) pte_frame [OF kalloc_keeps_tree(2) [OF inv F k M(1)] fl(1)] by (simp add: frame_of_def)
      then show ?thesis
        using 2(5) [of "unat va mod 4096"] M(2) [of "unat va mod 4096"] page_addr [of va]
        by (simp add: umem_alt PGROUNDDOWN_offset)
    qed
    moreover have "min (unat (PGSIZE - (va - ?p))) 1 = 1" using room_in_page_pos [of va] by simp
    ultimately have "copyin root va 1 s = Some (0, [0], s2)"
      using q(1) by (subst copyin.simps) (simp add: Let_def copyin.simps load_bytes_def)
    then show thesis using that 2(2) by blast
  qed
qed

section \<open>\<open>sbrk\<close>\<close>




section \<open>A sample caller\<close>

text \<open>The sample process with the argument \<open>a\<close> and the system-call number \<open>num\<close> in its trap frame, which is at address 0.\<close>

definition demo_call :: "u64 \<Rightarrow> u64 \<Rightarrow> kfs" where
  "demo_call num a = tf_set 0 TF_a0 a (tf_set 0 TF_a7 num demo_kfs)"

lemma uspace_elsewhere:
  assumes u: "uspace s root F" and off: "same_off P (pmem s) M" and P: "P \<inter> (F \<union> pt_pages (pmem s) root) = {}"
  shows "uspace (s\<lparr>pmem := M\<rparr>) root F" "upages M root = upages (pmem s) root" "lookup M root va = lookup (pmem s) root va"
proof -
  have inv: "vm_inv s root F" using u by (simp add: uspace_def own_def)
  then have wf: "pt_wf (ram s) (pmem s) root" and km: "kmem_inv s F" by (auto simp: vm_inv_def)
  have Q: "P \<inter> pt_pages (pmem s) root = {}" "P \<inter> F = {}" using P by auto
  note pt = pt_same_off [OF wf off Q(1)]
  show l: "lookup M root va = lookup (pmem s) root va" for va by (rule pt(3))
  then show up: "upages M root = upages (pmem s) root" by (simp add: upages_def)
  have "kmem_inv (s\<lparr>pmem := M\<rparr>) F" using kmem_inv_frame [OF km _ Q(2), of "s\<lparr>pmem := M\<rparr>"] off by simp
  then have "vm_inv (s\<lparr>pmem := M\<rparr>) root F" using inv pt by (simp add: vm_inv_def ram_def page_in_ram_def)
  moreover have "frames (pmem s) root (upages (pmem s) root) \<inter> (F \<union> pt_pages M root) = {}"
    using u pt(2) by (auto simp: uspace_def own_def)
  ultimately have "own (s\<lparr>pmem := M\<rparr>) root F (upages (pmem s) root)"
    using own_cong [of s root F "upages (pmem s) root" "s\<lparr>pmem := M\<rparr>" F] u l by (simp add: uspace_def)
  then show "uspace (s\<lparr>pmem := M\<rparr>) root F" by (simp add: uspace_def up)
qed

lemma demo_call_frame:
  "demo_call num a = demo_kfs\<lparr>pmem := store64 (store64 demo_mem 168 num) 112 a\<rparr>"
  "same_off {0} demo_mem (store64 (store64 demo_mem 168 num) 112 a)"
proof -
  show "demo_call num a = demo_kfs\<lparr>pmem := store64 (store64 demo_mem 168 num) 112 a\<rparr>"
    by (simp add: demo_call_def tf_set_def demo_kfs_def getp_def demo_proc_def blank_proc_def)
  have "same_off {0} m (store64 m 112 v)" "same_off {0} m (store64 m 168 v)" for m v
    using same_off_store64 [OF aligned_0, of 14 m v] same_off_store64 [OF aligned_0, of 21 m v] by simp_all
  from same_off_trans [OF this(2) this(1)] show "same_off {0} demo_mem (store64 (store64 demo_mem 168 num) 112 a)" by simp
qed

lemma demo_call_runs:
  "uspace (demo_call num a) demo_root {0x87FFF000, 0x87FFE000}" "runs (demo_call num a) 0 demo_root"
  "lookup (pmem (demo_call num a)) demo_root va = lookup demo_mem demo_root va" "upages (pmem (demo_call num a)) demo_root = {0}"
  "cur (demo_call num a) = Some 0" "getp (demo_call num a) 0 = demo_proc" "length (procs (demo_call num a)) = 1"
  using uspace_elsewhere [OF demo_kfs_runs(1), of "{0}" "store64 (store64 demo_mem 168 num) 112 a"] demo_call_frame [of num a]
    demo_kfs_runs(2) demo_table(2) demo_upages
  by (simp_all add: demo_kfs_def runs_def getp_def)

lemma demo_call_args: "tf_get (demo_call num a) 0 TF_a0 = a" "tf_get (demo_call num a) 0 TF_a7 = num"
proof -
  have p: "p_trapframe (getp (demo_call num a) 0) = 0" by (simp add: demo_call_runs(6) demo_proc_def blank_proc_def)
  have m: "pmem (demo_call num a) = store64 (store64 demo_mem 168 num) 112 a" by (simp add: demo_call_frame)
  show "tf_get (demo_call num a) 0 TF_a0 = a" unfolding tf_get_def p m by simp
  show "tf_get (demo_call num a) 0 TF_a7 = num"
    using load64_store64_cell [of 0 0 14 21 "store64 demo_mem 168 num" a] unfolding tf_get_def p m by simp
qed

section \<open>Properties\<close>

text \<open>C24: \<open>map_ro\<close> of an address below \<open>MAXVA\<close> returns. On 0 exactly one page is new, the page of the address: it is
  mapped without write permission, it reads as the kernel's message followed by zeros, and its address is recorded in the
  process; every other address is translated as before. Otherwise the call returns -1 and every address is translated as
  before, so nothing is mapped. In both cases every user page there was keeps its contents.\<close>

theorem map_ro_maps:
  fixes s :: "'a kproc_scheme"
  assumes "uspace s root F" "runs s i root" "tf_get s i TF_a0 < MAXVA"
  defines "va \<equiv> PGROUNDDOWN (tf_get s i TF_a0)"
  shows "\<exists>r s' F'. sys_map_ro s = Some (r, s') \<and>
    (if r = 0 then uview s root F {x. PGROUNDDOWN x = va} s' F' \<and>
         va \<notin> upages (pmem s) root \<and> upages (pmem s') root = insert va (upages (pmem s) root) \<and>
         (\<forall>x<MAXVA. PGROUNDDOWN x \<noteq> va \<longrightarrow> lookup (pmem s') root x = lookup (pmem s) root x) \<and>
         lookup (pmem s') root va AND PTE_W = 0 \<and> (\<forall>k<4096. umem (pmem s') root (va + of_nat k) = ro_page k) \<and>
         procs s' = procs (setp i (\<lambda>p. p\<lparr>p_map_ro_va := va\<rparr>) s)
     else r = - 1 \<and> uview s root F {} s' F' \<and> upages (pmem s') root = upages (pmem s) root \<and>
         (\<forall>x<MAXVA. lookup (pmem s') root x = lookup (pmem s) root x) \<and> procs s' = procs s)"
proof (cases rule: sys_map_ro_spec [OF assms(1-3)])
  case (1 s' F')
  have "procs s' = procs s" using ukeepD(2) [OF 1(2)] mem_only_kproc by blast
  moreover have "upages (pmem s') root = upages (pmem s) root" using 1(3) by (auto simp: upages_def)
  ultimately show ?thesis using 1 by (intro exI [of _ "- 1"] exI [of _ s'] exI [of _ F']) (simp add: ukeep_def)
next
  case (2 s' F')
  let ?t = "setp i (\<lambda>p. p\<lparr>p_map_ro_va := va\<rparr>) s'"
  note 2 = 2 [folded va_def]
  have "uview s root F {x. PGROUNDDOWN x = va} ?t F'" using 2(2) by (auto simp: ukeep_def intro: uview_cong)
  moreover have "upages (pmem s') root = insert va (upages (pmem s) root)" by (rule upages_insert [OF 2(3,6)])
  moreover have "procs s' = procs s" using ukeepD(2) [OF 2(2)] mem_only_kproc by blast
  ultimately show ?thesis
    using 2 by (intro exI [of _ 0] exI [of _ ?t] exI [of _ F']) (simp add: setp_def)
qed

theorem map_ro_maps_witness:
  "\<exists>r s' F'. sys_map_ro (demo_call 30 0x40000123) = Some (r, s') \<and>
    (if r = 0 then upages (pmem s') demo_root = {0, 0x40000000} \<and> umem (pmem s') demo_root 0x40000000 = 72
     else r = - 1 \<and> upages (pmem s') demo_root = {0})"
proof -
  have a: "tf_get (demo_call 30 0x40000123) 0 TF_a0 < MAXVA" "PGROUNDDOWN (tf_get (demo_call 30 0x40000123) 0 TF_a0) = 0x40000000"
    by (simp_all add: demo_call_args PGROUNDDOWN_def)
  have "ro_page 0 = 72" by (simp add: ro_page_def ro_msg_def str_def)
  then show ?thesis
    using map_ro_maps [OF demo_call_runs(1,2) a(1)] unfolding a(2) demo_call_runs(4)
    by (fastforce split: if_splits)
qed

text \<open>C25: a user process that calls \<open>map_ro\<close> with an address at or above \<open>MAXVA\<close> panics the kernel.\<close>

theorem map_ro_panics:
  assumes "cur s = Some i" "tf_get s i TF_a7 = 30" "MAXVA \<le> tf_get s i TF_a0"
  shows "syscall pad s = None"
proof -
  have "MAXVA \<le> PGROUNDDOWN (tf_get s i TF_a0)"
    using assms(3) by (auto simp: word_le_nat_alt unat_PGROUNDDOWN)
  then have "sys_map_ro s = None"
    using assms(1) by (simp add: sys_map_ro_def argaddr_0 myproc_def ismapped_def walk_def Let_def)
  then show ?thesis using assms(1,2) by (simp add: syscall_def handler_def syscalls_def myproc_def ret_def)
qed

theorem map_ro_panics_witness: "syscall [] (demo_call 30 0x4000000000) = None"
  by (rule map_ro_panics [OF demo_call_runs(5)]) (simp_all add: demo_call_args)



text \<open>C27: \<open>mapzero\<close> does not check the new size: when it ends above \<open>MAXVA\<close> the call succeeds, and the next system call
  that reads user memory at \<open>MAXVA\<close> panics the kernel.\<close>

theorem mapzero_overflow_panics:
  assumes "cur s = Some i" "i < length (procs s)" and n: "0 < sint (ucast (tf_get s i TF_a0) :: u32)"
    and big: "MAXVA < p_sz (getp s i) + PGROUNDUP (scast (ucast (tf_get s i TF_a0) :: u32))"
  shows "\<exists>s'. sys_mapzero s = Some (p_sz (getp s i), s') \<and> copyin (p_pagetable (getp s' i)) MAXVA 1 s' = None"
proof -
  let ?al = "PGROUNDUP (scast (ucast (tf_get s i TF_a0) :: u32))"
  define s' where "s' = setp i (\<lambda>p. p\<lparr>p_vr := \<lparr>vr_start = p_sz (getp s i), vr_size = ucast ?al, vr_active = True\<rparr>,
    p_sz := p_sz p + ?al\<rparr>) s"
  have "sys_mapzero s = Some (p_sz (getp s i), s')"
    using assms(1,2) n by (simp add: sys_mapzero_def argint_0 myproc_def s'_def Let_def)
  moreover have "copyin (p_pagetable (getp s' i)) MAXVA 1 s' = None"
  proof -
    have "PGROUNDDOWN MAXVA = MAXVA" by (simp add: PGROUNDDOWN_def)
    moreover have "user_page (p_pagetable (getp s' i)) MAXVA s' = None"
      using assms(1,2) big \<open>PGROUNDDOWN MAXVA = MAXVA\<close>
      by (simp add: user_page_def walkaddr_def vmfault_def myproc_def s'_def ismapped_def walk_def not_le Let_def)
    ultimately show ?thesis by (subst copyin.simps) (simp add: Let_def)
  qed
  ultimately show ?thesis by blast
qed

theorem mapzero_overflow_panics_witness:
  "\<exists>s'. sys_mapzero (setp 0 (\<lambda>p. p\<lparr>p_sz := TRAPFRAME\<rparr>) (demo_call 31 0x100000)) = Some (TRAPFRAME, s') \<and>
     copyin (p_pagetable (getp s' 0)) MAXVA 1 s' = None"
proof -
  let ?s = "setp 0 (\<lambda>p. p\<lparr>p_sz := TRAPFRAME\<rparr>) (demo_call 31 0x100000)"
  have a: "cur ?s = Some 0" "0 < length (procs ?s)" "getp ?s 0 = demo_proc\<lparr>p_sz := TRAPFRAME\<rparr>" by (simp_all add: demo_call_runs)
  have "tf_get ?s 0 TF_a0 = 0x100000"
    using demo_call_args(1) [of 31 "0x100000"] by (simp add: tf_get_def a(3) demo_call_runs)
  then show ?thesis using mapzero_overflow_panics [OF a(1,2)] by (simp add: a(3) PGROUNDUP_def)
qed

text \<open>C28: the first touch of a page of a \<open>mapzero\<close> region fills it with the letter A when the process itself touches it,
  and with zeros when a system call reads or writes it on behalf of the process.\<close>

theorem mapzero_contents:
  fixes s :: "'a kproc_scheme"
  assumes u: "uspace s root F" and r: "runs s i root" and i: "i < length (procs s)"
    and va: "in_vr (getp s i) va" "va < p_sz (getp s i)" "lookup (pmem s) root va AND PTE_V = 0"
    and F: "F \<noteq> {}" "tbl (pmem s) root (vpath va) \<noteq> None"
  shows "(\<exists>s'. page_fault i scause va s = Some s' \<and> killed i s' = killed i s \<and>
      (\<forall>k<4096. umem (pmem s') root (PGROUNDDOWN va + of_nat k) = 65)) \<and>
    (\<exists>s'. copyin root va 1 s = Some (0, [0], s'))"
proof -
  have lo: "va < MAXVA" using va(2) r by (auto simp: runs_def)
  obtain bs where pr: "kprint (''page fault: pid=%d scause=%ld stval=0x%lx'' @ [CHR 0x0A])
      [Reg (scast (p_pid (getp s i))), Reg scause, Reg va] s = Some (s\<lparr>conout := conout s @ bs\<rparr>)" by (rule fault_msg)
  let ?s = "s\<lparr>conout := conout s @ bs\<rparr>"
  have u': "uspace ?s root F" "runs ?s i root" using uspace_cong [of ?s s] u r by (simp_all add: runs_def getp_def)
  have g: "getp ?s i = getp s i" by (simp add: getp_def)
  have nv: "lookup (pmem ?s) root va AND PTE_V = 0" using va(3) by simp
  have pf: "page_fault i scause va s = vr_fault i va ?s" using pr va(1) g by (simp add: page_fault_def)
  have "\<exists>s'. page_fault i scause va s = Some s' \<and> killed i s' = killed i s \<and>
      (\<forall>k<4096. umem (pmem s') root (PGROUNDDOWN va + of_nat k) = 65)"
  proof (cases rule: vr_fault_spec [OF u' lo nv])
    case (1 s' F')
    then show ?thesis using F by simp
  next
    case (2 s' F')
    have "procs s' = procs ?s" using ukeepD(2) [OF 2(2)] mem_only_kproc(1) by blast
    then show ?thesis using 2 pf i by (simp add: count_fault_def killed_def getp_def setp_def)
  qed
  moreover have "\<exists>s'. copyin root va 1 s = Some (0, [0], s')"
    using copyin_fault [OF u r va(2,3) F] by metis
  ultimately show ?thesis by blast
qed

text \<open>The sample process with a region of two pages behind its only page.\<close>

definition demo_region :: "u64 \<Rightarrow> kfs" where
  "demo_region a = setp 0 (\<lambda>p. p\<lparr>p_sz := 12288, p_vr := \<lparr>vr_start = 4096, vr_size = 8192, vr_active = True\<rparr>\<rparr>) (demo_call 30 a)"

lemma demo_region_runs:
  "uspace (demo_region a) demo_root {0x87FFF000, 0x87FFE000}" "runs (demo_region a) 0 demo_root" "0 < length (procs (demo_region a))"
  "in_vr (getp (demo_region a) 0) 4096" "tf_get (demo_region a) 0 TF_a0 = a" "p_sz (getp (demo_region a) 0) = 12288"
  "lookup (pmem (demo_region a)) demo_root va = lookup demo_mem demo_root va"
proof -
  show "uspace (demo_region a) demo_root {0x87FFF000, 0x87FFE000}"
    using uspace_cong [of "demo_region a" "demo_call 30 a"] demo_call_runs(1) [of 30 a] by (simp add: demo_region_def)
  have g: "getp (demo_region a) 0 = demo_proc\<lparr>p_sz := 12288, p_vr := \<lparr>vr_start = 4096, vr_size = 8192, vr_active = True\<rparr>\<rparr>"
    by (simp add: demo_region_def demo_call_runs)
  then show "runs (demo_region a) 0 demo_root" "in_vr (getp (demo_region a) 0) 4096" "p_sz (getp (demo_region a) 0) = 12288"
    by (simp_all add: runs_def demo_region_def demo_call_runs demo_proc_def in_vr_def)
  show "0 < length (procs (demo_region a))" "lookup (pmem (demo_region a)) demo_root va = lookup demo_mem demo_root va"
    by (simp_all add: demo_region_def demo_call_runs)
  show "tf_get (demo_region a) 0 TF_a0 = a"
    using demo_call_args(1) [of 30 a] g by (simp add: tf_get_def demo_region_def demo_call_runs)
qed

lemma demo_region_table:
  "tbl (pmem (demo_region a)) demo_root (vpath 4096) \<noteq> None" "lookup (pmem (demo_region a)) demo_root 4096 AND PTE_V = 0"
proof -
  have wf: "pt_wf (ram (demo_region a)) (pmem (demo_region a)) demo_root"
    using demo_region_runs(1) by (simp add: uspace_def own_def vm_inv_def)
  have v: "vpath 4096 = vpath 0" by (simp add: vpath_def PX_def)
  have "lookup (pmem (demo_region a)) demo_root 0 \<noteq> 0" unfolding demo_region_runs(7) using demo_table(3) [of 0] by (simp add: PA2PTE_def)
  then show "tbl (pmem (demo_region a)) demo_root (vpath 4096) \<noteq> None" unfolding v by (auto simp: lookup_def split: option.splits)
  show "lookup (pmem (demo_region a)) demo_root 4096 AND PTE_V = 0"
    unfolding demo_region_runs(7) using demo_table(3) [of 4096] by (simp add: PGROUNDDOWN_def)
qed

theorem mapzero_contents_witness:
  "(\<exists>s'. page_fault 0 13 4096 (demo_region 0) = Some s' \<and> umem (pmem s') demo_root 4096 = 65) \<and>
   (\<exists>s'. copyin demo_root 4096 1 (demo_region 0) = Some (0, [0], s'))"
proof -
  have lo: "4096 < p_sz (getp (demo_region 0) 0)" by (simp add: demo_region_runs)
  have P: "PGROUNDDOWN 4096 = 4096" by (simp add: PGROUNDDOWN_def)
  have "umem m r 4096 = 65" if "\<forall>k<4096. umem m r (PGROUNDDOWN 4096 + of_nat k) = 65" for m r using that [rule_format, of 0] P by simp
  then show ?thesis
    using mapzero_contents [OF demo_region_runs(1-4) lo demo_region_table(2) insert_not_empty demo_region_table(1), of 13] by blast
qed

text \<open>C29: a page that \<open>map_ro\<close> has put into an active \<open>mapzero\<close> region panics the kernel when the process writes to it, as
  long as there is a free page: the fault handler maps the region's page without asking whether it is mapped.\<close>

theorem map_ro_in_region_panics:
  fixes s :: "'a kproc_scheme"
  assumes u: "uspace s root F" and r: "runs s i root" and i: "i < length (procs s)" and lo: "tf_get s i TF_a0 < MAXVA"
    and va: "in_vr (getp s i) (PGROUNDDOWN (tf_get s i TF_a0))" and ok: "sys_map_ro s = Some (0, s')" and more: "freelist s' \<noteq> 0"
  shows "page_fault i 15 (PGROUNDDOWN (tf_get s i TF_a0)) s' = None"
proof (cases rule: sys_map_ro_spec [OF u r lo])
  case (1 s1 F1)
  then show ?thesis using ok by simp
next
  case (2 s1 F1)
  let ?va = "PGROUNDDOWN (tf_get s i TF_a0)"
  have s': "s' = setp i (\<lambda>p. p\<lparr>p_map_ro_va := ?va\<rparr>) s1" using 2(1) ok by simp
  have pr: "procs s1 = procs s" "cur s1 = cur s" using ukeepD(2) [OF 2(2)] mem_only_kproc by blast+
  obtain bs where k: "kprint (''page fault: pid=%d scause=%ld stval=0x%lx'' @ [CHR 0x0A])
      [Reg (scast (p_pid (getp s' i))), Reg 15, Reg ?va] s' = Some (s'\<lparr>conout := conout s' @ bs\<rparr>)" by (rule fault_msg)
  let ?t = "s'\<lparr>conout := conout s' @ bs\<rparr>"
  have "uspace s1 root F1" by (rule ukeepD(1) [OF 2(2)])
  then have u': "uspace ?t root F1" using uspace_cong [of ?t s1] s' by simp
  have g: "getp ?t i = (getp s i)\<lparr>p_map_ro_va := ?va\<rparr>" using i pr by (simp add: s' getp_def setp_def)
  have r': "runs ?t i root" using r pr g by (simp add: runs_def s')
  have "F1 \<noteq> {}" using u' more kalloc_empty [of ?t] by (auto simp: uspace_def own_def vm_inv_def kmem_inv_def)
  moreover have "lookup (pmem ?t) root ?va AND PTE_V \<noteq> 0" using 2(3) by (simp add: s' upages_def)
  ultimately have "vr_fault i ?va ?t = None" using vr_fault_mapped [OF u' r' page_below_MAXVA [OF lo]] by simp
  then show ?thesis using k va g by (simp add: page_fault_def in_vr_def)
qed

theorem map_ro_in_region_panics_witness:
  "\<exists>s'. sys_map_ro (demo_region 4096) = Some (0, s') \<and> page_fault 0 15 4096 s' = None"
proof -
  let ?s = "demo_region 4096"
  note a = demo_region_runs(5) [of 4096]
  have P: "PGROUNDDOWN (tf_get ?s 0 TF_a0) = 4096" unfolding a by (simp add: PGROUNDDOWN_def)
  have lo: "tf_get ?s 0 TF_a0 < MAXVA" unfolding a by simp
  obtain s' where s': "sys_map_ro ?s = Some (0, s')" "freelist s' = load64 (pmem ?s) (freelist ?s)"
    by (rule sys_map_ro_below_table [OF demo_region_runs(1,2) lo insert_not_empty]) (use demo_region_table a in simp_all)
  have m: "pmem ?s = store64 (store64 demo_mem 168 30) 112 4096" "freelist ?s = 0x87FFF000"
    by (simp_all add: demo_region_def demo_call_frame) (simp add: demo_kfs_def two_free_def)
  have "load64 (pmem ?s) 0x87FFF000 = load64 demo_mem 0x87FFF000"
    unfolding m using load64_same_off [OF demo_call_frame(2) [of 30 4096], of "0x87FFF000" 0] by simp
  also have "\<dots> = load64 (pmem two_free) 0x87FFF000"
    using load64_same_off [OF demo_same_off, of "0x87FFF000" 0] by simp
  also have "\<dots> = 0x87FFE000" by (simp add: two_free_def)
  finally have "freelist s' \<noteq> 0" using s'(2) m(2) by simp
  then show ?thesis
    using map_ro_in_region_panics [OF demo_region_runs(1-3) lo _ s'(1)] demo_region_runs(4) s'(1) unfolding P by blast
qed

end
