(* ===== verification/PipeWake.thy ===== *)
theory PipeWake
  imports Pipe
begin

text \<open>
  Sleeping and waking on a pipe, \<^verbatim>\<open>kernel/pipe.c\<close> with \<open>sleep\<close>, \<open>wakeup\<close> and \<open>kkill\<close> of \<^verbatim>\<open>kernel/proc.c\<close>. The calls on a
  pipe exclude each other by its lock, but \<open>killed\<close> reads a flag under the lock of the process only, so another hart can
  kill processes between the rounds of a call. The relation \<open>pipewrite_conc\<close> is a stretch of \<open>pipewrite\<close> with such
  kills; \<open>pipe_call\<close> adds the other calls. A kill inside a round acts like one before the next round, since a
  round reads the flag once, at its beginning.
\<close>

section \<open>Kills by other harts\<close>

inductive kills :: "'a kproc_scheme \<Rightarrow> 'a kproc_scheme \<Rightarrow> bool" for s where
  kills_none: "kills s s"
| kills_more: "kills s t \<Longrightarrow> kills s (snd (kkill pid t))"

lemma find_proc_Some: "find_proc P ps = Some i \<Longrightarrow> i < length ps \<and> P (ps ! i)"
  by (induction ps arbitrary: i) (auto split: if_splits)

lemma kkill_keeps:
  fixes s :: "'a kfs_scheme"
  shows "pipes (snd (kkill pid s)) = pipes s" "cur (snd (kkill pid s)) = cur s" "pmem (snd (kkill pid s)) = pmem s"
    "freelist (snd (kkill pid s)) = freelist s" "sym (snd (kkill pid s)) = sym s" "length (procs (snd (kkill pid s))) = length (procs s)"
    "p_pagetable (getp (snd (kkill pid s)) i) = p_pagetable (getp s i)" "p_sz (getp (snd (kkill pid s)) i) = p_sz (getp s i)"
    "asleep_on ch (getp (snd (kkill pid s)) i) \<Longrightarrow> asleep_on ch (getp s i)" "killed i s \<Longrightarrow> killed i (snd (kkill pid s))"
    "p_state (getp s i) = RUNNING \<Longrightarrow> p_state (getp (snd (kkill pid s)) i) = RUNNING"
  by (auto simp: kkill_def setp_def getp_def killed_def asleep_on_def nth_list_update Let_def dest!: find_proc_Some split: option.splits if_splits)

lemma kills_keeps:
  fixes s t :: "'a kfs_scheme"
  assumes "kills s t"
  shows "pipes t = pipes s" "cur t = cur s" "length (procs t) = length (procs s)" "uspace t root F = uspace s root F"
    "runs t pr root = runs s pr root" "asleep_on ch (getp t i) \<Longrightarrow> asleep_on ch (getp s i)" "killed i s \<Longrightarrow> killed i t"
    "p_state (getp s i) = RUNNING \<Longrightarrow> p_state (getp t i) = RUNNING"
proof -
  have "pipes t = pipes s \<and> cur t = cur s \<and> length (procs t) = length (procs s) \<and> uspace t root F = uspace s root F \<and>
    runs t pr root = runs s pr root \<and> (asleep_on ch (getp t i) \<longrightarrow> asleep_on ch (getp s i)) \<and> (killed i s \<longrightarrow> killed i t) \<and>
    (p_state (getp s i) = RUNNING \<longrightarrow> p_state (getp t i) = RUNNING)"
    using assms
  proof induction
    case (kills_more t pid)
    moreover have "uspace (snd (kkill pid t)) root F = uspace t root F" by (rule uspace_cong) (simp_all add: kkill_keeps)
    moreover have "runs (snd (kkill pid t)) pr root = runs t pr root" by (simp add: runs_def kkill_keeps)
    ultimately show ?case using kkill_keeps(9) [of ch pid t i] kkill_keeps(10) [of i t pid] kkill_keeps(11) [of t i pid] by (simp add: kkill_keeps(1-6))
  qed simp
  then show "pipes t = pipes s" "cur t = cur s" "length (procs t) = length (procs s)" "uspace t root F = uspace s root F"
    "runs t pr root = runs s pr root" "asleep_on ch (getp t i) \<Longrightarrow> asleep_on ch (getp s i)" "killed i s \<Longrightarrow> killed i t"
    "p_state (getp s i) = RUNNING \<Longrightarrow> p_state (getp t i) = RUNNING" by simp_all
qed

section \<open>A write with kills in between\<close>

text \<open>A stretch of \<open>pipewrite\<close> from count \<open>i\<close> with \<open>k\<close> bytes to go: \<open>Inl\<close> the returned value, \<open>Inr\<close> the count with
  which it goes to sleep.\<close>

inductive pipewrite_conc :: "nat \<Rightarrow> u64 \<Rightarrow> u64 \<Rightarrow> nat \<Rightarrow> nat \<Rightarrow> 'a kfs_scheme \<Rightarrow> int + nat \<Rightarrow> 'a kfs_scheme \<Rightarrow> bool" for pr pi addr where
  conc_end: "kills s t \<Longrightarrow> pipewrite_conc pr pi addr i 0 s (Inl (int i)) (wakeup (ChPipeRead pi) t)"
| conc_return: "kills s t \<Longrightarrow> pipewrite_round pr pi addr i t = Some (WReturn r, t') \<Longrightarrow> pipewrite_conc pr pi addr i (Suc k) s (Inl r) t'"
| conc_sleep: "kills s t \<Longrightarrow> pipewrite_round pr pi addr i t = Some (WSleep, t') \<Longrightarrow> pipewrite_conc pr pi addr i (Suc k) s (Inr i) t'"
| conc_byte: "kills s t \<Longrightarrow> pipewrite_round pr pi addr i t = Some (WByte, t') \<Longrightarrow> pipewrite_conc pr pi addr (i + 1) k t' r s' \<Longrightarrow>
    pipewrite_conc pr pi addr i (Suc k) s r s'"

inductive_cases pipewrite_concE: "pipewrite_conc pr pi addr i k s r s'"

text \<open>Without kills this is \<open>pipewrite_run\<close>.\<close>

lemma pipewrite_run_conc: "pipewrite_run pr pi addr i k s = Some (r, s') \<Longrightarrow> pipewrite_conc pr pi addr i k s r s'"
proof (induction k arbitrary: i s)
  case 0
  then show ?case using conc_end [OF kills_none] by auto
next
  case (Suc k)
  then obtain w t where w: "pipewrite_round pr pi addr i s = Some (w, t)" by (auto split: bind_splits)
  show ?case
  proof (cases w)
    case (WReturn r')
    then show ?thesis using Suc.prems w conc_return [OF kills_none, of pr pi addr i s r' t k] by simp
  next
    case WSleep
    then show ?thesis using Suc.prems w conc_sleep [OF kills_none, of pr pi addr i s t k] by simp
  next
    case WByte
    then have "pipewrite_conc pr pi addr (i + 1) k t r s'" using Suc.prems w by (intro Suc.IH) simp
    then show ?thesis using conc_byte [OF kills_none] w WByte by blast
  qed
qed

section \<open>Who sleeps\<close>

text \<open>\<open>pipe_sync pi s\<close>: the ring of the pipe is well formed, a process sleeps in \<open>piperead\<close> only while
  the ring is empty and the write side open, and in \<open>pipewrite\<close> only while the ring is full and
  the read side open.\<close>

definition writers_ok :: "u64 \<Rightarrow> pipe \<Rightarrow> 'a kfs_scheme \<Rightarrow> bool" where
  "writers_ok pi p s \<longleftrightarrow> (\<forall>i<length (procs s). asleep_on (ChPipeWrite pi) (getp s i) \<longrightarrow> pipe_full p \<and> pi_readopen p)"

definition readers_open :: "u64 \<Rightarrow> pipe \<Rightarrow> 'a kfs_scheme \<Rightarrow> bool" where
  "readers_open pi p s \<longleftrightarrow> (\<forall>i<length (procs s). asleep_on (ChPipeRead pi) (getp s i) \<longrightarrow> pi_writeopen p)"

definition readers_empty :: "u64 \<Rightarrow> pipe \<Rightarrow> 'a kfs_scheme \<Rightarrow> bool" where
  "readers_empty pi p s \<longleftrightarrow> (\<forall>i<length (procs s). asleep_on (ChPipeRead pi) (getp s i) \<longrightarrow> pipe_items p = [])"

text \<open>What holds during a write, when bytes are in the ring and readers have not been woken yet.\<close>

definition pipe_half :: "u64 \<Rightarrow> 'a kfs_scheme \<Rightarrow> bool" where
  "pipe_half pi s \<longleftrightarrow> (\<forall>p. pipes s pi = Some p \<longrightarrow> pipe_ok p \<and> writers_ok pi p s \<and> readers_open pi p s)"

definition pipe_sync :: "u64 \<Rightarrow> 'a kfs_scheme \<Rightarrow> bool" where
  "pipe_sync pi s \<longleftrightarrow> pipe_half pi s \<and> (\<forall>p. pipes s pi = Some p \<longrightarrow> readers_empty pi p s)"

lemma kills_sync:
  assumes "kills s t"
  shows "pipe_half pi s \<Longrightarrow> pipe_half pi t" "pipe_sync pi s \<Longrightarrow> pipe_sync pi t"
  using kills_keeps(1,3,6) [OF assms] by (auto simp: pipe_sync_def pipe_half_def writers_ok_def readers_open_def readers_empty_def)

lemma asleep_on_sleep_enter:
  "i < length (procs s) \<Longrightarrow> asleep_on ch (getp (sleep_enter ch' j s) i) \<longleftrightarrow> (if i = j then ch = ch' else asleep_on ch (getp s i))"
  by (auto simp: sleep_enter_def asleep_on_def getp_def setp_def nth_list_update)

lemma asleep_procs: "procs t = procs s \<Longrightarrow> asleep_on ch (getp t i) = asleep_on ch (getp s i)"
  by (simp add: getp_def)

lemma running_awake: "p_state p = RUNNING \<Longrightarrow> \<not> asleep_on ch p"
  by (simp add: asleep_on_def)

text \<open>A wakeup of the readers ends the write.\<close>

lemma woken_sync:
  assumes "pipe_half pi s" "pipes t = pipes s" "cur s = Some pr" "p_state (getp s pr) = RUNNING" "procs t = procs (wakeup (ChPipeRead pi) s)"
  shows "pipe_sync pi t"
proof -
  have a: "asleep_on ch (getp t i) \<longleftrightarrow> asleep_on ch (getp s i) \<and> ch \<noteq> ChPipeRead pi" if "i < length (procs s)" for i ch
    using that assms(3) running_awake [OF assms(4)] asleep_procs [OF assms(5), of ch i] by (auto simp: asleep_on_wakeup)
  have "length (procs t) = length (procs s)" using assms(5) by simp
  then show ?thesis using a assms(1,2)
    by (auto simp: pipe_sync_def pipe_half_def writers_ok_def readers_open_def readers_empty_def)
qed

lemma slept_sync:
  assumes "pipe_half pi s" "pipes s pi = Some p" "cur s = Some pr" "p_state (getp s pr) = RUNNING" "pipe_full p" "pi_readopen p"
  shows "pipe_sync pi (sleep_enter (ChPipeWrite pi) pr (wakeup (ChPipeRead pi) s))"
proof -
  let ?w = "wakeup (ChPipeRead pi) s"
  have "pipe_sync pi ?w" by (rule woken_sync [OF assms(1) _ assms(3,4)]) simp_all
  then show ?thesis using assms(2,5,6)
    by (auto simp: pipe_sync_def pipe_half_def writers_ok_def readers_open_def readers_empty_def asleep_on_sleep_enter split: if_splits)
qed

lemmas sync_defs = pipe_sync_def pipe_half_def writers_ok_def readers_open_def readers_empty_def

lemma byte_half:
  assumes "pipe_half pi s" "pipes s pi = Some p" "\<not> pipe_full p" "pipes t = (pipes s)(pi \<mapsto> pipe_put x p)" "procs t = procs s"
  shows "pipe_half pi t"
proof -
  have "pipe_ok p" "\<not> asleep_on (ChPipeWrite pi) (getp s i)" if "i < length (procs s)" for i
    using assms(1-3) that by (auto simp: pipe_half_def writers_ok_def)
  moreover have ok: "pipe_ok (pipe_put x p)" using pq.put_items [OF _ assms(3)] assms(1,2) by (simp add: pipe_half_def)
  ultimately show ?thesis using assms by (auto simp: sync_defs getp_def)
qed

lemma kills_running:
  fixes s t :: "'a kfs_scheme"
  assumes "kills s t" "uspace s root F" "runs s pr root" "p_state (getp s pr) = RUNNING" "pipe_half pi s"
  shows "uspace t root F" "runs t pr root" "p_state (getp t pr) = RUNNING" "pipe_half pi t" "cur t = Some pr" "pipes t = pipes s"
  using kills_keeps [OF assms(1)] kills_sync(1) [OF assms(1,5)] assms(2-4) by (simp, simp, blast, blast, simp add: runs_def, simp)

lemma pipewrite_conc_half:
  fixes s s' :: "'a kfs_scheme"
  assumes "pipewrite_conc pr pi addr i k s r s'" "uspace s root F" "runs s pr root" "p_state (getp s pr) = RUNNING" "pipe_half pi s" "pipes s pi = Some p"
  shows "pipe_half pi s' \<and> (r \<noteq> Inl (- 1) \<longrightarrow> pipe_sync pi s') \<and> (r = Inl (- 1) \<longrightarrow> killed pr s' \<or> \<not> pi_readopen p)"
  using assms
proof (induction arbitrary: F p)
  case (conc_end s t i)
  note t = kills_running [OF conc_end.hyps conc_end.prems(1-4)]
  have "pipe_sync pi (wakeup (ChPipeRead pi) t)" by (rule woken_sync [OF t(4) _ t(5,3)]) simp_all
  then show ?case by (simp add: pipe_sync_def)
next
  case (conc_return s t i r t' k)
  note t = kills_running [OF conc_return.hyps(1) conc_return.prems(1-4)]
  have tp: "pipes t pi = Some p" using t(6) conc_return.prems(5) by simp
  have "round_ok pr pi root addr i p t (WReturn r) t'" using pipewrite_round_spec [OF t(1,2) tp, of addr i] conc_return.hyps(2) by auto
  then show ?case using t woken_sync [OF t(4) _ t(5,3), of t'] by (auto simp: round_ok_def pipe_sync_def)
next
  case (conc_sleep s t i t' k)
  note t = kills_running [OF conc_sleep.hyps(1) conc_sleep.prems(1-4)]
  have tp: "pipes t pi = Some p" using t(6) conc_sleep.prems(5) by simp
  have "round_ok pr pi root addr i p t WSleep t'" using pipewrite_round_spec [OF t(1,2) tp, of addr i] conc_sleep.hyps(2) by auto
  then show ?case using slept_sync [OF t(4) tp t(5,3)] by (auto simp: round_ok_def pipe_sync_def)
next
  case (conc_byte s t i t' k r s')
  note t = kills_running [OF conc_byte.hyps(1) conc_byte.prems(1-4)]
  have tp: "pipes t pi = Some p" using t(6) conc_byte.prems(5) by simp
  obtain G where G: "uspace t' root G" and r: "round_ok pr pi root addr i p t WByte t'"
    using pipewrite_round_spec [OF t(1,2) tp, of addr i] conc_byte.hyps(2) by (auto simp: uview_def)
  let ?p = "pipe_put (umem (pmem t') root (addr + of_nat i)) p"
  have t': "runs t' pr root" "procs t' = procs t" "\<not> pipe_full p" "pipes t' = (pipes t)(pi \<mapsto> ?p)" using r by (simp_all add: round_ok_def)
  have "pipe_half pi t'" by (rule byte_half [OF t(4) tp t'(3,4,2)])
  moreover have "p_state (getp t' pr) = RUNNING" using t(3) t'(2) by (simp add: getp_def)
  ultimately show ?case using conc_byte.IH [OF G t'(1), of ?p] t'(4) by simp
qed

text \<open>A write loses a wakeup only if the process is killed after its first round.\<close>

lemma pipewrite_conc_sync:
  fixes s s' :: "'a kfs_scheme"
  assumes "pipewrite_conc pr pi addr i k s r s'" "uspace s root F" "runs s pr root" "p_state (getp s pr) = RUNNING" "pipe_sync pi s"
  shows "pipe_half pi s' \<and> (pipe_sync pi s' \<or> r = Inl (- 1) \<and> \<not> killed pr s \<and> killed pr s')"
proof (cases "pipes s pi")
  case None
  have nr: "pipewrite_round pr pi addr i t = None" if "kills s t" for t
    using None kills_keeps(1) [OF that] by (simp add: pipewrite_round_def)
  from assms(1) have "pipes s' pi = None"
  proof cases
    case (conc_end t)
    then show ?thesis using None kills_keeps(1) [OF conc_end(4)] by simp
  qed (use nr in simp_all)
  then show ?thesis by (simp add: sync_defs)
next
  case (Some p)
  have h: "pipe_half pi s" using assms(5) by (simp add: pipe_sync_def)
  note c = pipewrite_conc_half [OF assms(1-4) h Some]
  from assms(1) show ?thesis
  proof cases
    case (conc_return t r' k')
    note k = kills_keeps [OF conc_return(3)]
    have t: "uspace t root F" "runs t pr root" "pipes t pi = Some p" using assms(2,3) Some k by simp_all
    have "round_ok pr pi root addr i p t (WReturn r') s'" using pipewrite_round_spec [OF t, of addr i] conc_return(4) by auto
    then show ?thesis using c conc_return(2) kills_sync(2) [OF conc_return(3) assms(5)] by (auto simp: round_ok_def)
  next
    case (conc_byte t t' k')
    note k = kills_keeps [OF conc_byte(2)]
    have t: "uspace t root F" "runs t pr root" "pipes t pi = Some p" using assms(2,3) Some k by simp_all
    have "round_ok pr pi root addr i p t WByte t'" using pipewrite_round_spec [OF t, of addr i] conc_byte(3) by auto
    then have "pi_readopen p" "\<not> killed pr s" using k(7) by (auto simp: round_ok_def)
    then show ?thesis using c by blast
  qed (use c in auto)
qed

section \<open>The other calls\<close>

lemma piperead_sync:
  fixes s s' :: "'a kfs_scheme"
  assumes "pipe_half pi s" "uspace s root F" "runs s pr root" "p_state (getp s pr) = RUNNING" "n \<le> 2 ^ 64"
    "piperead_run pr pi addr n s = Some (r, s')"
  shows "pipe_half pi s'" "pipe_sync pi s \<Longrightarrow> pipe_sync pi s'"
proof -
  obtain p where p: "pipes s pi = Some p" using assms(6) by (cases "pipes s pi") (auto simp: piperead_run_def)
  then have ok: "pipe_ok p" using assms(1) by (simp add: pipe_half_def)
  have c: "cur s = Some pr" using assms(3) by (simp add: runs_def)
  have "pipe_half pi s' \<and> (pipe_sync pi s \<longrightarrow> pipe_sync pi s')"
  proof (cases "pi_nread p = pi_nwrite p \<and> pi_writeopen p")
    case True
    then have "s' = s \<or> s' = sleep_enter (ChPipeRead pi) pr s"
      using assms(6) p by (auto simp: piperead_run_def split: if_splits)
    then show ?thesis
      using assms(1) p True by (auto simp: sync_defs asleep_on_sleep_enter pipe_empty_iff split: if_splits)
  next
    case False
    obtain m t xs p' where t: "piperead_copy pr pi addr 0 n s = Some (m, t)" "pipes t = (pipes s)(pi \<mapsto> p')"
      "pipe_ok p'" "pipe_items p = xs @ pipe_items p'" "pi_writeopen p' = pi_writeopen p" "procs t = procs s" "cur t = cur s"
      using piperead_copy_spec [OF assms(2,3) p ok assms(5), of addr 0] by blast
    have s': "s' = wakeup (ChPipeWrite pi) t" using assms(6) p False t(1) by (auto simp: piperead_run_def)
    have a: "\<not> asleep_on (ChPipeWrite pi) (getp s' i)"
      "asleep_on (ChPipeRead pi) (getp s' i) \<longleftrightarrow> asleep_on (ChPipeRead pi) (getp s i)" if "i < length (procs s)" for i
      using that t(6,7) c running_awake [OF assms(4)] asleep_procs [OF t(6)] by (auto simp: s' asleep_on_wakeup)
    show ?thesis using a t assms(1) p by (auto simp: sync_defs s' append_eq_Cons_conv)
  qed
  then show "pipe_half pi s'" "pipe_sync pi s \<Longrightarrow> pipe_sync pi s'" by simp_all
qed

lemma kfree_kfs:
  fixes s t :: "'a kfs_scheme"
  assumes "kfree pa s = Some t"
  shows "pipes t = pipes s" "procs t = procs s"
  using assms by (auto simp: kfree_def split: if_splits)

lemma pipeclose_sync:
  fixes s s' :: "'a kfs_scheme"
  assumes "pipe_half pi s" "cur s = Some pr" "p_state (getp s pr) = RUNNING" "pipeclose pi w s = Some s'"
  shows "pipe_half pi s'" "pipe_sync pi s \<Longrightarrow> pipe_sync pi s'"
proof -
  define t where "t = (if w then wakeup (ChPipeRead pi) (setpipe pi (\<lambda>p. p\<lparr>pi_writeopen := False\<rparr>) s)
              else wakeup (ChPipeWrite pi) (setpipe pi (\<lambda>p. p\<lparr>pi_readopen := False\<rparr>) s))"
  obtain p where p: "pipes s pi = Some p" using assms(4) by (cases "pipes s pi"; cases w) (auto simp: pipeclose_def Let_def)
  have a: "asleep_on ch (getp t i) \<longleftrightarrow> asleep_on ch (getp s i) \<and> ch \<noteq> (if w then ChPipeRead pi else ChPipeWrite pi)"
    if "i < length (procs s)" for i ch
    using that assms(2) running_awake [OF assms(3)] by (auto simp: t_def asleep_on_wakeup)
  have "pipe_half pi t" "pipe_sync pi s \<Longrightarrow> pipe_sync pi t"
    using a assms(1) p by (auto simp: sync_defs t_def pipe_ok_def pipe_items_def pipe_full_def)
  moreover have "s' = t \<or> pipes s' pi = None"
    using assms(4) by (auto simp: pipeclose_def t_def Let_def dest!: kfree_kfs(1) split: bind_splits if_splits)
  ultimately show "pipe_half pi s'" "pipe_sync pi s \<Longrightarrow> pipe_sync pi s'" by (auto simp: sync_defs)
qed

text \<open>A stretch of a call on the pipe by the running process, from its start or from its wakeup to its return or the
  next sleep, with kills by other harts, and kills alone. \<open>piperead\<close> and \<open>pipeclose\<close> read the flag at most once, so a
  kill during the stretch acts like one before or after it.\<close>

datatype pipe_event = PWrite nat "int + nat" | PRead nat | PClose nat | PKill

inductive pipe_call :: "u64 \<Rightarrow> pipe_event \<Rightarrow> 'a kfs_scheme \<Rightarrow> 'a kfs_scheme \<Rightarrow> bool" for pi where
  call_write: "uspace s root F \<Longrightarrow> runs s pr root \<Longrightarrow> p_state (getp s pr) = RUNNING \<Longrightarrow>
    pipewrite_conc pr pi addr i k s r s' \<Longrightarrow> pipe_call pi (PWrite pr r) s s'"
| call_read: "uspace s root F \<Longrightarrow> runs s pr root \<Longrightarrow> p_state (getp s pr) = RUNNING \<Longrightarrow> n \<le> 2 ^ 64 \<Longrightarrow> kills s t \<Longrightarrow>
    piperead_run pr pi addr n t = Some (r', s') \<Longrightarrow> pipe_call pi (PRead pr) s s'"
| call_close: "runs s pr root \<Longrightarrow> p_state (getp s pr) = RUNNING \<Longrightarrow> kills s t \<Longrightarrow>
    pipeclose pi w t = Some s' \<Longrightarrow> pipe_call pi (PClose pr) s s'"
| call_kill: "kills s s' \<Longrightarrow> pipe_call pi PKill s s'"

section \<open>Properties\<close>

text \<open>C3: which calls on a pipe keep its sleepers right. Say that a pipe is in step when its ring is well formed, a process
  sleeps in \<open>piperead\<close> only while the ring is empty and the write side open, and in \<open>pipewrite\<close> only while it is full and
  the read side open. Every read, close and kill, and every stretch of a write with any kills by other harts between its
  rounds, keeps the pipe in step, with one exception: a write that returns -1 because its process was killed
  after the stretch had begun. Then a reader may be left asleep with bytes in the ring, but the rest still holds, and
  the next write that does not return -1 puts the pipe in step again.\<close>

theorem pipe_sleepers_in_step:
  fixes s s' :: "'a kfs_scheme"
  assumes "pipe_call pi ev s s'"
  shows "(pipe_sync pi s \<longrightarrow> pipe_sync pi s' \<or> (\<exists>pr. ev = PWrite pr (Inl (- 1)) \<and> \<not> killed pr s \<and> killed pr s')) \<and>
    (pipe_half pi s \<longrightarrow> pipe_half pi s' \<and> (\<forall>pr r. ev = PWrite pr r \<and> r \<noteq> Inl (- 1) \<longrightarrow> pipe_sync pi s'))"
  using assms
proof cases
  case (call_write root F pr addr i k r)
  have "pipe_half pi s' \<and> (r \<noteq> Inl (- 1) \<longrightarrow> pipe_sync pi s')" if h: "pipe_half pi s"
  proof (cases "pipes s pi")
    case None
    then have "pipe_sync pi s" by (simp add: sync_defs)
    then show ?thesis using pipewrite_conc_sync [OF call_write(5,2-4)] by auto
  next
    case (Some p)
    then show ?thesis using pipewrite_conc_half [OF call_write(5,2-4) h] by blast
  qed
  then show ?thesis using pipewrite_conc_sync [OF call_write(5,2-4)] call_write(1) by auto
next
  case (call_read root F pr n t addr r')
  show ?thesis
    using piperead_sync [OF kills_running(4,1-3) [OF call_read(6,2-4)] call_read(5,7)] kills_sync [OF call_read(6), of pi] call_read(1)
    by (auto simp: pipe_sync_def)
next
  case (call_close pr root t w)
  note k = kills_keeps [OF call_close(4)]
  have "cur t = Some pr" "p_state (getp t pr) = RUNNING" using call_close(2,3) k(2,8) by (simp_all add: runs_def)
  then show ?thesis
    using pipeclose_sync [OF _ _ _ call_close(5)] kills_sync [OF call_close(4), of pi] call_close(1) by (auto simp: pipe_sync_def)
next
  case call_kill
  then show ?thesis using kills_sync [of s s' pi] by auto
qed

text \<open>A writer and, asleep on the empty pipe, a reader.\<close>

definition demo_reader :: kfs where
  "demo_reader = demo_kfs\<lparr>procs := [demo_proc, demo_proc\<lparr>p_pid := 2, p_state := SLEEPING, p_chan := Some (ChPipeRead 0x87FF9000)\<rparr>],
     pipes := [0x87FF9000 \<mapsto> demo_pipe\<lparr>pi_nwrite := 0xFFFFFFFF\<rparr>]\<rparr>"

lemma demo_reader_ok:
  "uspace demo_reader demo_root {0x87FFF000, 0x87FFE000}" "runs demo_reader 0 demo_root" "p_state (getp demo_reader 0) = RUNNING"
  "pipes demo_reader 0x87FF9000 = Some (demo_pipe\<lparr>pi_nwrite := 0xFFFFFFFF\<rparr>)" "pipe_ok (demo_pipe\<lparr>pi_nwrite := 0xFFFFFFFF\<rparr>)"
  "pipe_items (demo_pipe\<lparr>pi_nwrite := 0xFFFFFFFF\<rparr>) = []" "\<not> killed 0 demo_reader"
  "find_proc (\<lambda>q. p_pid q = 1) (procs demo_reader) = Some 0" "length (procs demo_reader) = 2"
  "asleep_on (ChPipeRead 0x87FF9000) (getp demo_reader 1)" "pmem demo_reader = demo_mem"
proof -
  show "uspace demo_reader demo_root {0x87FFF000, 0x87FFE000}"
    using demo_kfs_runs(1) by (simp add: demo_reader_def cong: uspace_cong)
qed (simp_all add: demo_reader_def demo_kfs_def demo_proc_def getp_def runs_def pipe_ok_def demo_pipe_def pipe_empty_iff killed_def asleep_on_def blank_proc_def)

lemma demo_reader_sync: "pipe_sync 0x87FF9000 demo_reader"
  using demo_reader_ok(4-6,9) by (auto simp: sync_defs less_2_cases_iff)
    (simp_all add: demo_reader_def demo_kfs_def demo_proc_def getp_def asleep_on_def demo_pipe_def)

theorem pipe_sleepers_in_step_witness:
  "\<exists>r s'. pipe_call 0x87FF9000 (PWrite 0 r) demo_reader s' \<and> pipe_half 0x87FF9000 s' \<and> (r \<noteq> Inl (- 1) \<longrightarrow> pipe_sync 0x87FF9000 s')"
proof -
  obtain r s' where "pipewrite_run 0 0x87FF9000 16 0 5 demo_reader = Some (r, s')"
    using pipewrite_run_spec [OF demo_reader_ok(1,2,4,5), of 16 0 5] by auto
  then have c: "pipe_call 0x87FF9000 (PWrite 0 r) demo_reader s'"
    using pipewrite_run_conc call_write [OF demo_reader_ok(1-3)] by blast
  then show ?thesis using pipe_sleepers_in_step [OF c] demo_reader_sync by (auto simp: pipe_sync_def)
qed

text \<open>C4: the exception occurs. Let a reader be asleep on an empty pipe and a process write two or more bytes to it, the
  first of them mapped. If another hart kills the writer after the first byte, then \<open>pipewrite\<close> returns -1 without
  waking the reader, which stays asleep with the byte in the pipe.\<close>

theorem pipewrite_kill_leaves_reader:
  fixes s :: "'a kfs_scheme"
  assumes "uspace s root F" "runs s pr root" "p_state (getp s pr) = RUNNING" "pipes s pi = Some p" "pipe_ok p" "pipe_items p = []"
    and "pi_readopen p" "\<not> killed pr s" "PGROUNDDOWN addr \<in> upages (pmem s) root" "find_proc (\<lambda>q. p_pid q = pid) (procs s) = Some pr"
    and "asleep_on (ChPipeRead pi) (getp s j)"
  shows "\<exists>s' p' x. pipewrite_conc pr pi addr 0 (k + 2) s (Inl (- 1)) s' \<and> pipes s' pi = Some p' \<and> pipe_items p' = [x] \<and>
    asleep_on (ChPipeRead pi) (getp s' j)"
proof -
  have nf: "\<not> pipe_full p" using pq.full_iff [OF assms(5)] assms(6) by simp
  obtain w t where t: "pipewrite_round pr pi addr 0 s = Some (w, t)" "round_ok pr pi root addr 0 p s w t"
    using pipewrite_round_spec [OF assms(1,2,4)] by blast
  have w: "w = WByte" using t(2) assms(7-9) nf by (cases w) (auto simp: round_ok_def)
  let ?x = "umem (pmem t) root addr"
  have u: "procs t = procs s" "pipes t pi = Some (pipe_put ?x p)" using t(2) w by (simp_all add: round_ok_def)
  define v where "v = snd (kkill pid t)"
  have pr: "pr < length (procs t)" using find_proc_Some [OF assms(10)] u(1) by simp
  have v: "v = setp pr (\<lambda>p. let p = p\<lparr>p_killed := True\<rparr> in if p_state p = SLEEPING then p\<lparr>p_state := RUNNABLE\<rparr> else p) t"
    using assms(10) u(1) by (simp add: v_def kkill_def)
  have "killed pr v" using pr by (simp add: v killed_def Let_def)
  moreover have pv: "pipes v pi = Some (pipe_put ?x p)" using u(2) kkill_keeps(1) [of pid t] by (simp add: v_def)
  ultimately have "pipewrite_round pr pi addr 1 v = Some (WReturn (- 1), v)" by (simp add: pipewrite_round_def)
  then have "pipewrite_conc pr pi addr (0 + 1) (Suc k) t (Inl (- 1)) v"
    using conc_return [OF kills_more [OF kills_none], of pr pi addr 1 pid t "- 1" v k] by (simp add: v_def)
  then have "pipewrite_conc pr pi addr 0 (Suc (Suc k)) s (Inl (- 1)) v" using conc_byte [OF kills_none] t(1) w by blast
  moreover have "pipe_items (pipe_put ?x p) = [?x]" using pq.put_items [OF assms(5) nf, of ?x] assms(6) by simp
  moreover have "j \<noteq> pr" using assms(3,11) by (auto simp: asleep_on_def)
  then have "asleep_on (ChPipeRead pi) (getp v j)" using assms(11) u(1) by (simp add: v) (simp add: getp_def)
  ultimately show ?thesis using pv by auto
qed

theorem pipewrite_kill_leaves_reader_witness:
  "\<exists>s' p' x. pipewrite_conc 0 0x87FF9000 16 0 5 demo_reader (Inl (- 1)) s' \<and> pipes s' 0x87FF9000 = Some p' \<and> pipe_items p' = [x] \<and>
    asleep_on (ChPipeRead 0x87FF9000) (getp s' 1)"
proof -
  have ro: "pi_readopen (demo_pipe\<lparr>pi_nwrite := 0xFFFFFFFF\<rparr>)" by (simp add: demo_pipe_def)
  have m: "PGROUNDDOWN 16 \<in> upages (pmem demo_reader) demo_root" by (simp add: demo_reader_ok(11) demo_upages PGROUNDDOWN_def)
  show ?thesis
    using pipewrite_kill_leaves_reader [OF demo_reader_ok(1-6) ro demo_reader_ok(7) m demo_reader_ok(8,10), of 3] by simp
qed

end
