(* ===== verification/Ulib.thy ===== *)
theory Ulib
  imports CString
begin

text \<open>
  The rest of \<^verbatim>\<open>user/ulib.c\<close>: \<open>strcpy\<close>, the routines it shares with the kernel's \<^verbatim>\<open>string.c\<close>,
  and \<open>gets\<close> and \<open>stat\<close>, which call the kernel. A system call that reads is a parameter \<open>rd\<close> of the
  definitions that use it: it takes the state of the world and a count and gives the bytes read,
  or \<open>None\<close> for an error, and the next state. \<open>feeds rd w xs\<close> states what reading promises: while
  bytes of \<open>xs\<close> are left a read of a positive count gives at least one of them and at most the count,
  in order, and after that it gives none.
\<close>

section \<open>Strings and memory\<close>

partial_function (option) strcpy :: "phys \<Rightarrow> u64 \<Rightarrow> u64 \<Rightarrow> phys option" where
  "strcpy m s t = (let m' = m(s := m t) in if m t \<noteq> 0 then strcpy m' (s + 1) (t + 1) else Some m')"

definition ustrlen :: "(nat \<Rightarrow> u8) \<Rightarrow> nat option" where
  "ustrlen s = strlen_from s 0"

text \<open>The counter of \<open>memset\<close> is a signed int compared with an unsigned count.\<close>

definition umemset :: "phys \<Rightarrow> u64 \<Rightarrow> u8 \<Rightarrow> u32 \<Rightarrow> phys" where
  "umemset m dst c n = memset_loop m dst c 0 (unat n)"

fun umemcmp :: "(nat \<Rightarrow> u8) \<Rightarrow> (nat \<Rightarrow> u8) \<Rightarrow> nat \<Rightarrow> int" where
  "umemcmp p1 p2 0 = 0"
| "umemcmp p1 p2 (Suc n) =
     (if p1 0 \<noteq> p2 0 then uint (p1 0) - uint (p2 0)
      else umemcmp (\<lambda>i. p1 (Suc i)) (\<lambda>i. p2 (Suc i)) n)"

definition umemcpy :: "phys \<Rightarrow> u64 \<Rightarrow> u64 \<Rightarrow> u32 \<Rightarrow> phys" where
  "umemcpy m dst src n = umemmove m dst src n"

section \<open>Calls to the kernel\<close>

type_synonym 'w reader = "'w \<Rightarrow> nat \<Rightarrow> u8 list option \<times> 'w"

text \<open>\<open>gets\<close> returns the bytes it puts before the NUL.\<close>

fun gets_loop :: "'w reader \<Rightarrow> nat \<Rightarrow> 'w \<Rightarrow> u8 list \<times> 'w" where
  "gets_loop rd 0 w = ([], w)"
| "gets_loop rd (Suc k) w =
     (case rd w 1 of
        (Some (c # cs), w) \<Rightarrow>
          if c = 10 \<or> c = 13 then ([c], w)
          else (let (bs, w) = gets_loop rd k w in (c # bs, w))
      | (_, w) \<Rightarrow> ([], w))"

definition gets :: "'w reader \<Rightarrow> int \<Rightarrow> 'w \<Rightarrow> u8 list \<times> 'w" where
  "gets rd mx w = gets_loop rd (nat (mx - 1)) w"

definition ustat :: "(u8 list \<Rightarrow> 'w \<Rightarrow> int \<times> 'w) \<Rightarrow> (int \<Rightarrow> 'w \<Rightarrow> int \<times> 'st \<times> 'w) \<Rightarrow> (int \<Rightarrow> 'w \<Rightarrow> 'w) \<Rightarrow> u8 list \<Rightarrow> 'w \<Rightarrow> int \<times> 'st option \<times> 'w" where
  "ustat opn fstt cls n w =
     (let (fd, w) = opn n w
      in if fd < 0 then (- 1, None, w)
         else let (r, st, w) = fstt fd w; w = cls fd w in (r, Some st, w))"

inductive feeds :: "'w reader \<Rightarrow> 'w \<Rightarrow> u8 list \<Rightarrow> bool" for rd where
  feeds_end: "\<forall>n. \<exists>w'. rd w n = (Some [], w') \<Longrightarrow> feeds rd w []"
| feeds_more: "xs \<noteq> [] \<Longrightarrow> \<forall>n>0. \<exists>k w'. rd w n = (Some (take k xs), w') \<and> 0 < k \<and> k \<le> n \<and> k \<le> length xs \<and> feeds rd w' (drop k xs) \<Longrightarrow>
    feeds rd w xs"

inductive_cases feedsE: "feeds rd w xs"

lemma feeds_read:
  assumes "feeds rd w xs" "xs \<noteq> []" "0 < n"
  obtains k w' where "rd w n = (Some (take k xs), w')" "0 < k" "k \<le> n" "k \<le> length xs" "feeds rd w' (drop k xs)"
proof -
  have "\<forall>n>0. \<exists>k w'. rd w n = (Some (take k xs), w') \<and> 0 < k \<and> k \<le> n \<and> k \<le> length xs \<and> feeds rd w' (drop k xs)"
    by (rule feedsE [OF assms(1)]) (use assms(2) in blast)+
  then show thesis using that assms(3) by blast
qed

lemma feeds_done: "feeds rd w [] \<Longrightarrow> \<exists>w'. rd w n = (Some [], w')"
  by (erule feedsE) auto

text \<open>A reader of a list, a few bytes at a time.\<close>

definition list_reader :: "nat \<Rightarrow> u8 list reader" where
  "list_reader m w n = (Some (take (min m n) w), drop (min m n) w)"

lemma list_reader_feeds: "0 < m \<Longrightarrow> feeds (list_reader m) xs xs"
proof (induction xs rule: length_induct)
  case (1 xs)
  show ?case
  proof (cases "xs = []")
    case True
    then show ?thesis by (simp add: feeds.intros(1) list_reader_def)
  next
    case False
    show ?thesis
    proof (rule feeds_more [OF False], intro allI impI)
      fix n :: nat assume n: "0 < n"
      let ?k = "min (min m n) (length xs)"
      have "list_reader m xs n = (Some (take ?k xs), drop ?k xs)" by (simp add: list_reader_def min_def)
      moreover have "0 < ?k" using n "1.prems" False by simp
      moreover have "feeds (list_reader m) (drop ?k xs) (drop ?k xs)" using "1.IH" "1.prems" False n by simp
      ultimately show "\<exists>k w'. list_reader m xs n = (Some (take k xs), w') \<and> 0 < k \<and> k \<le> n \<and> k \<le> length xs \<and> feeds (list_reader m) w' (drop k xs)"
        by (intro exI [of _ ?k] exI [of _ "drop ?k xs"]) simp
    qed
  qed
qed

text \<open>The calls of the programs that go through a list of files: open, read and close. What they write is the list of
  the descriptors and bytes of their \<open>write\<close> calls.\<close>

record 'w fileops =
  f_open :: "u8 list \<Rightarrow> 'w \<Rightarrow> int \<times> 'w"
  f_read :: "int \<Rightarrow> 'w reader"
  f_close :: "int \<Rightarrow> 'w \<Rightarrow> 'w"

type_synonym writes = "(int \<times> u8 list) list"

section \<open>Searching\<close>

declare strchr_from.simps [code]

lemma strchr_from_cstr:
  assumes "c \<noteq> 0"
  shows "strchr_from (cstr (as @ bs)) c (length as) =
    Some (if c \<in> set (takeWhile (\<lambda>b. b \<noteq> 0) bs) then Some (length as + length (takeWhile (\<lambda>b. b \<noteq> c) bs)) else None)"
proof (induction bs arbitrary: as)
  case Nil
  then show ?case by (subst strchr_from.simps) (simp add: cstr_def)
next
  case (Cons b bs)
  have "cstr (as @ b # bs) (length as) = b" by (simp add: cstr_def)
  then show ?case using Cons [of "as @ [b]"] assms by (subst strchr_from.simps) auto
qed

lemma strchr_cstr:
  "c \<noteq> 0 \<Longrightarrow> strchr (cstr bs) c = Some (if c \<in> set (takeWhile (\<lambda>b. b \<noteq> 0) bs) then Some (length (takeWhile (\<lambda>b. b \<noteq> c) bs)) else None)"
  using strchr_from_cstr [of c "[]" bs] by (simp add: strchr_def)

lemma strchr_found:
  assumes "strchr (cstr bs) c = Some (Some i)" "c \<noteq> 0"
  shows "i < length bs" "bs ! i = c" "c \<notin> set (take i bs)"
proof -
  have i: "i = length (takeWhile (\<lambda>b. b \<noteq> c) bs)" and c: "c \<in> set (takeWhile (\<lambda>b. b \<noteq> 0) bs)"
    using assms by (auto simp: strchr_cstr split: if_splits)
  have "c \<in> set bs" using c by (meson set_takeWhileD)
  then show l: "i < length bs" unfolding i by (induction bs) auto
  show "bs ! i = c" using nth_length_takeWhile [of "\<lambda>b. b \<noteq> c" bs] l i by simp
  have "take i bs = takeWhile (\<lambda>b. b \<noteq> c) bs" unfolding i by (rule takeWhile_eq_take [symmetric])
  then show "c \<notin> set (take i bs)" by (metis set_takeWhileD)
qed

end
