(* ===== verification/Grep.thy ===== *)
theory Grep
  imports Ulib
begin

text \<open>
  The program \<^verbatim>\<open>user/grep.c\<close>: the matcher on C strings, where a string is the list of the bytes before its NUL and a
  pointer into it a suffix, and the loop that reads the input into a buffer of 1024 bytes and prints the lines that
  match. The reference definitions give a pattern its language and split the input into lines.
\<close>

section \<open>The program\<close>

lemma cstr_nonzero: "cstr xs i \<noteq> 0 \<Longrightarrow> i < length xs"
  by (simp add: cstr_def split: if_splits)

function (sequential) matchhere :: "u8 list \<Rightarrow> u8 list \<Rightarrow> bool"
  and matchstar :: "u8 \<Rightarrow> u8 list \<Rightarrow> u8 list \<Rightarrow> bool" where
  "matchhere re text =
     (if cstr re 0 = 0 then True
      else if cstr re 1 = 42 then matchstar (cstr re 0) (drop 2 re) text
      else if cstr re 0 = 36 \<and> cstr re 1 = 0 then cstr text 0 = 0
      else if cstr text 0 \<noteq> 0 \<and> (cstr re 0 = 46 \<or> cstr re 0 = cstr text 0) then matchhere (drop 1 re) (drop 1 text)
      else False)"
| "matchstar c re text =
     (if matchhere re text then True
      else if cstr text 0 \<noteq> 0 \<and> (cstr text 0 = c \<or> c = 46) then matchstar c re (drop 1 text)
      else False)"
  by pat_completeness auto
termination
  by (relation "inv_image (less_than <*lex*> less_than <*lex*> less_than)
    (case_sum (\<lambda>(re, text). (length re, length text, 0 :: nat)) (\<lambda>(c, re, text). (length re, length text, 1)))")
    (auto dest!: cstr_nonzero)

declare matchhere.simps [simp del] matchstar.simps [simp del]

text \<open>The loop of \<open>match\<close> looks at the empty string too.\<close>

function match_from :: "u8 list \<Rightarrow> u8 list \<Rightarrow> bool" where
  "match_from re text = (if matchhere re text then True else if cstr text 0 \<noteq> 0 then match_from re (drop 1 text) else False)"
  by pat_completeness auto
termination
  by (relation "measure (\<lambda>(re, text). length text)") (auto dest: cstr_nonzero)

declare match_from.simps [simp del]

definition match :: "u8 list \<Rightarrow> u8 list \<Rightarrow> bool" where
  "match re text = (if cstr re 0 = 94 then matchhere (drop 1 re) text else match_from re text)"

text \<open>The lines of the buffer from \<open>p\<close> on: the lines printed, and what is left after the last newline.\<close>

function grep_lines :: "u8 list \<Rightarrow> u8 list \<Rightarrow> u8 list list \<times> u8 list" where
  "grep_lines pattern p =
     (case strchr (cstr p) 10 of
        Some (Some q) \<Rightarrow>
          (let (out, r) = grep_lines pattern (drop (q + 1) p)
           in (if match pattern (take q p) then (take q p @ [10]) # out else out, r))
      | _ \<Rightarrow> ([], p))"
  by pat_completeness auto
termination
  by (relation "measure (\<lambda>(pattern, p). length p)") (auto dest!: strchr_found(1))

declare grep_lines.simps [simp del]

partial_function (option) grep :: "'w reader \<Rightarrow> u8 list \<Rightarrow> u8 list \<Rightarrow> 'w \<Rightarrow> (u8 list list \<times> 'w) option" where
  "grep rd pattern buf w =
     (case rd w (1024 - length buf - 1) of
        (Some (b # bs), w) \<Rightarrow>
          (let (out, r) = grep_lines pattern (buf @ b # bs)
           in do {
             (out', w) \<leftarrow> grep rd pattern r w;
             Some (out @ out', w)
           })
      | (_, w) \<Rightarrow> Some ([], w))"

text \<open>The files named on the command line: exit status, output and the next state.\<close>

fun grep_files :: "'w fileops \<Rightarrow> u8 list \<Rightarrow> u8 list list \<Rightarrow> 'w \<Rightarrow> (int \<times> writes \<times> 'w) option" where
  "grep_files io pattern [] w = Some (0, [], w)"
| "grep_files io pattern (a # args) w =
     (let (fd, w) = f_open io a w
      in if fd < 0 then Some (1, [(1, str ''grep: cannot open '' @ a @ [10])], w)
         else do {
           (out, w) \<leftarrow> grep (f_read io fd) pattern [] w;
           let w = f_close io fd w;
           (r, out', w) \<leftarrow> grep_files io pattern args w;
           Some (r, map (Pair 1) out @ out', w)
         })"

definition grep_main :: "'w fileops \<Rightarrow> u8 list list \<Rightarrow> 'w \<Rightarrow> (int \<times> writes \<times> 'w) option" where
  "grep_main io argv w =
     (case argv of
        (_ # pattern # files) \<Rightarrow>
          if files = [] then do {
            (out, w) \<leftarrow> grep (f_read io 0) pattern [] w;
            Some (0, map (Pair 1) out, w)
          } else grep_files io pattern files w
      | _ \<Rightarrow> Some (1, [(2, str ''usage: grep pattern [file ...]'' @ [10])], w))"

section \<open>The language of a pattern\<close>

datatype rx = Any | AtEnd | One u8 rx | Many u8 rx

fun rx_of :: "u8 list \<Rightarrow> rx" where
  "rx_of [] = Any"
| "rx_of (c # d # r) = (if d = 42 then Many c (rx_of r) else One c (rx_of (d # r)))"
| "rx_of [c] = (if c = 36 then AtEnd else One c Any)"

definition fits :: "u8 \<Rightarrow> u8 \<Rightarrow> bool" where
  "fits c x \<longleftrightarrow> c = 46 \<or> c = x"

text \<open>The texts that begin with a match.\<close>

primrec starts :: "rx \<Rightarrow> u8 list set" where
  "starts Any = UNIV"
| "starts AtEnd = {[]}"
| "starts (One c r) = {x # v | x v. fits c x \<and> v \<in> starts r}"
| "starts (Many c r) = {u @ v | u v. list_all (fits c) u \<and> v \<in> starts r}"

definition language :: "u8 list \<Rightarrow> u8 list set" where
  "language re = (case re of
     c # r \<Rightarrow> if c = 94 then starts (rx_of r) else {u @ v | u v. v \<in> starts (rx_of re)}
   | [] \<Rightarrow> UNIV)"

lemma starts_Many: "ts \<in> starts (Many c r) \<longleftrightarrow> ts \<in> starts r \<or> (\<exists>x v. ts = x # v \<and> fits c x \<and> v \<in> starts (Many c r))"
proof
  assume "ts \<in> starts (Many c r)"
  then obtain u v where t: "ts = u @ v" "list_all (fits c) u" "v \<in> starts r" by auto
  then show "ts \<in> starts r \<or> (\<exists>x v. ts = x # v \<and> fits c x \<and> v \<in> starts (Many c r))" by (cases u) auto
next
  assume "ts \<in> starts r \<or> (\<exists>x v. ts = x # v \<and> fits c x \<and> v \<in> starts (Many c r))"
  then show "ts \<in> starts (Many c r)"
  proof
    assume "ts \<in> starts r"
    then have "ts = [] @ ts" "list_all (fits c) []" "ts \<in> starts r" by simp_all
    then show ?thesis unfolding starts.simps by blast
  next
    assume "\<exists>x v. ts = x # v \<and> fits c x \<and> v \<in> starts (Many c r)"
    then obtain x u v where "ts = (x # u) @ v" "list_all (fits c) (x # u)" "v \<in> starts r" by auto
    then show ?thesis unfolding starts.simps by blast
  qed
qed

lemma cstr_1 [simp]: "cstr (c # d # r) 1 = d" "cstr [c] 1 = 0" "cstr (c # d # r) (Suc 0) = d" "cstr [c] (Suc 0) = 0"
  by (simp_all add: cstr_def)

lemma matchhere_Cons:
  "c \<noteq> 0 \<Longrightarrow> d \<noteq> 0 \<Longrightarrow> matchhere (c # d # r) ts =
    (if d = 42 then matchstar c r ts else case ts of [] \<Rightarrow> False | x # v \<Rightarrow> x \<noteq> 0 \<and> (c = 46 \<or> c = x) \<and> matchhere (d # r) v)"
  "c \<noteq> 0 \<Longrightarrow> matchhere [c] ts =
    (if c = 36 then cstr ts 0 = 0 else case ts of [] \<Rightarrow> False | x # v \<Rightarrow> x \<noteq> 0 \<and> (c = 46 \<or> c = x))"
  by (simp_all add: matchhere.simps [of "c # d # r"] matchhere.simps [of "[c]"] matchhere.simps [of "[]"] split: list.splits)

lemma matchhere_starts:
  "0 \<notin> set re \<Longrightarrow> 0 \<notin> set ts \<Longrightarrow> matchhere re ts \<longleftrightarrow> ts \<in> starts (rx_of re)"
  "0 \<notin> set re' \<Longrightarrow> 0 \<notin> set ts' \<Longrightarrow> matchstar c re' ts' \<longleftrightarrow> ts' \<in> starts (Many c (rx_of re'))"
proof (induction re ts and c re' ts' rule: matchhere_matchstar.induct)
  case (1 re ts)
  have drop0: "0 \<notin> set (drop n re)" "0 \<notin> set (drop n ts)" for n using 1(3,4) by (meson in_set_dropD)+
  show ?case
  proof (cases re rule: rx_of.cases)
    case 1
    then show ?thesis by (simp add: matchhere.simps)
  next
    case re: (2 c d r)
    have z: "c \<noteq> 0" "d \<noteq> 0" using 1(3) re by auto
    show ?thesis
    proof (cases "d = 42")
      case True
      have "matchstar c r ts \<longleftrightarrow> ts \<in> starts (Many c (rx_of r))" using 1(1) z re True drop0(1) [of 2] 1(4) by simp
      then show ?thesis using z True by (simp add: re matchhere_Cons del: starts.simps)
    next
      case False
      have "matchhere (d # r) v \<longleftrightarrow> v \<in> starts (rx_of (d # r))" if "ts = x # v" "c = 46 \<or> c = x" for x v
        using 1(2) z re False drop0(1) [of 1] drop0(2) [of 1] 1(4) that by auto
      then show ?thesis using z False 1(4) by (cases ts) (auto simp: re matchhere_Cons fits_def)
    qed
  next
    case re: (3 c)
    then show ?thesis using 1(3,4) by (cases ts) (auto simp: matchhere_Cons fits_def)
  qed
next
  case (2 c re ts)
  have d: "0 \<notin> set (drop 1 ts)" using 2(4) by (meson in_set_dropD)
  show ?case
  proof (cases ts)
    case Nil
    then show ?thesis using 2(1,3,4) starts_Many [of ts c "rx_of re"] by (simp add: matchstar.simps [of c re "[]"] del: starts.simps)
  next
    case (Cons x v)
    then show ?thesis using 2 d starts_Many [of ts c "rx_of re"] by (auto simp: matchstar.simps [of c re "x # v"] fits_def simp del: starts.simps)
  qed
qed

lemma match_from_starts:
  "0 \<notin> set re \<Longrightarrow> 0 \<notin> set ts \<Longrightarrow> match_from re ts \<longleftrightarrow> (\<exists>u v. ts = u @ v \<and> v \<in> starts (rx_of re))"
proof (induction ts)
  case Nil
  then show ?case by (simp add: match_from.simps [of re "[]"] matchhere_starts)
next
  case (Cons x ts)
  have "(\<exists>u v. x # ts = u @ v \<and> v \<in> starts (rx_of re)) \<longleftrightarrow> x # ts \<in> starts (rx_of re) \<or> (\<exists>u v. ts = u @ v \<and> v \<in> starts (rx_of re))"
    by (auto simp: Cons_eq_append_conv)
  then show ?case using Cons by (simp add: match_from.simps [of re "x # ts"] matchhere_starts)
qed

section \<open>Lines\<close>

text \<open>The complete lines of a text that continues the line begun in \<open>l\<close>, and the line it ends in.\<close>

fun lines_of :: "u8 list \<Rightarrow> u8 list \<Rightarrow> u8 list list \<times> u8 list" where
  "lines_of l [] = ([], l)"
| "lines_of l (b # bs) = (if b = 10 then let (ls, r) = lines_of [] bs in (l # ls, r) else lines_of (l @ [b]) bs)"

definition selected :: "u8 list \<Rightarrow> u8 list list \<Rightarrow> u8 list list" where
  "selected pattern ls = map (\<lambda>l. l @ [10]) (filter (match pattern) ls)"

lemma lines_of_append: "lines_of l (xs @ ys) = (let (ls, r) = lines_of l xs; (ls', r') = lines_of r ys in (ls @ ls', r'))"
  by (induction l xs rule: lines_of.induct) (auto simp: Let_def split: prod.splits)

lemma lines_of_line: "10 \<notin> set xs \<Longrightarrow> lines_of l xs = ([], l @ xs)"
  by (induction xs arbitrary: l) auto

lemma lines_of_first: "10 \<notin> set xs \<Longrightarrow> lines_of l (xs @ 10 # ys) = ((l @ xs) # fst (lines_of [] ys), snd (lines_of [] ys))"
  by (induction xs arbitrary: l) (auto split: prod.splits)

lemma lines_of_rest: "10 \<notin> set l \<Longrightarrow> 0 \<notin> set l \<Longrightarrow> 0 \<notin> set xs \<Longrightarrow> lines_of l xs = (ls, r) \<Longrightarrow> 10 \<notin> set r \<and> 0 \<notin> set r"
  by (induction l xs arbitrary: ls r rule: lines_of.induct) (auto split: if_splits prod.splits)

lemma lines_of_length: "lines_of l xs = (ls, r) \<Longrightarrow> length l \<le> length r \<or> (\<exists>h t. ls = h # t \<and> length l \<le> length h)"
  by (induction l xs arbitrary: ls r rule: lines_of.induct) (force split: if_splits prod.splits)+

lemma grep_lines_spec: "0 \<notin> set p \<Longrightarrow> grep_lines pattern p = (selected pattern (fst (lines_of [] p)), snd (lines_of [] p))"
proof (induction p rule: length_induct)
  case (1 p)
  have tw: "takeWhile (\<lambda>b. b \<noteq> 0) p = p" using "1.prems" by (metis (mono_tags) takeWhile_eq_all_conv)
  show ?case
  proof (cases "10 \<in> set p")
    case False
    then have "strchr (cstr p) 10 = Some None" by (simp add: strchr_cstr tw)
    then show ?thesis using lines_of_line [OF False, of "[]"] by (simp add: grep_lines.simps [of pattern p] selected_def)
  next
    case True
    then obtain q where q: "strchr (cstr p) 10 = Some (Some q)" by (simp add: strchr_cstr tw)
    note f = strchr_found [OF q, simplified]
    have e: "p = take q p @ 10 # drop (q + 1) p" using f id_take_nth_drop [of q p] by simp
    have n: "0 \<notin> set (drop (q + 1) p)" using "1.prems" by (meson in_set_dropD)
    have "grep_lines pattern (drop (q + 1) p) = (selected pattern (fst (lines_of [] (drop (q + 1) p))), snd (lines_of [] (drop (q + 1) p)))"
      using "1.IH" n f(1) by simp
    moreover have "lines_of [] p = (take q p # fst (lines_of [] (drop (q + 1) p)), snd (lines_of [] (drop (q + 1) p)))"
      using lines_of_first [OF f(3), of "[]" "drop (q + 1) p"] e by simp
    ultimately show ?thesis using q by (simp add: grep_lines.simps [of pattern p] selected_def)
  qed
qed

definition short_lines :: "u8 list list \<times> u8 list \<Rightarrow> bool" where
  "short_lines x \<longleftrightarrow> (\<forall>l\<in>set (fst x). length l < 1023) \<and> length (snd x) < 1023"

lemma grep_spec:
  assumes "feeds rd w xs" "0 \<notin> set xs" "0 \<notin> set buf" "10 \<notin> set buf" "short_lines (lines_of buf xs)"
  shows "\<exists>w'. grep rd pattern buf w = Some (selected pattern (fst (lines_of buf xs)), w')"
  using assms
proof (induction xs arbitrary: w buf rule: length_induct)
  case (1 xs)
  obtain ls r where lr: "lines_of buf xs = (ls, r)" by fastforce
  have lb: "length buf < 1023" using lines_of_length [OF lr] "1.prems"(5) lr by (auto simp: short_lines_def)
  show ?case
  proof (cases "xs = []")
    case True
    have "feeds rd w []" using "1.prems"(1) True by simp
    from feeds_done [OF this] obtain w' where "rd w (1024 - length buf - 1) = (Some [], w')" by blast
    then show ?thesis using True by (simp add: grep.simps [of rd pattern buf w] selected_def)
  next
    case False
    have n: "0 < 1024 - length buf - 1" using lb by simp
    obtain k w' where k: "rd w (1024 - length buf - 1) = (Some (take k xs), w')" "0 < k" "k \<le> length xs" "feeds rd w' (drop k xs)"
      by (rule feeds_read [OF "1.prems"(1) False n])
    obtain b bs where bb: "take k xs = b # bs" using k(2,3) False by (cases "take k xs") auto
    obtain l1 r1 where 1: "lines_of buf (take k xs) = (l1, r1)" by fastforce
    have a: "lines_of [] (buf @ take k xs) = (l1, r1)" using lines_of_append [of "[]" buf] lines_of_line [OF "1.prems"(4), of "[]"] 1 by simp
    obtain l2 where 2: "lines_of r1 (drop k xs) = (l2, r)" "ls = l1 @ l2"
      using lines_of_append [of buf "take k xs" "drop k xs"] lr 1 by (auto simp: Let_def split: prod.splits)
    have z: "0 \<notin> set (take k xs)" "0 \<notin> set (drop k xs)" using "1.prems"(2) by (meson in_set_takeD in_set_dropD)+
    note r1 = lines_of_rest [OF "1.prems"(4,3) z(1) 1]
    have "short_lines (lines_of r1 (drop k xs))" using "1.prems"(5) lr 2 by (simp add: short_lines_def)
    moreover have "length (drop k xs) < length xs" using k(2,3) False by simp
    ultimately obtain w'' where "grep rd pattern r1 w' = Some (selected pattern l2, w'')"
      using "1.IH" [rule_format, of "drop k xs" w' r1] k(4) z(2) r1 2(1) by auto
    moreover have "grep_lines pattern (buf @ b # bs) = (selected pattern l1, r1)"
      using grep_lines_spec [of "buf @ take k xs" pattern] a z(1) "1.prems"(3) bb by simp
    ultimately have "grep rd pattern buf w = Some (selected pattern ls, w'')"
      using k(1) bb 2(2) by (simp add: grep.simps [of rd pattern buf w] selected_def)
    then show ?thesis using lr by simp
  qed
qed

section \<open>Properties\<close>

text \<open>C32: the matcher decides the language of the pattern: \<open>match re ts\<close> exactly when a part of the text, from its
  beginning after \<open>^\<close> and from anywhere otherwise, is described by the pattern, where \<open>.\<close> stands for any byte,
  \<open>c*\<close> for any number of bytes \<open>c\<close>, and a final \<open>$\<close> for the end of the text.\<close>

theorem match_language:
  assumes "0 \<notin> set re" "0 \<notin> set ts"
  shows "match re ts \<longleftrightarrow> ts \<in> language re"
proof (cases re)
  case Nil
  then show ?thesis using match_from_starts [of "[]" ts] assms by (auto simp: match_def language_def)
next
  case (Cons c r)
  then show ?thesis
    using match_from_starts [OF assms] matchhere_starts(1) [of r ts] assms by (auto simp: match_def language_def)
qed

theorem match_language_witness:
  "match (str ''a.*d$'') (str ''xxabcd'') \<and> str ''xxabcd'' \<in> language (str ''a.*d$'')"
proof -
  have "0 \<notin> set (str ''a.*d$'')" "0 \<notin> set (str ''xxabcd'')" and m: "match (str ''a.*d$'') (str ''xxabcd'')" by code_simp+
  from match_language [OF this(1,2)] m show ?thesis by blast
qed

text \<open>C33: on an input without NUL bytes whose lines, the last one included, are shorter than 1023 bytes, \<open>grep\<close> returns
  and has printed exactly the complete lines that match, in order, however the reads split the input.\<close>

theorem grep_prints_matching_lines:
  assumes "feeds rd w xs" "0 \<notin> set xs" "short_lines (lines_of [] xs)"
  shows "\<exists>w'. grep rd pattern [] w = Some (selected pattern (fst (lines_of [] xs)), w')"
  using grep_spec [OF assms(1,2) _ _ assms(3)] by simp

theorem grep_prints_matching_lines_witness:
  "\<exists>w'. grep (list_reader 3) (str ''b'') [] (str ''abc'' @ [10] @ str ''xyz'' @ [10] @ str ''b'') = Some ([str ''abc'' @ [10]], w')"
proof -
  let ?xs = "str ''abc'' @ [10] @ str ''xyz'' @ [10] @ str ''b''"
  have "selected (str ''b'') (fst (lines_of [] ?xs)) = [str ''abc'' @ [10]]" "short_lines (lines_of [] ?xs)" "0 \<notin> set ?xs" by code_simp+
  then show ?thesis using grep_prints_matching_lines [OF list_reader_feeds, of 3 ?xs "str ''b''"] by simp
qed

end
