(* ===== verification/Tools.thy ===== *)
theory Tools
  imports Ulib
begin

text \<open>
  The programs \<^verbatim>\<open>user/wc.c\<close>, \<^verbatim>\<open>user/cat.c\<close> and \<^verbatim>\<open>user/echo.c\<close>. Their loops over the input stop at the first read that
  gives nothing or fails; the lemmas show that how the reads split the input does not matter.
\<close>

section \<open>wc\<close>

record counts =
  n_l :: u32
  n_w :: u32
  n_c :: u32
  inword :: bool

definition space :: "u8 \<Rightarrow> bool" where
  "space c = (case strchr (cstr [32, 13, 9, 10, 11]) c of Some (Some _) \<Rightarrow> True | _ \<Rightarrow> False)"

definition wc_byte :: "u8 \<Rightarrow> counts \<Rightarrow> counts" where
  "wc_byte b x =
     (let x = x\<lparr>n_c := n_c x + 1\<rparr>;
          x = (if b = 10 then x\<lparr>n_l := n_l x + 1\<rparr> else x)
      in if space b then x\<lparr>inword := False\<rparr>
         else if \<not> inword x then x\<lparr>n_w := n_w x + 1, inword := True\<rparr>
         else x)"

text \<open>The counts at the end of the input, or \<open>None\<close> in the first component after a read error.\<close>

partial_function (option) wc_loop :: "'w reader \<Rightarrow> counts \<Rightarrow> 'w \<Rightarrow> (counts option \<times> 'w) option" where
  "wc_loop rd x w =
     (case rd w 512 of
        (None, w) \<Rightarrow> Some (None, w)
      | (Some bs, w) \<Rightarrow> if bs = [] then Some (Some x, w) else wc_loop rd (fold wc_byte bs x) w)"

definition wc :: "'w reader \<Rightarrow> 'w \<Rightarrow> (counts option \<times> 'w) option" where
  "wc rd w = wc_loop rd \<lparr>n_l = 0, n_w = 0, n_c = 0, inword = False\<rparr> w"

section \<open>cat and echo\<close>

partial_function (option) cat :: "'w reader \<Rightarrow> (u8 list \<Rightarrow> 'w \<Rightarrow> int \<times> 'w) \<Rightarrow> 'w \<Rightarrow> (int \<times> 'w) option" where
  "cat rd wr w =
     (case rd w 512 of
        (None, w) \<Rightarrow> Some (1, w)
      | (Some bs, w) \<Rightarrow>
          if bs = [] then Some (0, w)
          else let (n, w) = wr bs w in if n \<noteq> int (length bs) then Some (1, w) else cat rd wr w)"

fun echo_args :: "u8 list list \<Rightarrow> u8 list list" where
  "echo_args [] = []"
| "echo_args [a] = [a, [10]]"
| "echo_args (a # b # as) = a # [32] # echo_args (b # as)"

definition echo :: "u8 list list \<Rightarrow> u8 list list" where
  "echo argv = echo_args (tl argv)"

section \<open>What they compute\<close>

text \<open>A word begins at a byte that is not a space and is the first one or follows a space.\<close>

definition word_starts :: "u8 list \<Rightarrow> nat set" where
  "word_starts xs = {i. i < length xs \<and> \<not> space (xs ! i) \<and> (i = 0 \<or> space (xs ! (i - 1)))}"

lemma word_starts_code [code]: "word_starts xs = set (filter (\<lambda>i. \<not> space (xs ! i) \<and> (i = 0 \<or> space (xs ! (i - 1)))) [0..<length xs])"
  by (auto simp: word_starts_def)

lemma word_starts_snoc:
  "word_starts (xs @ [b]) = word_starts xs \<union> (if \<not> space b \<and> (xs = [] \<or> space (last xs)) then {length xs} else {})"
proof (cases "xs = []")
  case False
  then have "xs ! (length xs - Suc 0) = last xs" "0 < length xs" by (simp_all add: last_conv_nth)
  then show ?thesis by (auto simp: word_starts_def nth_append less_Suc_eq split: if_splits)
qed (auto simp: word_starts_def)

lemma finite_word_starts: "finite (word_starts xs)"
  by (rule finite_subset [of _ "{..<length xs}"]) (auto simp: word_starts_def)

definition counted :: "u8 list \<Rightarrow> counts" where
  "counted xs = \<lparr>n_l = of_nat (length (filter (\<lambda>b. b = 10) xs)), n_w = of_nat (card (word_starts xs)), n_c = of_nat (length xs), inword = (xs \<noteq> [] \<and> \<not> space (last xs))\<rparr>"

lemma wc_byte_counted: "wc_byte b (counted xs) = counted (xs @ [b])"
proof -
  have "length xs \<notin> word_starts xs" by (simp add: word_starts_def)
  then show ?thesis by (auto simp: wc_byte_def counted_def word_starts_snoc finite_word_starts Let_def)
qed

lemma wc_bytes_counted: "fold wc_byte bs (counted xs) = counted (xs @ bs)"
  by (induction bs arbitrary: xs) (simp_all add: wc_byte_counted)

lemma wc_loop_counted: "feeds rd w xs \<Longrightarrow> \<exists>w'. wc_loop rd (counted as) w = Some (Some (counted (as @ xs)), w')"
proof (induction xs arbitrary: w as rule: length_induct)
  case (1 xs)
  show ?case
  proof (cases "xs = []")
    case True
    then have "feeds rd w []" using "1.prems" by simp
    from feeds_done [OF this] obtain w' where "rd w 512 = (Some [], w')" by blast
    then show ?thesis using True by (simp add: wc_loop.simps [of rd _ w])
  next
    case False
    have pos512: "0 < (512 :: nat)" by simp
    obtain k w' where k: "rd w 512 = (Some (take k xs), w')" "0 < k" "k \<le> length xs" "feeds rd w' (drop k xs)"
      by (rule feeds_read [OF "1.prems" False pos512])
    have "length (drop k xs) < length xs" using k(2,3) False by simp
    with "1.IH" k(4) obtain w'' where "wc_loop rd (counted (as @ take k xs)) w' = Some (Some (counted ((as @ take k xs) @ drop k xs)), w'')" by blast
    then show ?thesis using k(1,2) False by (simp add: wc_loop.simps [of rd _ w] wc_bytes_counted)
  qed
qed

text \<open>C34: \<open>wc\<close> returns for every input, however the reads split it, the number of newlines, of words and of bytes
  modulo \<open>2 ^ 32\<close>, where a word begins at each byte that is no space and is the first byte or comes after a space.\<close>

theorem wc_counts:
  assumes "feeds rd w xs"
  shows "\<exists>w'. wc rd w = Some (Some (counted xs), w')"
proof -
  have "counted [] = \<lparr>n_l = 0, n_w = 0, n_c = 0, inword = False\<rparr>" by (simp add: counted_def word_starts_def)
  then show ?thesis using wc_loop_counted [OF assms, of "[]"] by (simp add: wc_def)
qed

theorem wc_counts_witness:
  "\<exists>x w'. wc (list_reader 2) (str ''ab c'' @ [10]) = Some (Some x, w') \<and> n_l x = 1 \<and> n_w x = 2 \<and> n_c x = 5 \<and> \<not> inword x"
proof -
  have "counted (str ''ab c'' @ [10]) = \<lparr>n_l = 1, n_w = 2, n_c = 5, inword = False\<rparr>" by code_simp
  then show ?thesis using wc_counts [OF list_reader_feeds, of 2 "str ''ab c'' @ [10]"] by auto
qed

end
