(* ===== verification/Shell.thy ===== *)
theory Shell
  imports Ulib "HOL-Library.Sublist"
begin

text \<open>
  The shell \<^verbatim>\<open>user/sh.c\<close>. A pointer into the command line is the rest of the line from there on, so \<open>*s\<close> is the first
  byte of the rest or NUL, and the end \<open>es\<close> is the empty rest. A word is given by its two pointers \<open>q\<close> and \<open>eq\<close> until
  \<open>nulterminate\<close> cuts the line behind each word. The recursive parser has fuel; a lemma shows that the fuel \<open>parsecmd\<close>
  gives is enough for every line. A panic of the parser is the result \<open>Panic\<close> with its message.
\<close>

section \<open>Commands and tokens\<close>

datatype (set_cmd: 'a) cmd =
    EXEC "'a list"
  | REDIR "'a cmd" 'a u32 int
  | PIPE "'a cmd" "'a cmd"
  | LIST "'a cmd" "'a cmd"
  | BACK "'a cmd"
  for map: map_cmd

type_synonym ptr = "u8 list"
type_synonym tok = "ptr \<times> ptr"

abbreviation MAXARGS :: nat where "MAXARGS \<equiv> 10"

definition ws :: "u8 \<Rightarrow> bool" where
  "ws c \<longleftrightarrow> c \<in> {32, 9, 13, 10, 11}"

definition symbol :: "u8 \<Rightarrow> bool" where
  "symbol c \<longleftrightarrow> c \<in> {60, 124, 62, 38, 59, 40, 41}"

definition skipws :: "ptr \<Rightarrow> ptr" where
  "skipws s = dropWhile ws s"

definition skipword :: "ptr \<Rightarrow> ptr" where
  "skipword s = dropWhile (\<lambda>c. \<not> ws c \<and> \<not> symbol c) s"

text \<open>\<open>gettoken\<close> returns the kind of the token, its two ends and the new position.\<close>

definition gettoken :: "ptr \<Rightarrow> u8 \<times> tok \<times> ptr" where
  "gettoken s =
     (let q = skipws s; c = cstr q 0;
          (ret, eq) =
            (if c = 0 then (0, q)
             else if c \<in> {124, 40, 41, 59, 38, 60} then (c, drop 1 q)
             else if c = 62 then (if cstr q 1 = 62 then (43, drop 2 q) else (62, drop 1 q))
             else (97, skipword q))
      in (ret, (q, eq), skipws eq))"

definition peek :: "ptr \<Rightarrow> u8 list \<Rightarrow> bool \<times> ptr" where
  "peek s toks = (let s = skipws s in (cstr s 0 \<noteq> 0 \<and> cstr s 0 \<in> set toks, s))"

section \<open>The parser\<close>

datatype 'a res = Ok 'a | Panic string | Out

primrec bindr :: "'a res \<Rightarrow> ('a \<Rightarrow> 'b res) \<Rightarrow> 'b res" where
  "bindr (Ok x) f = f x"
| "bindr (Panic m) f = Panic m"
| "bindr Out f = Out"

text \<open>Open modes.\<close>

abbreviation O_RDONLY :: u32 where "O_RDONLY \<equiv> 0"
abbreviation O_WRITE :: u32 where "O_WRITE \<equiv> 0x601"
abbreviation O_APPEND :: u32 where "O_APPEND \<equiv> 0x201"

lemma length_skipws: "length (skipws s) \<le> length s"
  by (simp add: skipws_def length_dropWhile_le)

lemma length_skipword: "length (skipword s) \<le> length s"
  by (simp add: skipword_def length_dropWhile_le)

lemma gettoken_length:
  assumes "gettoken s = (t, (q, eq), s')"
  shows "length s' \<le> length s" "t \<noteq> 0 \<Longrightarrow> length s' < length s"
proof -
  have l: "length s' \<le> length eq" "length q \<le> length s" and q: "q = skipws s"
    using assms length_skipws by (auto simp: gettoken_def Let_def split: prod.splits)
  have e: "length eq \<le> length q \<and> (t \<noteq> 0 \<longrightarrow> length eq < length q)"
  proof (cases q)
    case Nil
    then show ?thesis using assms by (auto simp: gettoken_def Let_def q [symmetric] split: if_splits)
  next
    case (Cons c r)
    then have "\<not> ws c" using q by (metis skipws_def dropWhile_eq_Cons_conv)
    then have "length (skipword (c # r)) \<le> length r" if "\<not> symbol c" using that by (simp add: skipword_def length_dropWhile_le)
    then show ?thesis using assms Cons by (auto simp: gettoken_def Let_def q [symmetric] symbol_def split: if_splits)
  qed
  show "length s' \<le> length s" "t \<noteq> 0 \<Longrightarrow> length s' < length s" using l e by auto
qed

lemma peek_token:
  assumes "peek s toks = (True, s')"
  shows "fst (gettoken s') \<noteq> 0"
proof -
  have "s' = skipws s" "cstr s' 0 \<noteq> 0" using assms by (auto simp: peek_def Let_def)
  moreover have "skipws (skipws s) = skipws s" by (simp add: skipws_def)
  ultimately show ?thesis by (auto simp: gettoken_def Let_def)
qed

lemma redir_shrinks:
  assumes "peek s toks = (True, s0)" "gettoken s0 = (tok, w0, s1)" "gettoken s1 = (t, w, s2)"
  shows "length s2 < length s"
proof -
  have "length s0 \<le> length s" using assms(1) length_skipws by (auto simp: peek_def Let_def)
  moreover have "length s1 < length s0" using gettoken_length(2) [of s0 tok "fst w0" "snd w0"] peek_token [OF assms(1)] assms(2) by simp
  moreover have "length s2 \<le> length s1" using gettoken_length(1) [of s1 t "fst w" "snd w"] assms(3) by simp
  ultimately show ?thesis by linarith
qed

lemma back_shrinks: "peek s toks = (True, s0) \<Longrightarrow> gettoken s0 = (tok, w0, s1) \<Longrightarrow> length s1 < length s"
  using gettoken_length(2) [of s0 tok "fst w0" "snd w0"] peek_token [of s toks s0] length_skipws [of s] by (auto simp: peek_def Let_def)

definition redir_of :: "u8 \<Rightarrow> tok \<Rightarrow> tok \<times> u32 \<times> int" where
  "redir_of tok w = (if tok = 60 then (w, O_RDONLY, 0) else if tok = 62 then (w, O_WRITE, 1) else (w, O_APPEND, 1))"

text \<open>The redirections from \<open>s\<close> on, in the order they are wrapped around the command.\<close>

function parseredirs :: "ptr \<Rightarrow> ((tok \<times> u32 \<times> int) list \<times> ptr) res" where
  "parseredirs s =
     (case peek s [60, 62] of
        (False, s) \<Rightarrow> Ok ([], s)
      | (True, s) \<Rightarrow>
          (case gettoken s of (tok, _, s1) \<Rightarrow>
           case gettoken s1 of (t, w, s2) \<Rightarrow>
             if t \<noteq> 97 then Panic ''missing file for redirection''
             else bindr (parseredirs s2) (\<lambda>(rs, s). Ok (redir_of tok w # rs, s))))"
  by pat_completeness auto
termination
  by (relation "measure length") (auto simp del: not_False_eq_True dest!: sym [where t = "peek _ _"] sym [where t = "gettoken _"] intro: redir_shrinks)

declare parseredirs.simps [simp del]

definition wrap :: "tok cmd \<Rightarrow> (tok \<times> u32 \<times> int) list \<Rightarrow> tok cmd" where
  "wrap cmd rs = foldl (\<lambda>c (f, mode, fd). REDIR c f mode fd) cmd rs"

text \<open>The loop of \<open>parseexec\<close>, with room for \<open>k\<close> more arguments: the arguments, the redirections between them and the
  new position.\<close>

fun parseargs :: "nat \<Rightarrow> ptr \<Rightarrow> ((tok list \<times> (tok \<times> u32 \<times> int) list) \<times> ptr) res" where
  "parseargs 0 s = Panic ''too many args''"
| "parseargs (Suc k) s =
     (case peek s [124, 41, 38, 59] of
        (True, s) \<Rightarrow> Ok (([], []), s)
      | (False, s) \<Rightarrow>
          (case gettoken s of (tok, w, s) \<Rightarrow>
             if tok = 0 then Ok (([], []), s)
             else if tok \<noteq> 97 then Panic ''syntax''
             else if k = 0 then Panic ''too many args''
             else bindr (parseredirs s) (\<lambda>(rs, s).
               bindr (parseargs k s) (\<lambda>((args, rs'), s). Ok ((w # args, rs @ rs'), s)))))"

text \<open>The loop of \<open>parseline\<close> over \<open>&\<close>.\<close>

function parsebacks :: "tok cmd \<Rightarrow> ptr \<Rightarrow> tok cmd \<times> ptr" where
  "parsebacks cmd s =
     (case peek s [38] of
        (False, s) \<Rightarrow> (cmd, s)
      | (True, s) \<Rightarrow> (case gettoken s of (_, _, s) \<Rightarrow> parsebacks (BACK cmd) s))"
  by pat_completeness auto
termination
  by (relation "measure (\<lambda>(cmd, s). length s)") (auto dest!: sym [where t = "peek _ _"] sym [where t = "gettoken _"] intro: back_shrinks)

declare parsebacks.simps [simp del]

fun parseline :: "nat \<Rightarrow> ptr \<Rightarrow> (tok cmd \<times> ptr) res"
  and parsepipe :: "nat \<Rightarrow> ptr \<Rightarrow> (tok cmd \<times> ptr) res"
  and parseexec :: "nat \<Rightarrow> ptr \<Rightarrow> (tok cmd \<times> ptr) res"
  and parseblock :: "nat \<Rightarrow> ptr \<Rightarrow> (tok cmd \<times> ptr) res" where
  "parseline 0 s = Out"
| "parseline (Suc n) s =
     bindr (parsepipe n s) (\<lambda>(cmd, s).
       case parsebacks cmd s of (cmd, s) \<Rightarrow>
       case peek s [59] of
         (False, s) \<Rightarrow> Ok (cmd, s)
       | (True, s) \<Rightarrow>
           (case gettoken s of (_, _, s) \<Rightarrow>
            bindr (parseline n s) (\<lambda>(right, s). Ok (LIST cmd right, s))))"
| "parsepipe 0 s = Out"
| "parsepipe (Suc n) s =
     bindr (parseexec n s) (\<lambda>(cmd, s).
       case peek s [124] of
         (False, s) \<Rightarrow> Ok (cmd, s)
       | (True, s) \<Rightarrow>
           (case gettoken s of (_, _, s) \<Rightarrow>
            bindr (parsepipe n s) (\<lambda>(right, s). Ok (PIPE cmd right, s))))"
| "parseexec 0 s = Out"
| "parseexec (Suc n) s =
     (case peek s [40] of
        (True, s) \<Rightarrow> parseblock n s
      | (False, s) \<Rightarrow>
          bindr (parseredirs s) (\<lambda>(rs, s).
          bindr (parseargs MAXARGS s) (\<lambda>((args, rs'), s).
            Ok (wrap (EXEC args) (rs @ rs'), s))))"
| "parseblock 0 s = Out"
| "parseblock (Suc n) s =
     (case peek s [40] of
        (False, s) \<Rightarrow> Panic ''parseblock''
      | (True, s) \<Rightarrow>
          (case gettoken s of (_, _, s) \<Rightarrow>
           bindr (parseline n s) (\<lambda>(cmd, s).
             case peek s [41] of
               (False, s) \<Rightarrow> Panic ''syntax - missing )''
             | (True, s) \<Rightarrow>
                 (case gettoken s of (_, _, s) \<Rightarrow>
                  bindr (parseredirs s) (\<lambda>(rs, s). Ok (wrap cmd rs, s))))))"

text \<open>A NUL behind each word: \<open>eq\<close> is the place in the line with the rest \<open>eq\<close> after it.\<close>

definition put_nul :: "ptr \<Rightarrow> u8 list \<Rightarrow> u8 list" where
  "put_nul eq buf = buf[length buf - length eq := 0]"

primrec nulterminate :: "tok cmd \<Rightarrow> u8 list \<Rightarrow> u8 list" where
  "nulterminate (EXEC args) buf = fold (\<lambda>w. put_nul (snd w)) args buf"
| "nulterminate (REDIR cmd f mode fd) buf = put_nul (snd f) (nulterminate cmd buf)"
| "nulterminate (PIPE left right) buf = nulterminate right (nulterminate left buf)"
| "nulterminate (LIST left right) buf = nulterminate right (nulterminate left buf)"
| "nulterminate (BACK cmd) buf = nulterminate cmd buf"

definition parsecmd :: "u8 list \<Rightarrow> (tok cmd \<times> u8 list) res" where
  "parsecmd s =
     bindr (parseline (4 * length s + 4) s) (\<lambda>(cmd, r).
       if snd (peek r []) \<noteq> [] then Panic ''syntax'' else Ok (cmd, nulterminate cmd s))"

text \<open>The string a word is after that: the bytes from \<open>q\<close> up to a NUL.\<close>

definition string_at :: "u8 list \<Rightarrow> tok \<Rightarrow> u8 list" where
  "string_at buf w = takeWhile (\<lambda>c. c \<noteq> 0) (drop (length buf - length (fst w)) buf)"

section \<open>The parser returns\<close>

text \<open>A word of the line: it begins with a byte that is neither white space nor a symbol and ends before the next such
  byte.\<close>

definition word_ok :: "ptr \<Rightarrow> tok \<Rightarrow> bool" where
  "word_ok s w \<longleftrightarrow> suffix (fst w) s \<and> snd w = skipword (fst w) \<and> fst w \<noteq> [] \<and> \<not> ws (hd (fst w)) \<and> \<not> symbol (hd (fst w))"

text \<open>A call that returns, at a position further on, with words of the line, where \<open>ws x\<close> are the words of a result.\<close>

definition returns :: "('a \<Rightarrow> tok set) \<Rightarrow> ptr \<Rightarrow> ('a \<times> ptr) res \<Rightarrow> bool" where
  "returns wds s r \<longleftrightarrow>
     (case r of Ok (x, s') \<Rightarrow> suffix s' s \<and> (\<forall>w\<in>wds x. word_ok s w) | Panic _ \<Rightarrow> True | Out \<Rightarrow> False)"

lemma returns_Ok [simp]: "returns wds s (Ok (x, s')) \<longleftrightarrow> suffix s' s \<and> (\<forall>w\<in>wds x. word_ok s w)" "returns wds s (Panic m)"
  by (simp_all add: returns_def)

lemma returns_bind:
  assumes "returns wds s r" "\<And>x s'. suffix s' s \<Longrightarrow> \<forall>w\<in>wds x. word_ok s w \<Longrightarrow> returns wds' s (f (x, s'))"
  shows "returns wds' s (bindr r f)"
proof (cases r)
  case (Ok y)
  then obtain x s' where "r = Ok (x, s')" by (cases y) simp
  then show ?thesis using assms by simp
qed (use assms(1) in \<open>simp_all add: returns_def\<close>)

lemma word_ok_mono: "word_ok s w \<Longrightarrow> suffix s t \<Longrightarrow> word_ok t w"
  using suffix_order.trans by (auto simp: word_ok_def)

lemma returns_mono: "returns wds s r \<Longrightarrow> suffix s t \<Longrightarrow> returns wds t r"
  using word_ok_mono suffix_order.trans by (fastforce simp: returns_def split: res.splits prod.splits)

lemma skips: "suffix (skipws s) s" "suffix (skipword s) s"
  by (simp_all add: skipws_def skipword_def suffix_dropWhile)

lemma peek_suffix: "peek s toks = (b, s') \<Longrightarrow> suffix s' s"
  using skips by (auto simp: peek_def Let_def)

lemma token_suffix: "gettoken s = (t, w, s') \<Longrightarrow> suffix s' s"
proof -
  assume "gettoken s = (t, w, s')"
  then have "s' = skipws (snd w)" "suffix (snd w) (skipws s)"
    using skips suffix_drop by (auto simp: gettoken_def Let_def split: if_splits)
  then show ?thesis using skips suffix_order.trans by blast
qed

lemma token_word:
  assumes "gettoken s = (97, w, s')"
  shows "word_ok s w"
proof -
  have q: "fst w = skipws s" "snd w = skipword (fst w)" "cstr (fst w) 0 \<noteq> 0" "cstr (fst w) 0 \<notin> {124, 40, 41, 59, 38, 60, 62}"
    using assms by (auto simp: gettoken_def Let_def split: if_splits)
  have "fst w \<noteq> []" using q(3) by auto
  then obtain c r where c: "fst w = c # r" by (meson neq_Nil_conv)
  then have "\<not> ws c" using q(1) by (metis skipws_def dropWhile_eq_Cons_conv)
  moreover have "suffix (fst w) s" using q(1) skips(1) by simp
  ultimately show ?thesis using q(2-4) by (simp add: word_ok_def symbol_def c)
qed

lemma shrinks: "peek s toks = (True, s0) \<Longrightarrow> gettoken s0 = (tok, w, s1) \<Longrightarrow> suffix s1 s \<and> length s1 < length s"
  using suffix_order.trans [OF token_suffix peek_suffix] back_shrinks by blast

lemma parseredirs_step:
  "peek s [60, 62] = (False, s0) \<Longrightarrow> parseredirs s = Ok ([], s0)"
  "peek s [60, 62] = (True, s0) \<Longrightarrow> gettoken s0 = (tok, w0, s1) \<Longrightarrow> gettoken s1 = (t, w, s2) \<Longrightarrow>
    parseredirs s = (if t \<noteq> 97 then Panic ''missing file for redirection''
      else bindr (parseredirs s2) (\<lambda>(rs, s). Ok (redir_of tok w # rs, s)))"
  by (simp_all add: parseredirs.simps [of s])

definition redir_words :: "(tok \<times> u32 \<times> int) list \<Rightarrow> tok set" where
  "redir_words rs = fst ` set rs"

lemma redir_words_simps [simp]: "redir_words [] = {}" "redir_words (redir_of tok w # rs) = insert w (redir_words rs)"
  "redir_words (rs @ rs') = redir_words rs \<union> redir_words rs'"
  by (auto simp: redir_words_def redir_of_def)

lemma parseredirs_returns: "returns redir_words s (parseredirs s)"
proof (induction s rule: length_induct)
  case (1 s)
  obtain b s0 where p: "peek s [60, 62] = (b, s0)" by fastforce
  obtain tok w0 s1 where g: "gettoken s0 = (tok, w0, s1)" using prod_cases3 by blast
  obtain t w s2 where g': "gettoken s1 = (t, w, s2)" using prod_cases3 by blast
  show ?case
  proof (cases "b \<and> t = 97")
    case True
    have l: "length s2 < length s" using redir_shrinks [of s "[60, 62]" s0, OF _ g g'] p True by simp
    have s1: "suffix s1 s" by (rule suffix_order.trans [OF token_suffix [OF g] peek_suffix [OF p]])
    have w: "word_ok s w" using token_word [of s1 w s2] g' True word_ok_mono [OF _ s1] by simp
    have "returns redir_words s2 (parseredirs s2)" using "1.IH" l by blast
    then have "returns redir_words s (parseredirs s2)" by (rule returns_mono [OF _ suffix_order.trans [OF token_suffix [OF g'] s1]])
    then have "returns redir_words s (bindr (parseredirs s2) (\<lambda>(rs, s). Ok (redir_of tok w # rs, s)))"
      by (rule returns_bind) (simp add: w)
    then show ?thesis using parseredirs_step(2) [OF _ g g'] p True by simp
  next
    case False
    then show ?thesis using parseredirs_step [of s] p peek_suffix [OF p] g g' by (cases b) simp_all
  qed
qed

lemma parseargs_step:
  "peek s [124, 41, 38, 59] = (True, s0) \<Longrightarrow> parseargs (Suc k) s = Ok (([], []), s0)"
  "peek s [124, 41, 38, 59] = (False, s0) \<Longrightarrow> gettoken s0 = (tok, w, s1) \<Longrightarrow>
    parseargs (Suc k) s = (if tok = 0 then Ok (([], []), s1) else if tok \<noteq> 97 then Panic ''syntax'' else if k = 0 then Panic ''too many args''
      else bindr (parseredirs s1) (\<lambda>(rs, s). bindr (parseargs k s) (\<lambda>((args, rs'), s). Ok ((w # args, rs @ rs'), s))))"
  by simp_all

definition args_words :: "tok list \<times> (tok \<times> u32 \<times> int) list \<Rightarrow> tok set" where
  "args_words x = set (fst x) \<union> redir_words (snd x)"

lemma parseargs_returns: "returns args_words s (parseargs k s)"
proof (induction k arbitrary: s)
  case (Suc k)
  obtain b s0 where p: "peek s [124, 41, 38, 59] = (b, s0)" by fastforce
  obtain tok w s1 where g: "gettoken s0 = (tok, w, s1)" using prod_cases3 by blast
  have l: "suffix s0 s" "suffix s1 s" by (rule peek_suffix [OF p], rule suffix_order.trans [OF token_suffix [OF g] peek_suffix [OF p]])
  show ?case
  proof (cases "\<not> b \<and> tok = 97")
    case True
    have w: "word_ok s w" using token_word [of s0 w s1] g True word_ok_mono [OF _ l(1)] by simp
    have r: "returns redir_words s (parseredirs s1)" by (rule returns_mono [OF parseredirs_returns l(2)])
    have a: "returns args_words s (bindr (parseargs k s2) (\<lambda>((args, rs'), s). Ok ((w # args, rs @ rs'), s)))"
      if "suffix s2 s" "\<forall>w\<in>redir_words rs. word_ok s w" for s2 rs
      by (rule returns_bind [OF returns_mono [OF Suc that(1)]]) (use that w in \<open>auto simp: args_words_def\<close>)
    have "returns args_words s (bindr (parseredirs s1) (\<lambda>(rs, s). bindr (parseargs k s) (\<lambda>((args, rs'), s). Ok ((w # args, rs @ rs'), s))))"
      by (rule returns_bind [OF r]) (simp only: prod.case a)
    then show ?thesis using parseargs_step(2) [OF _ g] p True by simp
  next
    case False
    then show ?thesis using parseargs_step [of s s0] p l g by (cases b) (simp_all add: args_words_def)
  qed
qed simp

lemma parsebacks_step:
  "peek s [38] = (False, s0) \<Longrightarrow> parsebacks cmd s = (cmd, s0)"
  "peek s [38] = (True, s0) \<Longrightarrow> gettoken s0 = (tok, w, s1) \<Longrightarrow> parsebacks cmd s = parsebacks (BACK cmd) s1"
  by (simp_all add: parsebacks.simps [of cmd s])

lemma parsebacks_words: "parsebacks cmd s = (cmd', s') \<Longrightarrow> suffix s' s \<and> set_cmd cmd' = set_cmd cmd"
proof (induction s arbitrary: cmd rule: length_induct)
  case (1 s)
  obtain b s0 where p: "peek s [38] = (b, s0)" by fastforce
  obtain tok w s1 where g: "gettoken s0 = (tok, w, s1)" using prod_cases3 by blast
  show ?case
  proof (cases b)
    case True
    then have l: "suffix s1 s \<and> length s1 < length s" using shrinks [OF _ g] p by simp
    have "parsebacks (BACK cmd) s1 = (cmd', s')" using "1.prems" parsebacks_step(2) [OF _ g, of s cmd] p True by simp
    then have "suffix s' s1 \<and> set_cmd cmd' = set_cmd cmd" using "1.IH" l by fastforce
    then show ?thesis using suffix_order.trans [of s' s1 s] l by simp
  next
    case False
    then show ?thesis using "1.prems" parsebacks_step(1) p peek_suffix [OF p] by auto
  qed
qed

lemma set_wrap: "set_cmd (wrap cmd rs) = set_cmd cmd \<union> redir_words rs"
  by (induction rs arbitrary: cmd) (auto simp: wrap_def redir_words_def)

text \<open>The part of \<open>parseline\<close> and \<open>parsepipe\<close> after the first command, and of \<open>parseblock\<close> after the line inside.\<close>

lemma returns_tail:
  assumes "\<And>s1. length s1 < length s \<Longrightarrow> returns set_cmd s1 (f s1)" "\<forall>w\<in>set_cmd x. word_ok t w" "suffix s t"
    "\<And>right. set_cmd (c right) = set_cmd x \<union> set_cmd right"
  shows "returns set_cmd t (case peek s toks of (False, s) \<Rightarrow> Ok (x, s)
    | (True, s) \<Rightarrow> (case gettoken s of (_, _, s) \<Rightarrow> bindr (f s) (\<lambda>(right, s). Ok (c right, s))))"
proof -
  obtain b s0 where p: "peek s toks = (b, s0)" by fastforce
  obtain tok w s1 where g: "gettoken s0 = (tok, w, s1)" using prod_cases3 by blast
  show ?thesis
  proof (cases b)
    case True
    then have l: "length s1 < length s" "suffix s1 t"
      using shrinks [of s toks s0, OF _ g] p suffix_order.trans [OF _ assms(3), of s1] by simp_all
    have "returns set_cmd t (f s1)" by (rule returns_mono [OF assms(1) [OF l(1)] l(2)])
    then have "returns set_cmd t (bindr (f s1) (\<lambda>(right, s). Ok (c right, s)))"
      by (rule returns_bind) (use assms(2,4) in auto)
    then show ?thesis using p g True by simp
  qed (use p suffix_order.trans [OF peek_suffix [OF p] assms(3)] assms(2) in simp)
qed

lemma returns_close:
  assumes "suffix s t" "\<forall>w\<in>set_cmd cmd. word_ok t w"
  shows "returns set_cmd t (case peek s [41] of (False, s) \<Rightarrow> Panic ''syntax - missing )''
    | (True, s) \<Rightarrow> (case gettoken s of (_, _, s) \<Rightarrow> bindr (parseredirs s) (\<lambda>(rs, s). Ok (wrap cmd rs, s))))"
proof -
  obtain b s0 where p: "peek s [41] = (b, s0)" by fastforce
  obtain tok w s1 where g: "gettoken s0 = (tok, w, s1)" using prod_cases3 by blast
  have "suffix s1 t" by (rule suffix_order.trans [OF suffix_order.trans [OF token_suffix [OF g] peek_suffix [OF p]] assms(1)])
  then have "returns set_cmd t (bindr (parseredirs s1) (\<lambda>(rs, s). Ok (wrap cmd rs, s)))"
    by (intro returns_bind [OF returns_mono [OF parseredirs_returns]]) (use assms(2) in \<open>auto simp: set_wrap\<close>)
  then show ?thesis using p g by (cases b) simp_all
qed

lemma parse_returns:
  "4 * length s + 4 \<le> n \<Longrightarrow> returns set_cmd s (parseline n s)" "4 * length s + 3 \<le> n \<Longrightarrow> returns set_cmd s (parsepipe n s)"
  "4 * length s + 2 \<le> n \<Longrightarrow> returns set_cmd s (parseexec n s)" "4 * length s + 1 \<le> n \<Longrightarrow> returns set_cmd s (parseblock n s)"
proof (induction n arbitrary: s)
  case (Suc n)
  {
    case 1
    have f: "returns set_cmd s1 (parseline n s1)" if "length s1 < length s" for s1 by (rule Suc) (use that 1 in simp)
    have rest: "returns set_cmd s (case parsebacks cmd s1 of (cmd, s) \<Rightarrow> case peek s [59] of (False, s) \<Rightarrow> Ok (cmd, s)
        | (True, s) \<Rightarrow> (case gettoken s of (_, _, s) \<Rightarrow> bindr (parseline n s) (\<lambda>(right, s). Ok (LIST cmd right, s))))"
      if s1: "suffix s1 s" "\<forall>w\<in>set_cmd cmd. word_ok s w" for cmd s1
    proof -
      obtain cmd' s2 where pb: "parsebacks cmd s1 = (cmd', s2)" by fastforce
      have l: "suffix s2 s" "set_cmd cmd' = set_cmd cmd" using parsebacks_words [OF pb] suffix_order.trans [OF _ s1(1), of s2] by simp_all
      show ?thesis unfolding pb prod.case by (rule returns_tail) (use f l s1(2) suffix_length_le [OF l(1)] in auto)
    qed
    have "returns set_cmd s (parsepipe n s)" by (rule Suc) (use 1 in simp)
    then show ?case unfolding parseline.simps by (rule returns_bind) (simp only: prod.case rest)
  next
    case 2
    have f: "returns set_cmd s1 (parsepipe n s1)" if "length s1 < length s" for s1 by (rule Suc) (use that 2 in simp)
    have rest: "returns set_cmd s (case peek s2 [124] of (False, s) \<Rightarrow> Ok (cmd, s)
        | (True, s) \<Rightarrow> (case gettoken s of (_, _, s) \<Rightarrow> bindr (parsepipe n s) (\<lambda>(right, s). Ok (PIPE cmd right, s))))"
      if l: "suffix s2 s" "\<forall>w\<in>set_cmd cmd. word_ok s w" for cmd s2
      by (rule returns_tail) (use f l suffix_length_le [OF l(1)] in auto)
    have "returns set_cmd s (parseexec n s)" by (rule Suc) (use 2 in simp)
    then show ?case unfolding parsepipe.simps by (rule returns_bind) (simp only: prod.case rest)
  next
    case 3
    obtain b s0 where p: "peek s [40] = (b, s0)" by fastforce
    note l = peek_suffix [OF p]
    have "returns set_cmd s (parseblock n s0)" by (rule returns_mono [OF _ l], rule Suc) (use 3 suffix_length_le [OF l] in simp)
    moreover have a: "returns set_cmd s (bindr (parseargs MAXARGS s1) (\<lambda>((args, rs'), s). Ok (wrap (EXEC args) (rs @ rs'), s)))"
      if "suffix s1 s" "\<forall>w\<in>redir_words rs. word_ok s w" for s1 rs
      by (rule returns_bind [OF returns_mono [OF parseargs_returns that(1)]]) (use that(2) in \<open>auto simp: set_wrap args_words_def\<close>)
    have "returns set_cmd s (bindr (parseredirs s0) (\<lambda>(rs, s). bindr (parseargs MAXARGS s) (\<lambda>((args, rs'), s). Ok (wrap (EXEC args) (rs @ rs'), s))))"
      by (rule returns_bind [OF returns_mono [OF parseredirs_returns l]]) (simp only: prod.case a)
    ultimately show ?case using p by (cases b) simp_all
  next
    case 4
    obtain b s0 where p: "peek s [40] = (b, s0)" by fastforce
    obtain tok w s1 where g: "gettoken s0 = (tok, w, s1)" using prod_cases3 by blast
    show ?case
    proof (cases b)
      case True
      then have l: "length s1 < length s" "suffix s1 s" using shrinks [of s "[40]" s0, OF _ g] p by simp_all
      have "returns set_cmd s1 (parseline n s1)" by (rule Suc) (use 4 l in simp)
      then have "returns set_cmd s1 (bindr (parseline n s1) (\<lambda>(cmd, s). case peek s [41] of (False, s) \<Rightarrow> Panic ''syntax - missing )''
             | (True, s) \<Rightarrow> (case gettoken s of (_, _, s) \<Rightarrow> bindr (parseredirs s) (\<lambda>(rs, s). Ok (wrap cmd rs, s)))))"
        by (rule returns_bind) (simp only: prod.case returns_close)
      then show ?thesis using returns_mono [OF _ l(2)] p g True by simp
    qed (use p in simp)
  }
qed simp_all

section \<open>The words after the cut\<close>

definition wordc :: "u8 \<Rightarrow> bool" where
  "wordc c \<longleftrightarrow> \<not> ws c \<and> \<not> symbol c"

definition wstr :: "tok \<Rightarrow> u8 list" where
  "wstr w = takeWhile wordc (fst w)"

lemma skipword_wordc: "skipword s = dropWhile wordc s"
proof -
  have "wordc = (\<lambda>c. \<not> ws c \<and> \<not> symbol c)" by (simp add: wordc_def fun_eq_iff)
  then show ?thesis by (simp add: skipword_def)
qed

lemma length_put_nul [simp]: "length (put_nul eq buf) = length buf"
  by (simp add: put_nul_def)

lemma put_nul_nth: "i < length buf \<Longrightarrow> put_nul eq buf ! i = (if i = length buf - length eq then 0 else buf ! i)"
  by (auto simp: put_nul_def nth_list_update)

lemma fold_put_nul:
  "length (fold (\<lambda>w. put_nul (snd w)) args buf) = length buf"
  "i < length buf \<Longrightarrow> fold (\<lambda>w. put_nul (snd w)) args buf ! i = (if \<exists>w\<in>set args. i = length buf - length (snd w) then 0 else buf ! i)"
  by (induction args arbitrary: buf) (simp_all add: put_nul_nth)

lemma length_nulterminate [simp]: "length (nulterminate cmd buf) = length buf"
  by (induction cmd arbitrary: buf) (simp_all add: fold_put_nul)

lemma nulterminate_nth:
  "i < length buf \<Longrightarrow> nulterminate cmd buf ! i = (if \<exists>w\<in>set_cmd cmd. i = length buf - length (snd w) then 0 else buf ! i)"
proof (induction cmd arbitrary: buf)
  case (REDIR cmd f mode fd)
  then show ?case by (simp add: put_nul_nth)
qed (simp_all add: fold_put_nul bex_Un)

lemma word_split: "word_ok s w \<Longrightarrow> fst w = wstr w @ snd w \<and> wstr w \<noteq> [] \<and> (snd w = [] \<or> \<not> wordc (hd (snd w)))"
  using hd_dropWhile [of wordc "fst w"] by (cases "fst w") (auto simp: word_ok_def wstr_def skipword_wordc wordc_def)

lemma nulterminate_word:
  assumes all: "\<forall>w\<in>set_cmd cmd. word_ok buf w" and w: "w \<in> set_cmd cmd" and nz: "0 \<notin> set buf"
  shows "string_at (nulterminate cmd buf) w = wstr w"
proof -
  let ?b = "nulterminate cmd buf" and ?n = "length (wstr w)"
  note sp = word_split [of buf w]
  have ok: "word_ok buf w" using all w by blast
  then obtain pre where pre: "buf = pre @ fst w" by (auto simp: word_ok_def suffix_def)
  have lw: "length (fst w) = ?n + length (snd w)" using sp [OF ok] by (metis length_append)
  have lp: "length buf - length (fst w) = length pre" by (subst pre) simp
  have chars: "?b ! (length pre + j) = wstr w ! j \<and> wstr w ! j \<noteq> 0" if j: "j < ?n" for j
  proof -
    have i: "length pre + j < length buf" using j lw pre by simp
    have c: "buf ! (length pre + j) = wstr w ! j" using sp [OF ok] j pre by (metis nth_append_length_plus nth_append)
    have wc: "wordc (wstr w ! j)" using j by (metis wstr_def nth_mem set_takeWhileD)
    have "length pre + j \<noteq> length buf - length (snd v)" if v: "v \<in> set_cmd cmd" for v
    proof
      assume e: "length pre + j = length buf - length (snd v)"
      have ov: "word_ok buf v" using all v by blast
      then obtain u where u: "buf = u @ snd v" using word_split [OF ov] by (auto simp: word_ok_def suffix_def)
      then have "snd v \<noteq> []" "buf ! (length pre + j) = hd (snd v)" using e i by (auto simp: nth_append hd_conv_nth)
      then show False using word_split [OF ov] c wc by simp
    qed
    then have "?b ! (length pre + j) = buf ! (length pre + j)" using i by (auto simp: nulterminate_nth)
    then show ?thesis using c i nz by (metis nth_mem)
  qed
  have stop: "?b ! (length pre + ?n) = 0" if "length pre + ?n < length buf"
    using that w lw pre by (auto simp: nulterminate_nth intro!: bexI [of _ w])
  have "takeWhile (\<lambda>c. c \<noteq> 0) (drop (length pre) ?b) = take ?n (drop (length pre) ?b)"
    by (rule takeWhile_eq_take_P_nth) (use chars stop in auto)
  also have "\<dots> = wstr w" by (rule nth_equalityI) (use chars lw pre in auto)
  finally show ?thesis by (simp add: string_at_def lp)
qed

section \<open>Writing a command down\<close>

text \<open>A line for a command: parentheses around every part, one space between arguments.\<close>

fun join :: "u8 list list \<Rightarrow> u8 list" where
  "join [] = []"
| "join [a] = a"
| "join (a # b # as) = a @ 32 # join (b # as)"

definition redir_op :: "u32 \<Rightarrow> u8 list" where
  "redir_op mode = (if mode = O_RDONLY then [60] else if mode = O_WRITE then [62] else [62, 62])"

primrec show_cmd :: "u8 list cmd \<Rightarrow> u8 list" where
  "show_cmd (EXEC args) = join args"
| "show_cmd (REDIR cmd f mode fd) = [40] @ show_cmd cmd @ [41] @ redir_op mode @ f"
| "show_cmd (PIPE left right) = [40] @ show_cmd left @ [41, 124, 40] @ show_cmd right @ [41]"
| "show_cmd (LIST left right) = [40] @ show_cmd left @ [41, 59, 40] @ show_cmd right @ [41]"
| "show_cmd (BACK cmd) = [40] @ show_cmd cmd @ [41, 38]"

definition plain_word :: "u8 list \<Rightarrow> bool" where
  "plain_word a \<longleftrightarrow> a \<noteq> [] \<and> list_all wordc a \<and> 0 \<notin> set a"

primrec plain :: "u8 list cmd \<Rightarrow> bool" where
  "plain (EXEC args) \<longleftrightarrow> length args < MAXARGS \<and> list_all plain_word args"
| "plain (REDIR cmd f mode fd) \<longleftrightarrow> plain cmd \<and> plain_word f \<and> (mode, fd) \<in> {(O_RDONLY, 0), (O_WRITE, 1), (O_APPEND, 1)}"
| "plain (PIPE left right) \<longleftrightarrow> plain left \<and> plain right"
| "plain (LIST left right) \<longleftrightarrow> plain left \<and> plain right"
| "plain (BACK cmd) \<longleftrightarrow> plain cmd"

text \<open>What may follow a command: nothing or a closing parenthesis.\<close>

definition closed :: "ptr \<Rightarrow> bool" where
  "closed r \<longleftrightarrow> r = [] \<or> hd r = 41"

lemma skipws_Cons [simp]: "skipws [] = []" "skipws (c # s) = (if ws c then skipws s else c # s)"
  by (simp_all add: skipws_def)

lemma closed_skip [simp]: "closed r \<Longrightarrow> skipws r = r" "closed r \<Longrightarrow> skipword r = r" "closed []" "closed (41 # s)"
  by (cases r; simp add: closed_def ws_def skipword_def symbol_def)+

lemma closed_peek: "closed r \<Longrightarrow> 41 \<notin> set toks \<Longrightarrow> peek r toks = (False, r)"
  by (cases r) (auto simp: closed_def peek_def Let_def ws_def)

lemma closed_redirs: "closed r \<Longrightarrow> parseredirs r = Ok ([], r)"
  by (rule parseredirs_step(1) [OF closed_peek]) simp_all

lemma word_peek:
  assumes "plain_word a" "\<forall>t\<in>set toks. symbol t"
  shows "peek (a @ s) toks = (False, a @ s)"
  using assms by (cases a) (auto simp: plain_word_def peek_def Let_def wordc_def)

lemma word_token:
  assumes "plain_word a" "s = [] \<or> \<not> wordc (hd s)"
  shows "gettoken (a @ s) = (97, (a @ s, s), skipws s)" "wstr (a @ s, s) = a"
proof -
  obtain c b where a: "a = c # b" and c: "\<not> ws c" "\<not> symbol c" "c \<noteq> 0"
    using assms(1) by (cases a) (auto simp: plain_word_def wordc_def)
  have w: "\<forall>x\<in>set a. wordc x" using assms(1) by (simp add: plain_word_def list_all_iff)
  then have "dropWhile wordc (a @ s) = s" "takeWhile wordc (a @ s) = a" using assms(2) by (cases s; simp add: dropWhile_append takeWhile_append)+
  then show "gettoken (a @ s) = (97, (a @ s, s), skipws s)" "wstr (a @ s, s) = a"
    using c by (simp_all add: gettoken_def Let_def a skipword_wordc wstr_def symbol_def)
qed

lemma symbol_token: "c \<in> {124, 40, 41, 59, 38, 60} \<Longrightarrow> gettoken (c # s) = (c, (c # s, s), skipws s)"
  by (auto simp: gettoken_def Let_def ws_def)

lemma symbol_peek: "symbol c \<Longrightarrow> c \<in> set toks \<Longrightarrow> peek (c # s) toks = (True, c # s)"
    "symbol c \<Longrightarrow> c \<notin> set toks \<Longrightarrow> peek (c # s) toks = (False, c # s)"
  by (auto simp: peek_def Let_def symbol_def ws_def)

lemma join_word: "plain_word b \<Longrightarrow> \<exists>s. join (b # as) @ r = b @ s"
  by (cases as) auto

lemma args_peek:
  assumes "list_all plain_word args" "closed r" "\<forall>t\<in>set toks. symbol t \<and> t \<noteq> 41"
  shows "peek (join args @ r) toks = (False, join args @ r)"
proof (cases args)
  case Nil
  then show ?thesis using closed_peek [OF assms(2), of toks] assms(3) by auto
next
  case (Cons a as)
  then obtain s where "join args @ r = a @ s" using join_word [of a as r] assms(1) by auto
  then show ?thesis using word_peek [of a toks s] assms Cons by simp
qed

lemma closed_args: "closed r \<Longrightarrow> parseargs (Suc k) r = Ok (([], []), r)"
  by (cases r) (auto simp: closed_def peek_def gettoken_def Let_def ws_def)

lemma join_args:
  assumes "list_all plain_word args" "length args < k" "closed r"
  shows "\<exists>wds. parseargs k (join args @ r) = Ok ((wds, []), r) \<and> map wstr wds = args"
  using assms(1,2)
proof (induction args arbitrary: k rule: join.induct)
  case 1
  then show ?case using closed_args [OF assms(3)] by (cases k) auto
next
  case (2 a)
  then obtain k' where k: "k = Suc (Suc k')" by (cases k; cases "k - 1") auto
  have a: "plain_word a" and r: "r = [] \<or> \<not> wordc (hd r)" using 2 assms(3) by (auto simp: closed_def wordc_def symbol_def)
  have p: "peek (a @ r) [124, 41, 38, 59] = (False, a @ r)" by (rule word_peek [OF a]) (simp add: symbol_def)
  note g = word_token [OF a r, unfolded closed_skip(1) [OF assms(3)]]
  have "parseargs k (join [a] @ r) = Ok (([(a @ r, r)], []), r)"
    using parseargs_step(2) [OF p g(1), of "Suc k'"] closed_redirs [OF assms(3)] closed_args [OF assms(3), of k'] by (simp add: k)
  then show ?case using g(2) by auto
next
  case (3 a b as)
  then obtain k' where k: "k = Suc k'" "k' \<noteq> 0" by (cases k) auto
  let ?X = "join (b # as) @ r"
  have a: "plain_word a" "list_all plain_word (b # as)" using 3(2) by auto
  obtain s where s: "?X = b @ s" using join_word [of b as r] a(2) by auto
  have "skipws ?X = ?X" using a(2) unfolding s by (cases b) (auto simp: plain_word_def wordc_def)
  then have g: "gettoken (a @ 32 # ?X) = (97, (a @ 32 # ?X, 32 # ?X), ?X)" "wstr (a @ 32 # ?X, 32 # ?X) = a"
    using word_token [OF a(1), of "32 # ?X"] by (auto simp: wordc_def ws_def)
  have p: "peek (a @ 32 # ?X) [124, 41, 38, 59] = (False, a @ 32 # ?X)" by (rule word_peek [OF a(1)]) (simp add: symbol_def)
  have rd: "parseredirs ?X = Ok ([], ?X)"
    by (rule parseredirs_step(1) [OF args_peek [OF a(2) assms(3)]]) (simp add: symbol_def)
  obtain wds where "parseargs k' ?X = Ok ((wds, []), r)" "map wstr wds = b # as"
    using "3.IH" [OF a(2), of k'] "3.prems"(2) k by auto
  then have "parseargs k (a @ 32 # ?X) = Ok (((a @ 32 # ?X, 32 # ?X) # wds, []), r)"
    using parseargs_step(2) [OF p g(1), of k'] rd k by simp
  then show ?case using g(2) \<open>map wstr wds = b # as\<close> by (intro exI [of _ "(a @ 32 # ?X, 32 # ?X) # wds"]) simp
qed

lemma show_skip: "plain c \<Longrightarrow> closed r \<Longrightarrow> skipws (show_cmd c @ r) = show_cmd c @ r"
proof (cases c)
  case (EXEC args)
  assume "plain c" "closed r"
  then have "peek (join args @ r) [] = (False, join args @ r)" by (intro args_peek) (simp_all add: EXEC)
  then show ?thesis by (simp add: EXEC peek_def Let_def)
qed (simp_all add: ws_def)

text \<open>A command in parentheses, with what follows it.\<close>

definition reads_back :: "u8 list cmd \<Rightarrow> bool" where
  "reads_back c \<longleftrightarrow> (\<forall>n r. closed r \<longrightarrow> 4 * length (show_cmd c) + 4 \<le> n \<longrightarrow> (\<exists>c'. parseline n (show_cmd c @ r) = Ok (c', r) \<and> map_cmd wstr c' = c))"

lemma block_reads:
  assumes "reads_back c" "4 * length (show_cmd c) + 6 \<le> n" "plain c"
  shows "\<exists>c'. parseexec n (40 # show_cmd c @ 41 # t) = bindr (parseredirs (skipws t)) (\<lambda>(rs, s). Ok (wrap c' rs, s)) \<and> map_cmd wstr c' = c"
proof -
  obtain m where n: "n = Suc (Suc m)" "4 * length (show_cmd c) + 4 \<le> m" using assms(2) by (cases n; cases "n - 1") auto
  obtain c' where c': "parseline m (show_cmd c @ 41 # t) = Ok (c', 41 # t)" "map_cmd wstr c' = c"
    using assms(1) n(2) closed_skip(4) unfolding reads_back_def by blast
  have p: "peek (40 # s) [40] = (True, 40 # s)" "peek (41 # s) [41] = (True, 41 # s)" for s
    by (rule symbol_peek; simp add: symbol_def)+
  have "skipws (show_cmd c @ 41 # t) = show_cmd c @ 41 # t" by (rule show_skip [OF assms(3)]) simp
  then have "parseexec n (40 # show_cmd c @ 41 # t) = bindr (parseredirs (skipws t)) (\<lambda>(rs, s). Ok (wrap c' rs, s))"
    using c'(1) p symbol_token by (simp add: n)
  then show ?thesis using c'(2) by blast
qed

lemma no_redirs: "symbol c \<Longrightarrow> c \<noteq> 60 \<Longrightarrow> c \<noteq> 62 \<Longrightarrow> parseredirs (c # s) = Ok ([], c # s)"
  by (rule parseredirs_step(1) [OF symbol_peek(2)]) simp_all

lemma block_before:
  assumes "reads_back c" "4 * length (show_cmd c) + 6 \<le> n" "plain c" "x \<in> {124, 59, 38}"
  obtains c' where "parseexec n (40 # show_cmd c @ 41 # x # t) = Ok (c', x # t)" "map_cmd wstr c' = c"
proof -
  have x: "skipws (x # t) = x # t" "parseredirs (x # t) = Ok ([], x # t)"
    using assms(4) no_redirs [of x t] by (auto simp: ws_def symbol_def)
  obtain c' where "parseexec n (40 # show_cmd c @ 41 # x # t) = Ok (c', x # t)" "map_cmd wstr c' = c"
    using block_reads [OF assms(1-3), of "x # t"] x by (auto simp: wrap_def)
  then show thesis by (rule that)
qed

lemma block_closed:
  assumes "reads_back c" "4 * length (show_cmd c) + 6 \<le> n" "plain c" "closed r"
  obtains c' where "parseexec n (40 # show_cmd c @ 41 # r) = Ok (c', r)" "map_cmd wstr c' = c"
  using block_reads [OF assms(1-3), of r] assms(4) closed_redirs by (auto simp: wrap_def)

lemma pipe_closed: "parseexec n s = Ok (c, r) \<Longrightarrow> closed r \<Longrightarrow> parsepipe (Suc n) s = Ok (c, r)"
  by (simp add: closed_peek)

lemma line_closed: "parsepipe n s = Ok (c, r) \<Longrightarrow> closed r \<Longrightarrow> parseline (Suc n) s = Ok (c, r)"
  using parsebacks_step(1) [of r r c] by (simp add: closed_peek)

lemma redir_reads:
  assumes f: "plain_word f" and m: "(mode, fd) \<in> {(O_RDONLY, 0), (O_WRITE, 1), (O_APPEND, 1)}" and r: "closed r"
  shows "parseredirs (redir_op mode @ f @ r) = Ok ([((f @ r, r), mode, fd)], r)" "skipws (redir_op mode @ f @ r) = redir_op mode @ f @ r"
proof -
  have w: "r = [] \<or> \<not> wordc (hd r)" using r by (auto simp: closed_def wordc_def symbol_def)
  note g = word_token(1) [OF f w, unfolded closed_skip(1) [OF r]]
  obtain x y where f': "f = x # y" "\<not> ws x" "x \<noteq> 62" using f by (cases f) (auto simp: plain_word_def wordc_def symbol_def)
  obtain tok s where t: "redir_op mode @ f @ r = s" "peek s [60, 62] = (True, s)" "gettoken s = (tok, (s, f @ r), f @ r)" "\<And>w. redir_of tok w = (w, mode, fd)"
    using m f' by (auto simp: redir_op_def redir_of_def peek_def gettoken_def Let_def ws_def)
  show "parseredirs (redir_op mode @ f @ r) = Ok ([((f @ r, r), mode, fd)], r)"
    using parseredirs_step(2) [OF t(2,3) g] t(1,4) closed_redirs [OF r] by simp
  show "skipws (redir_op mode @ f @ r) = redir_op mode @ f @ r" by (simp add: redir_op_def ws_def)
qed

lemma reads_backI:
  assumes "\<And>n r. closed r \<Longrightarrow> 4 * length (show_cmd c) + 2 \<le> n \<Longrightarrow> \<exists>c'. parseline (Suc (Suc n)) (show_cmd c @ r) = Ok (c', r) \<and> map_cmd wstr c' = c"
  shows "reads_back c"
  unfolding reads_back_def
proof (intro allI impI)
  fix n and r :: ptr assume "closed r" "4 * length (show_cmd c) + 4 \<le> n"
  then show "\<exists>c'. parseline n (show_cmd c @ r) = Ok (c', r) \<and> map_cmd wstr c' = c" using assms [of r "n - 2"] by (cases n; cases "n - 1") auto
qed

lemma exec_reads_back:
  assumes "length args < MAXARGS" "list_all plain_word args"
  shows "reads_back (EXEC args)"
proof (rule reads_backI)
  fix n and r :: ptr assume r: "closed r" and "4 * length (show_cmd (EXEC args)) + 2 \<le> n"
  then obtain m where n: "n = Suc m" by (cases n) auto
  have p: "peek (join args @ r) toks = (False, join args @ r)" if "set toks \<subseteq> {40, 60, 62}" for toks
    by (rule args_peek [OF assms(2) r]) (use that in \<open>auto simp: symbol_def\<close>)
  have "parseredirs (join args @ r) = Ok ([], join args @ r)" by (rule parseredirs_step(1) [OF p]) simp
  moreover obtain wds where "parseargs MAXARGS (join args @ r) = Ok ((wds, []), r)" "map wstr wds = args"
    using join_args [OF assms(2,1) r] by blast
  ultimately have "parseexec n (join args @ r) = Ok (EXEC wds, r)" "map_cmd wstr (EXEC wds) = EXEC args"
    using p [of "[40]"] by (simp_all add: n wrap_def)
  then show "\<exists>c'. parseline (Suc (Suc n)) (show_cmd (EXEC args) @ r) = Ok (c', r) \<and> map_cmd wstr c' = EXEC args"
    using line_closed [OF pipe_closed] r by fastforce
qed

lemma redir_reads_back:
  assumes "reads_back c" "plain (REDIR c f mode fd)"
  shows "reads_back (REDIR c f mode fd)"
proof (rule reads_backI)
  fix n and r :: ptr assume r: "closed r" and n: "4 * length (show_cmd (REDIR c f mode fd)) + 2 \<le> n"
  have pl: "plain c" "plain_word f" "(mode, fd) \<in> {(O_RDONLY, 0), (O_WRITE, 1), (O_APPEND, 1)}" using assms(2) by auto
  have w: "r = [] \<or> \<not> wordc (hd r)" using r by (auto simp: closed_def wordc_def symbol_def)
  note rd = redir_reads [OF pl(2,3) r]
  obtain c' where "parseexec n (show_cmd (REDIR c f mode fd) @ r) = Ok (REDIR c' (f @ r, r) mode fd, r)" "map_cmd wstr c' = c"
    using block_reads [OF assms(1) _ pl(1), of n "redir_op mode @ f @ r"] n rd by (auto simp: wrap_def)
  moreover then have "map_cmd wstr (REDIR c' (f @ r, r) mode fd) = REDIR c f mode fd" using word_token(2) [OF pl(2) w] by simp
  ultimately show "\<exists>c'. parseline (Suc (Suc n)) (show_cmd (REDIR c f mode fd) @ r) = Ok (c', r) \<and> map_cmd wstr c' = REDIR c f mode fd"
    using line_closed [OF pipe_closed] r by blast
qed

lemma pipe_reads_back:
  assumes "reads_back a" "reads_back b" "plain a" "plain b"
  shows "reads_back (PIPE a b)"
proof (rule reads_backI)
  fix n and r :: ptr assume r: "closed r" and n: "4 * length (show_cmd (PIPE a b)) + 2 \<le> n"
  let ?t = "40 # show_cmd b @ 41 # r"
  obtain a' where a: "parseexec n (40 # show_cmd a @ 41 # 124 # ?t) = Ok (a', 124 # ?t)" "map_cmd wstr a' = a"
    by (rule block_before [OF assms(1) _ assms(3), of n 124 ?t]) (use n in simp_all)
  obtain b' where b: "parseexec (n - 1) ?t = Ok (b', r)" "map_cmd wstr b' = b"
    by (rule block_closed [OF assms(2) _ assms(4) r, of "n - 1"]) (use n in simp_all)
  have "parsepipe n ?t = Ok (b', r)" using pipe_closed [OF b(1) r] n by simp
  moreover have "peek (124 # ?t) [124] = (True, 124 # ?t)" by (rule symbol_peek) (simp_all add: symbol_def)
  ultimately have "parsepipe (Suc n) (40 # show_cmd a @ 41 # 124 # ?t) = Ok (PIPE a' b', r)"
    using a(1) symbol_token [of 124 ?t] by (simp add: ws_def)
  then show "\<exists>c'. parseline (Suc (Suc n)) (show_cmd (PIPE a b) @ r) = Ok (c', r) \<and> map_cmd wstr c' = PIPE a b"
    using line_closed [OF _ r] a(2) b(2) by fastforce
qed

lemma list_reads_back:
  assumes "reads_back a" "reads_back b" "plain a" "plain b"
  shows "reads_back (LIST a b)"
proof (rule reads_backI)
  fix n and r :: ptr assume r: "closed r" and n: "4 * length (show_cmd (LIST a b)) + 2 \<le> n"
  let ?t = "40 # show_cmd b @ 41 # r"
  obtain a' where a: "parseexec n (40 # show_cmd a @ 41 # 59 # ?t) = Ok (a', 59 # ?t)" "map_cmd wstr a' = a"
    by (rule block_before [OF assms(1) _ assms(3), of n 59 ?t]) (use n in simp_all)
  obtain b' where b: "parseexec (n - 1) ?t = Ok (b', r)" "map_cmd wstr b' = b"
    by (rule block_closed [OF assms(2) _ assms(4) r, of "n - 1"]) (use n in simp_all)
  have "parseline (Suc n) ?t = Ok (b', r)" using line_closed [OF pipe_closed [OF b(1) r] r] n by simp
  moreover have p: "peek (59 # ?t) [59] = (True, 59 # ?t)" "peek (59 # ?t) [38] = (False, 59 # ?t)" "peek (59 # ?t) [124] = (False, 59 # ?t)"
    by (rule symbol_peek; simp add: symbol_def)+
  ultimately have "parseline (Suc (Suc n)) (40 # show_cmd a @ 41 # 59 # ?t) = Ok (LIST a' b', r)"
    using a(1) symbol_token [of 59 ?t] parsebacks_step(1) [OF p(2)] by (simp add: ws_def)
  then show "\<exists>c'. parseline (Suc (Suc n)) (show_cmd (LIST a b) @ r) = Ok (c', r) \<and> map_cmd wstr c' = LIST a b"
    using a(2) b(2) by fastforce
qed

lemma back_reads_back:
  assumes "reads_back c" "plain c"
  shows "reads_back (BACK c)"
proof (rule reads_backI)
  fix n and r :: ptr assume r: "closed r" and n: "4 * length (show_cmd (BACK c)) + 2 \<le> n"
  obtain a where a: "parseexec n (40 # show_cmd c @ 41 # 38 # r) = Ok (a, 38 # r)" "map_cmd wstr a = c"
    by (rule block_before [OF assms(1) _ assms(2), of n 38 r]) (use n in simp_all)
  have p: "peek (38 # r) [38] = (True, 38 # r)" "peek (38 # r) [124] = (False, 38 # r)"
    by (rule symbol_peek; simp add: symbol_def)+
  have "gettoken (38 # r) = (38, (38 # r, r), r)" using symbol_token [of 38 r] r by simp
  then have "parsebacks a (38 # r) = (BACK a, r)" using parsebacks_step(2) [OF p(1)] parsebacks_step(1) [of r r] closed_peek [OF r] by simp
  then have "parseline (Suc (Suc n)) (40 # show_cmd c @ 41 # 38 # r) = Ok (BACK a, r)" using a(1) p(2) closed_peek [OF r] by simp
  then show "\<exists>c'. parseline (Suc (Suc n)) (show_cmd (BACK c) @ r) = Ok (c', r) \<and> map_cmd wstr c' = BACK c" using a(2) by fastforce
qed

lemma plain_reads_back: "plain c \<Longrightarrow> reads_back c"
  by (induction c) (simp_all add: exec_reads_back redir_reads_back pipe_reads_back list_reads_back back_reads_back)

lemma join_no_nul: "list_all plain_word args \<Longrightarrow> 0 \<notin> set (join args)"
  by (induction args rule: join.induct) (auto simp: plain_word_def)

lemma show_no_nul: "plain c \<Longrightarrow> 0 \<notin> set (show_cmd c)"
  by (induction c) (auto simp: join_no_nul plain_word_def redir_op_def)

text \<open>What a parse that succeeds has found.\<close>

lemma parsecmd_Ok:
  assumes "parsecmd line = Ok (cmd, buf)"
  shows "buf = nulterminate cmd line" "\<forall>w\<in>set_cmd cmd. word_ok line w"
proof -
  have r: "returns set_cmd line (parseline (4 * length line + 4) line)" by (rule parse_returns) simp
  show "buf = nulterminate cmd line" "\<forall>w\<in>set_cmd cmd. word_ok line w"
    using assms r by (cases "parseline (4 * length line + 4) line"; auto simp: parsecmd_def split: if_splits)+
qed

section \<open>Properties\<close>

text \<open>C35: \<open>parsecmd\<close> returns on every line, with a command or with one of its panics. In a command it returns, every
  argument and file name is a word of the line: it begins with a byte that is neither white space nor a symbol and runs
  up to the next byte that is. After \<open>nulterminate\<close> the string at its address is this word: the NUL behind one word never
  cuts another.\<close>

theorem parsecmd_words:
  assumes "0 \<notin> set line"
  shows "parsecmd line \<noteq> Out \<and> (\<forall>cmd buf. parsecmd line = Ok (cmd, buf) \<longrightarrow> length buf = length line \<and>
    (\<forall>w\<in>set_cmd cmd. string_at buf w = wstr w \<and> word_ok line w \<and> fst w = wstr w @ snd w \<and> wstr w \<noteq> []))"
proof -
  have "returns set_cmd line (parseline (4 * length line + 4) line)" by (rule parse_returns) simp
  then have "parsecmd line \<noteq> Out"
    by (cases "parseline (4 * length line + 4) line") (auto simp: parsecmd_def returns_def split: if_splits)
  moreover have "length buf = length line \<and> (\<forall>w\<in>set_cmd cmd. string_at buf w = wstr w \<and> word_ok line w \<and> fst w = wstr w @ snd w \<and> wstr w \<noteq> [])"
    if "parsecmd line = Ok (cmd, buf)" for cmd buf
    using parsecmd_Ok [OF that] nulterminate_word [of cmd line, OF _ _ assms] word_split by auto
  ultimately show ?thesis by blast
qed

theorem parsecmd_words_witness:
  "\<exists>cmd buf. parsecmd (str ''cat<in;echo a|wc'') = Ok (cmd, buf) \<and> map_cmd (string_at buf) cmd =
    LIST (REDIR (EXEC [str ''cat'']) (str ''in'') O_RDONLY 0) (PIPE (EXEC [str ''echo'', str ''a'']) (EXEC [str ''wc'']))"
proof -
  let ?line = "str ''cat<in;echo a|wc''"
  have nz: "0 \<notin> set ?line" by code_simp
  obtain cmd buf where p: "parsecmd ?line = Ok (cmd, buf)" and
    m: "map_cmd wstr cmd = LIST (REDIR (EXEC [str ''cat'']) (str ''in'') O_RDONLY 0) (PIPE (EXEC [str ''echo'', str ''a'']) (EXEC [str ''wc'']))"
  proof -
    have "(case parsecmd ?line of Ok (cmd, buf) \<Rightarrow> map_cmd wstr cmd = LIST (REDIR (EXEC [str ''cat'']) (str ''in'') O_RDONLY 0)
      (PIPE (EXEC [str ''echo'', str ''a'']) (EXEC [str ''wc''])) | _ \<Rightarrow> False)" by code_simp
    then show thesis using that by (auto split: res.splits)
  qed
  have "map_cmd (string_at buf) cmd = map_cmd wstr cmd"
    by (rule cmd.map_cong0) (use parsecmd_words [OF nz] p in blast)
  then show ?thesis using p m by auto
qed

text \<open>C5: every command can be typed. Writing a command down with parentheses around its parts and parsing the line
  gives the command back, with its words read from the line after \<open>nulterminate\<close>. The words are non-empty and free of white space, symbols
  and NUL, a simple command has at most 9 of them, and a redirection is one of the three the parser knows.\<close>

theorem parsecmd_show:
  assumes "plain c"
  shows "\<exists>c' buf. parsecmd (show_cmd c) = Ok (c', buf) \<and> map_cmd (string_at buf) c' = c"
proof -
  let ?s = "show_cmd c"
  obtain c' where c': "parseline (4 * length ?s + 4) ?s = Ok (c', [])" "map_cmd wstr c' = c"
    using plain_reads_back [OF assms] closed_skip(3) unfolding reads_back_def by (metis append_Nil2 le_refl)
  then have p: "parsecmd ?s = Ok (c', nulterminate c' ?s)" by (simp add: parsecmd_def peek_def Let_def)
  have "map_cmd (string_at (nulterminate c' ?s)) c' = map_cmd wstr c'"
    by (rule cmd.map_cong0) (use nulterminate_word [OF parsecmd_Ok(2) [OF p] _ show_no_nul [OF assms]] in blast)
  then show ?thesis using p c'(2) by auto
qed

theorem parsecmd_show_witness:
  "\<exists>c' buf. parsecmd (str ''((ls -l)|(wc))>>out'') = Ok (c', buf) \<and>
    map_cmd (string_at buf) c' = REDIR (PIPE (EXEC [str ''ls'', str ''-l'']) (EXEC [str ''wc''])) (str ''out'') O_APPEND 1"
proof -
  let ?c = "REDIR (PIPE (EXEC [str ''ls'', str ''-l'']) (EXEC [str ''wc''])) (str ''out'') O_APPEND 1"
  have "plain ?c" and s: "show_cmd ?c = str ''((ls -l)|(wc))>>out''" by code_simp+
  from parsecmd_show [OF this(1)] show ?thesis unfolding s .
qed

end
