(* ===== verification/Spec2Isabelle.thy ===== *)
theory Spec2Isabelle
  imports FileIO SysMem PipeWake Grep Tools Shell
begin

text \<open>
  \<^bold>\<open>A verification development for an extended xv6-riscv kernel.\<close>

  The program is a small Unix-like kernel for RISC-V (\<^verbatim>\<open>src/kernel\<close>), extended with the system calls \<open>map_ro\<close>, \<open>mapzero\<close>,
  \<open>trace\<close>, \<open>dumpvm\<close>, \<open>hello\<close> and a shared page, and its user programs (\<^verbatim>\<open>src/user\<close>). The page allocator hands out
  physical pages; virtual memory builds page tables and user memory from them; processes own address spaces and sleep
  on channels; the buffer cache, the log and the file system turn disk blocks into files; pipes, files and the console
  are behind file descriptors; the system calls and trap handlers are the entry points. The shell and small tools run
  on top.

  \<^bold>\<open>State and results.\<close> The kernel's state is a chain of records, each extending the one before: \<open>mach\<close> (physical memory,
  free list, linker symbols, console output), \<open>kproc\<close> (process table and globals of \<^verbatim>\<open>proc.c\<close>, \<^verbatim>\<open>trap.c\<close> and
  \<^verbatim>\<open>crear_memoria_compartida.c\<close>), \<open>kfs\<close> (disk, buffers, log, inodes, files, pipes, console), \<open>kvirt\<close> (disk driver) and
  \<open>ktrap\<close> (control registers). An operation is a function on the record scheme of its layer. It returns an option:
  \<open>None\<close> is a panic, a kernel fault, or a wait that nothing can end while the operation runs alone. Error returns are
  values. A C integer is a word of its width where it can wrap, and \<open>int\<close> or \<open>nat\<close> where it cannot; in the signed loop
  counters of \<open>balloc\<close> this holds for disks of up to \<open>2 ^ 31\<close> blocks. \<open>printint\<close> negates its argument as a word, so
  the least integer, which C leaves undefined, wraps.

  \<^bold>\<open>Theories, by layer.\<close>

  \<^item> \<open>Prelude\<close>: words, byte-addressed memory, little-endian encodings, page arithmetic (\<^verbatim>\<open>riscv.h\<close>, \<^verbatim>\<open>memlayout.h\<close>).
    \<open>CString\<close>: \<^verbatim>\<open>string.c\<close> and its counterparts in \<^verbatim>\<open>ulib.c\<close>; \<open>memmove\<close> is correct for overlapping ranges. \<open>KPrintf\<close>:
    both \<open>printf\<close>; the digits \<open>printint\<close> sends denote its argument. \<open>Ring\<close>: rings with free-running indices and the
    interface \<open>fifo\<close>.
  \<^item> \<open>KState\<close>, \<open>Kalloc\<close>: \<^verbatim>\<open>kalloc.c\<close>, with the interface \<open>page_allocator\<close>; \<open>kinit\<close> frees every page, and pages handed out
    are distinct. \<open>Spinlock\<close>: \<^verbatim>\<open>spinlock.c\<close>, as functions and as a step relation with one step per access to the lock;
    mutual exclusion under every interleaving, and each function is a sequence of steps of the relation.
  \<^item> \<open>VM\<close>: \<^verbatim>\<open>vm.c\<close>, every function. \<open>VM_Table\<close>: page tables as trees. \<open>VM_Space\<close>, \<open>VM_Grow\<close>: mapping, unmapping, growing.
    \<open>VM_User\<close>: user memory as a function from addresses to bytes; \<open>copyout\<close>, \<open>copyin\<close>, \<open>vmfault\<close>. The relation \<open>uview\<close>
    keeps old pages and allows new pages of zeros, which lazy allocation adds.
  \<^item> \<open>Proc\<close>, \<open>ProcLife\<close>: \<^verbatim>\<open>proc.c\<close> and the shared page. \<open>Exec\<close>: \<^verbatim>\<open>exec.c\<close>.
  \<^item> \<open>FState\<close>, \<open>Bio\<close>, \<open>Cache\<close>: \<^verbatim>\<open>sleeplock.c\<close>, \<^verbatim>\<open>bio.c\<close>, and the interface \<open>block_cache\<close> that the cache refines: blocks
    with contents, references and locks instead of buffers in order of use.
  \<^item> \<open>Log\<close>, \<open>LogSafe\<close>: \<^verbatim>\<open>log.c\<close>. \<open>crash_disk\<close> gathers the disks that a crash during \<open>commit\<close> and any number of crashes during
    \<open>initlog\<close> leave, taken from the writes these functions make; recovery gives all of the transaction or nothing of it.
  \<^item> \<open>Fs\<close>, \<open>Txn\<close>, \<open>FileMap\<close>, \<open>FileData\<close>, \<open>FileIO\<close>: \<^verbatim>\<open>fs.c\<close>. Inside a transaction \<open>blk\<close> gives the contents of every block;
    on it the bitmap, inodes on disk and the contents of files are specified, up to reading back what was written and
    leaving other files alone. The theorems on \<open>writei\<close> cover kernel buffers and mapped user memory, those on \<open>readi\<close>
    kernel buffers.
  \<^item> \<open>Pipe\<close>, \<open>PipeWake\<close>: \<^verbatim>\<open>pipe.c\<close>. A call is cut into stretches between sleeps and a write into rounds. The ring is a
    queue (\<open>fifo\<close>); \<open>PipeWake\<close> adds kills by other harts between rounds and says which calls keep the sleepers right.
  \<^item> \<open>File\<close>, \<open>Console\<close>, \<open>Virtio\<close>, \<open>Sysproc\<close>, \<open>Sysfile\<close>, \<open>Syscall\<close>, \<open>Riscv\<close>, \<open>Trap\<close>: \<^verbatim>\<open>file.c\<close>, \<^verbatim>\<open>console.c\<close>, \<^verbatim>\<open>uart.c\<close>,
    \<^verbatim>\<open>virtio_disk.c\<close>, \<^verbatim>\<open>sysproc.c\<close>, \<^verbatim>\<open>sysfile.c\<close>, \<^verbatim>\<open>syscall.c\<close>, \<^verbatim>\<open>riscv.h\<close>, \<^verbatim>\<open>trap.c\<close>, \<^verbatim>\<open>plic.c\<close>, \<^verbatim>\<open>start.c\<close>, \<^verbatim>\<open>main.c\<close>.
    \<open>SysMem\<close>: what \<open>sbrk\<close>, \<open>map_ro\<close>, \<open>mapzero\<close> and the page faults do to user memory, and the calls that panic the kernel.
  \<^item> \<open>Ulib\<close>, \<open>Grep\<close>, \<open>Tools\<close>, \<open>Shell\<close>: \<^verbatim>\<open>ulib.c\<close>, \<^verbatim>\<open>grep.c\<close>, \<^verbatim>\<open>wc.c\<close>, \<^verbatim>\<open>cat.c\<close>, \<^verbatim>\<open>echo.c\<close> and the parser of \<^verbatim>\<open>sh.c\<close>. The read system
    call is a parameter; \<open>feeds\<close> states what it promises.

  \<^bold>\<open>Bounds and fuel.\<close> Loops over addresses and list lengths have termination proofs. The parser of the shell has fuel
  \<open>4 * length s + 4\<close>: it goes through at most four functions before it consumes a byte, and \<open>parse_returns\<close> shows that
  this is enough for every line. \<open>strlen\<close>, \<open>strcpy\<close>, \<open>grep\<close>, \<open>wc\<close> and \<open>cat\<close> are partial functions, with theorems that
  the loops of \<open>grep\<close> and \<open>wc\<close> return.

  \<^bold>\<open>Abstractions.\<close> Kernel operations run one at a time, as under their locks, except where interleaving is the subject
  (\<open>Spinlock\<close>, \<open>PipeWake\<close>, the stretches of calls that sleep). A block write is atomic. \<open>disk_rw\<close>, which stands for the
  driver together with the device, does not fail; \<open>virtio_disk_intr\<close>, which panics on an error status, is modelled in
  \<open>Virtio\<close>. Memory accesses are sequentially consistent.

  \<^bold>\<open>Not modelled.\<close> The assembly files and linker scripts, whose addresses are the record of linker symbols; the command
  execution of the shell (\<open>runcmd\<close>), which is a sequence of system calls; \<^verbatim>\<open>umalloc.c\<close>; \<^verbatim>\<open>mkfs.c\<close>, which runs on the host;
  test and demonstration programs, which only issue system calls and print.
\<close>

end
